(* ===== verification/Paxos_Prelude.thy ===== *)
theory Paxos_Prelude
  imports Main "HOL-Library.Word" "HOL-Library.Monad_Syntax" "HOL-Library.Signed_Division"
begin

text \<open>
  What every component of the development shares: the fixed-width types of the C code,
  the reading of undefined behaviour, and generic lemmas on lists, options and words.

  A C function that can run into undefined behaviour or a failed \<open>assert\<close> (an array index
  out of range, a null dereference, a signed overflow, a loop that does not end) is a
  function into \<^typ>\<open>'a option\<close>: \<^term>\<open>None\<close> is the fault, \<^term>\<open>Some r\<close> a call that
  returned \<^term>\<open>r\<close>. The \<open>do\<close> notation of \<^theory_text>\<open>Monad_Syntax\<close> sequences such calls, so
  that the first fault ends the caller too. A theorem that a call returns is therefore a
  theorem that it does not fault.
\<close>

section \<open>Types\<close>

type_synonym byte = "8 word"
type_synonym u16 = "16 word"
type_synonym iid_t = "32 word"
type_synonym ballot_t = "32 word"

text \<open>A buffer behind a \<open>char *\<close>: \<^term>\<open>None\<close> is the null pointer.\<close>

type_synonym cbuf = "byte list option"

named_theorems c_access \<open>unfolding of the guarded accesses to arrays and memory\<close>

section \<open>Faults\<close>

definition c_assert :: "bool \<Rightarrow> unit option" where
  "c_assert b = (if b then Some () else None)"

definition array_read :: "'a list \<Rightarrow> nat \<Rightarrow> 'a option" where
  "array_read xs i = (if i < length xs then Some (xs ! i) else None)"

definition array_write :: "'a list \<Rightarrow> nat \<Rightarrow> 'a \<Rightarrow> 'a list option" where
  "array_write xs i v = (if i < length xs then Some (xs[i := v]) else None)"

text \<open>
  An array indexed by a signed \<open>int\<close>: a negative index is out of range too.
\<close>

definition array_read_int :: "'a list \<Rightarrow> int \<Rightarrow> 'a option" where
  "array_read_int xs i = (if 0 \<le> i then array_read xs (nat i) else None)"

definition array_write_int :: "'a list \<Rightarrow> int \<Rightarrow> 'a \<Rightarrow> 'a list option" where
  "array_write_int xs i v = (if 0 \<le> i then array_write xs (nat i) v else None)"

text \<open>
  The bytes \<open>memcpy(dst, src, n)\<close> reads: none of a null pointer (unless \<open>n\<close> is 0), and
  never more than the buffer holds.
\<close>

definition mem_read :: "cbuf \<Rightarrow> nat \<Rightarrow> byte list option" where
  "mem_read p n = (case p of
     None \<Rightarrow> if n = 0 then Some [] else None
   | Some bs \<Rightarrow> if n \<le> length bs then Some (take n bs) else None)"

text \<open>Reading and writing a part of a buffer of known size.\<close>

definition mem_get :: "byte list \<Rightarrow> nat \<Rightarrow> nat \<Rightarrow> byte list option" where
  "mem_get p off n = (if off + n \<le> length p then Some (take n (drop off p)) else None)"

definition mem_write :: "byte list \<Rightarrow> nat \<Rightarrow> byte list \<Rightarrow> byte list option" where
  "mem_write p off bs =
    (if off + length bs \<le> length p then Some (take off p @ bs @ drop (off + length bs) p) else None)"

text \<open>An \<open>int\<close> passed as a \<open>size_t\<close>.\<close>

definition size_of_int :: "int \<Rightarrow> nat" where
  "size_of_int i = nat (i mod 2 ^ 64)"

declare c_assert_def [c_access] array_read_def [c_access] array_write_def [c_access]
  array_read_int_def [c_access] array_write_int_def [c_access] mem_read_def [c_access]

lemma c_assert_True [simp]: "c_assert True = Some ()"
  by (simp add: c_assert_def)

lemma c_assert_Some [simp]: "c_assert b = Some u \<longleftrightarrow> b"
  by (simp add: c_assert_def)

lemma mem_read_exact [simp]: "mem_read (Some bs) (length bs) = Some bs"
  by (simp add: mem_read_def)

lemma mem_read_0 [simp]: "mem_read p 0 = Some []"
  by (simp add: mem_read_def split: option.split)

lemma mem_read_length: "mem_read p n = Some bs \<Longrightarrow> length bs = n"
  by (auto simp: mem_read_def split: option.splits if_splits)

lemma size_of_int_nat: "0 \<le> i \<Longrightarrow> i < 2 ^ 64 \<Longrightarrow> size_of_int i = nat i"
  by (simp add: size_of_int_def)

lemma mem_get_prefix:
  assumes "take n p = bs" "off + k \<le> length bs"
  shows "mem_get p off k = Some (take k (drop off bs))"
proof -
  have "length bs \<le> n" "length bs \<le> length p" using assms(1) by auto
  moreover have "take k (drop off p) = take k (drop off bs)"
    using assms(2) unfolding assms(1) [symmetric] by (simp add: drop_take min_absorb1 le_diff_conv2)
  ultimately show ?thesis using assms(2) by (simp add: mem_get_def)
qed

text \<open>The decimal digits of a number.\<close>

fun decimal :: "nat \<Rightarrow> string" where
  "decimal n = (if n < 10 then [char_of (48 + n)] else decimal (n div 10) @ [char_of (48 + n mod 10)])"

declare decimal.simps [simp del]

text \<open>A buffer that is written from front to back: the bytes written so far are its prefix.\<close>

lemma mem_write_next:
  assumes "take n p = pre" "n + length bs = m" "m \<le> length p"
  obtains p' where "mem_write p n bs = Some p'" "take m p' = pre @ bs" "length p' = length p"
proof
  show "mem_write p n bs = Some (take n p @ bs @ drop m p)" using assms(2,3) by (simp add: mem_write_def)
  show "take m (take n p @ bs @ drop m p) = pre @ bs"
    using assms(2,3) by (simp add: assms(1) [symmetric] min_absorb1)
  show "length (take n p @ bs @ drop m p) = length p" using assms(2,3) by simp
qed

section \<open>Refinement\<close>

text \<open>
  A call that returns a new state and a result refines an abstract operation: it does not
  fault, keeps the invariant, and its result and the abstraction of its new state are those of
  the abstract operation.
\<close>

definition refines :: "('a \<Rightarrow> 'b) \<Rightarrow> ('a \<Rightarrow> bool) \<Rightarrow> ('a \<times> 'r) option \<Rightarrow> 'b \<times> 'r \<Rightarrow> bool" where
  "refines absf P res spec \<longleftrightarrow> (\<exists>a r. res = Some (a, r) \<and> P a \<and> (absf a, r) = spec)"

lemma refinesI: "res = Some (a, r) \<Longrightarrow> P a \<Longrightarrow> absf a = s \<Longrightarrow> refines absf P res (s, r)"
  by (simp add: refines_def)

lemma refinesE:
  assumes "refines absf P res (s, r)"
  obtains a where "res = Some (a, r)" "P a" "absf a = s"
  using assms by (auto simp: refines_def)

lemma refines_obtain:
  assumes "refines absf P res spec"
  obtains a where "res = Some (a, snd spec)" "P a" "absf a = fst spec"
  using assms by (cases spec) (auto simp: refines_def)

section \<open>Generic lemmas\<close>

lemma card_filter_less_eq_length:
  "card {i. i < n \<and> P i} = length (filter P [0..<n])"
proof -
  have "{i. i < n \<and> P i} = set (filter P [0..<n])" by auto
  moreover have "distinct (filter P [0..<n])" by simp
  ultimately show ?thesis by (metis distinct_card)
qed

lemma finite_less_Collect [simp]: "finite {i::nat. i < n \<and> P i}"
  by (rule finite_subset [of _ "{..<n}"]) auto

lemma inj_on_fun_upd_notin: "inj_on f (A - {x}) \<Longrightarrow> y \<notin> f ` (A - {x}) \<Longrightarrow> inj_on (f(x := y)) A"
  by (auto simp: inj_on_def)

lemma card_less_inhabited: "finite A \<Longrightarrow> B \<subseteq> A \<Longrightarrow> card B < card A \<Longrightarrow> \<exists>x. x \<in> A \<and> x \<notin> B"
  by (metis card_mono finite_subset leD subsetI)

lemma map_of_filter_map_eq_Some:
  assumes "inj_on f {x \<in> set xs. P x}"
  shows "map_of (map (\<lambda>x. (f x, g x)) (filter P xs)) k = Some v \<longleftrightarrow>
    (\<exists>x \<in> set xs. P x \<and> f x = k \<and> g x = v)"
  using assms
proof (induction xs)
  case Nil
  then show ?case by simp
next
  case (Cons a xs)
  have "inj_on f {x \<in> set xs. P x}"
    using Cons.prems by (rule inj_on_subset) auto
  then show ?case
    using Cons.IH Cons.prems by (auto simp: inj_on_def)
qed

lemma unat_ucast_16_32 [simp]: "unat (ucast (a :: u16) :: 32 word) = unat a"
proof -
  have "unat a < 2 ^ 16" using unsigned_less [of a] by simp
  then have "unat a mod 2 ^ 32 = unat a" by simp
  then show ?thesis by (simp add: unsigned_ucast_eq take_bit_eq_mod)
qed

lemma ucast_16_32_less_iff [simp]:
  "(ucast (a :: u16) :: 32 word) < ucast (b :: u16) \<longleftrightarrow> a < b"
  by (simp add: word_less_nat_alt)

lemma ucast_16_32_le_iff [simp]:
  "(ucast (a :: u16) :: 32 word) \<le> ucast (b :: u16) \<longleftrightarrow> a \<le> b"
  by (simp add: word_le_nat_alt)

lemma ucast_16_32_eq_iff [simp]:
  "(ucast (a :: u16) :: 32 word) = ucast (b :: u16) \<longleftrightarrow> a = b"
  by (simp add: word_unat_eq_iff)

lemma ucast_32_16_ucast [simp]: "ucast (ucast (a :: u16) :: 32 word) = a"
  by (rule ucast_up_ucast_id) (simp add: is_up)

lemma word_less_plus_1:
  fixes x :: "'a::len word"
  assumes "x \<noteq> - 1"
  shows "x < x + 1"
proof -
  have "1 + x \<noteq> 0" using assms by (metis add.commute eq_neg_iff_add_eq_0)
  then have "unat (1 + x) = Suc (unat x)" by (rule unatSuc)
  then show ?thesis by (simp add: word_less_nat_alt add.commute)
qed

end
