(* ===== verification/Paxos_Types.thy ===== *)
theory Paxos_Types
  imports Paxos_Prelude
begin

text \<open>
  The messages of the protocol (\<open>paxos/include/paxos_types.h\<close>), the configuration record
  (\<open>paxos/include/paxos.h\<close>) and the helpers of \<open>paxos/paxos.c\<close>. The five packed structs for
  prepare, promise, accept, accepted and preempted have the same five fields with the same
  widths, and the code copies one onto another by \<open>memcpy\<close>; they are one record here, with a
  type synonym for each. The field \<open>value\<close> of the structs is \<open>pvalue\<close>.
\<close>

section \<open>Values and messages\<close>

record paxos_value =
  paxos_value_len :: int
  paxos_value_val :: cbuf

record paxos_record =
  iid :: iid_t
  ballot :: u16
  value_ballot :: u16
  aid :: u16
  pvalue :: paxos_value

type_synonym paxos_prepare = paxos_record
type_synonym paxos_promise = paxos_record
type_synonym paxos_accept = paxos_record
type_synonym paxos_accepted = paxos_record
type_synonym paxos_preempted = paxos_record

record paxos_repeat =
  repeat_from :: iid_t
  repeat_to :: iid_t

record paxos_trim =
  trim_iid :: iid_t

record paxos_acceptor_state =
  state_aid :: "32 word"
  state_trim_iid :: iid_t

record paxos_client_value =
  client_value :: paxos_value

datatype paxos_message =
    PAXOS_PREPARE paxos_prepare
  | PAXOS_PROMISE paxos_promise
  | PAXOS_ACCEPT paxos_accept
  | PAXOS_ACCEPTED paxos_accepted
  | PAXOS_PREEMPTED paxos_preempted
  | PAXOS_REPEAT paxos_repeat
  | PAXOS_TRIM paxos_trim
  | PAXOS_ACCEPTOR_STATE paxos_acceptor_state
  | PAXOS_CLIENT_VALUE paxos_client_value

text \<open>The numbers of the constructors of \<open>paxos_message_type\<close>.\<close>

fun message_type :: "paxos_message \<Rightarrow> u16" where
  "message_type (PAXOS_PREPARE _) = 0"
| "message_type (PAXOS_PROMISE _) = 1"
| "message_type (PAXOS_ACCEPT _) = 2"
| "message_type (PAXOS_ACCEPTED _) = 3"
| "message_type (PAXOS_PREEMPTED _) = 4"
| "message_type (PAXOS_REPEAT _) = 5"
| "message_type (PAXOS_TRIM _) = 6"
| "message_type (PAXOS_ACCEPTOR_STATE _) = 7"
| "message_type (PAXOS_CLIENT_VALUE _) = 8"

text \<open>The zeroed structs that \<open>memset\<close> and partial initialisers give.\<close>

definition no_value :: paxos_value where
  "no_value = \<lparr>paxos_value_len = 0, paxos_value_val = None\<rparr>"

definition zero_record :: paxos_record where
  "zero_record = \<lparr>iid = 0, ballot = 0, value_ballot = 0, aid = 0, pvalue = no_value\<rparr>"

section \<open>Configuration\<close>

datatype paxos_log_level = PAXOS_LOG_QUIET | PAXOS_LOG_ERROR | PAXOS_LOG_INFO | PAXOS_LOG_DEBUG

datatype paxos_storage_backend = PAXOS_MEM_STORAGE | PAXOS_LMDB_STORAGE

record paxos_config =
  verbosity :: paxos_log_level
  tcp_nodelay :: int
  netpaxos :: int
  learner_catch_up :: int
  proposer_timeout :: int
  proposer_preexec_window :: int
  storage_backend :: paxos_storage_backend
  trash_files :: int
  lmdb_sync :: int
  lmdb_env_path :: string
  lmdb_mapsize :: nat

definition default_config :: paxos_config where
  "default_config =
    \<lparr>verbosity = PAXOS_LOG_INFO, tcp_nodelay = 1, netpaxos = 0, learner_catch_up = 1,
     proposer_timeout = 1, proposer_preexec_window = 128, storage_backend = PAXOS_MEM_STORAGE,
     trash_files = 0, lmdb_sync = 0, lmdb_env_path = ''/tmp/acceptor'',
     lmdb_mapsize = 10 * 1024 * 1024\<rparr>"

definition MAX_N_OF_PROPOSERS :: nat where
  "MAX_N_OF_PROPOSERS = 10"

section \<open>The helpers of paxos.c\<close>

text \<open>C division truncates towards zero.\<close>

definition paxos_quorum :: "int \<Rightarrow> int" where
  "paxos_quorum acceptors = acceptors sdiv 2 + 1"

text \<open>
  The \<open>size_t\<close> argument is stored in an \<open>int\<close>, so it is reduced to 32 bits and read as signed;
  \<open>memcpy\<close> reads the unreduced number of bytes.
\<close>

definition paxos_value_new :: "cbuf \<Rightarrow> nat \<Rightarrow> paxos_value option" where
  "paxos_value_new v n = do {
     bs \<leftarrow> mem_read v n;
     Some \<lparr>paxos_value_len = signed_take_bit 31 (int n), paxos_value_val = Some bs\<rparr>
   }"

text \<open>A message's value is released when its length is positive; the pointer is cleared then.\<close>

definition paxos_value_destroy :: "paxos_value \<Rightarrow> paxos_value" where
  "paxos_value_destroy v = (if paxos_value_len v > 0 then v\<lparr>paxos_value_val := None\<rparr> else v)"

definition paxos_record_destroy :: "paxos_record \<Rightarrow> paxos_record" where
  "paxos_record_destroy r = r\<lparr>pvalue := paxos_value_destroy (pvalue r)\<rparr>"

fun paxos_message_destroy :: "paxos_message \<Rightarrow> paxos_message" where
  "paxos_message_destroy (PAXOS_PROMISE p) = PAXOS_PROMISE (paxos_record_destroy p)"
| "paxos_message_destroy (PAXOS_ACCEPT p) = PAXOS_ACCEPT (paxos_record_destroy p)"
| "paxos_message_destroy (PAXOS_ACCEPTED p) = PAXOS_ACCEPTED (paxos_record_destroy p)"
| "paxos_message_destroy (PAXOS_CLIENT_VALUE c) =
     PAXOS_CLIENT_VALUE (c\<lparr>client_value := paxos_value_destroy (client_value c)\<rparr>)"
| "paxos_message_destroy m = m"

section \<open>Well-formed values\<close>

text \<open>
  The length field is what the buffer holds: a null pointer goes with length 0, and the length
  is below the largest \<open>int\<close>.
\<close>

definition buf_len :: "cbuf \<Rightarrow> nat" where
  "buf_len p = (case p of None \<Rightarrow> 0 | Some bs \<Rightarrow> length bs)"

definition value_wf :: "paxos_value \<Rightarrow> bool" where
  "value_wf v \<longleftrightarrow> 0 \<le> paxos_value_len v \<and> nat (paxos_value_len v) = buf_len (paxos_value_val v) \<and>
     paxos_value_len v < 2 ^ 31"

definition value_bytes :: "paxos_value \<Rightarrow> byte list" where
  "value_bytes v = (case paxos_value_val v of None \<Rightarrow> [] | Some bs \<Rightarrow> bs)"

definition value_of_bytes :: "byte list \<Rightarrow> paxos_value" where
  "value_of_bytes bs = \<lparr>paxos_value_len = int (length bs), paxos_value_val = Some bs\<rparr>"

lemma value_wf_no_value [simp]: "value_wf no_value"
  by (simp add: value_wf_def no_value_def buf_len_def)

lemma value_wf_of_bytes: "length bs < 2 ^ 31 \<Longrightarrow> value_wf (value_of_bytes bs)"
  by (simp add: value_wf_def value_of_bytes_def buf_len_def)

lemma value_wf_len: "value_wf v \<Longrightarrow> paxos_value_len v = int (length (value_bytes v))"
  by (auto simp: value_wf_def value_bytes_def buf_len_def split: option.splits)

lemma value_wf_pos: "value_wf v \<Longrightarrow> 0 < paxos_value_len v \<longleftrightarrow> value_bytes v \<noteq> []"
  by (simp add: value_wf_len)

lemma value_wf_read:
  "value_wf v \<Longrightarrow> mem_read (paxos_value_val v) (nat (paxos_value_len v)) = Some (value_bytes v)"
  by (auto simp: value_wf_def value_bytes_def buf_len_def mem_read_def split: option.splits)

lemma signed_take_bit_31: "n < 2 ^ 31 \<Longrightarrow> signed_take_bit 31 (int n) = int n"
  by (rule signed_take_bit_int_eq_self) simp_all

lemma paxos_value_new_wf:
  assumes "value_wf v"
  shows "paxos_value_new (paxos_value_val v) (nat (paxos_value_len v)) =
     Some (value_of_bytes (value_bytes v))"
proof -
  have "length (value_bytes v) < 2 ^ 31"
    using assms unfolding value_wf_def by (simp add: value_wf_len [OF assms])
  then show ?thesis
    using value_wf_read [OF assms]
    by (simp add: paxos_value_new_def value_of_bytes_def value_wf_len [OF assms] signed_take_bit_31
      del: signed_take_bit_int_eq_self_iff)
qed

section \<open>Majorities\<close>

lemma paxos_quorum_nat: "paxos_quorum (int n) = int (n div 2 + 1)"
  by (cases n) (simp_all add: paxos_quorum_def signed_divide_int_def zdiv_int)

lemma majorities_meet:
  assumes "finite A" "Q \<subseteq> A" "R \<subseteq> A"
    and "paxos_quorum (int (card A)) \<le> int (card Q)" "paxos_quorum (int (card A)) \<le> int (card R)"
  shows "\<exists>a. a \<in> Q \<and> a \<in> R"
proof (rule ccontr)
  assume "\<not> (\<exists>a. a \<in> Q \<and> a \<in> R)"
  then have "Q \<inter> R = {}" by blast
  then have "card Q + card R = card (Q \<union> R)"
    using assms(1-3) by (simp add: card_Un_disjoint finite_subset)
  also have "\<dots> \<le> card A" using assms(1-3) by (intro card_mono) auto
  finally show False using assms(4,5) by (simp add: paxos_quorum_nat)
qed

end
