(* ===== verification/Storage.thy ===== *)
theory Storage
  imports Paxos_Types
begin

text \<open>
  The storage interface of the acceptor (\<open>paxos/include/storage.h\<close>, \<open>paxos/storage.c\<close>): a
  handle and a table of function pointers. The handle's type is the parameter \<open>'s\<close>; a function
  of the table returns the handle as it leaves it. \<open>get\<close> takes the caller's record and returns
  it overwritten or unchanged. The locale \<open>storage_contract\<close> is the contract the acceptor needs
  from a backend.
\<close>

section \<open>The table of operations\<close>

record 's storage_api =
  api_open :: "'s \<Rightarrow> (int \<times> 's) option"
  api_close :: "'s \<Rightarrow> unit option"
  api_tx_begin :: "'s \<Rightarrow> (int \<times> 's) option"
  api_tx_commit :: "'s \<Rightarrow> (int \<times> 's) option"
  api_tx_abort :: "'s \<Rightarrow> 's option"
  api_get :: "'s \<Rightarrow> iid_t \<Rightarrow> paxos_accepted \<Rightarrow> (int \<times> paxos_accepted \<times> 's) option"
  api_put :: "'s \<Rightarrow> paxos_accepted \<Rightarrow> (int \<times> 's) option"
  api_trim :: "'s \<Rightarrow> iid_t \<Rightarrow> (int \<times> 's) option"
  api_get_trim_instance :: "'s \<Rightarrow> (iid_t \<times> 's) option"

record 's storage =
  handle :: 's
  api :: "'s storage_api"

definition storage_ret :: "'s storage \<Rightarrow> ('r \<times> 's) option \<Rightarrow> ('r \<times> 's storage) option" where
  "storage_ret store res = map_option (\<lambda>(r, h). (r, store\<lparr>handle := h\<rparr>)) res"

definition storage_open :: "'s storage \<Rightarrow> (int \<times> 's storage) option" where
  "storage_open store = storage_ret store (api_open (api store) (handle store))"

definition storage_close :: "'s storage \<Rightarrow> unit option" where
  "storage_close store = api_close (api store) (handle store)"

definition storage_tx_begin :: "'s storage \<Rightarrow> (int \<times> 's storage) option" where
  "storage_tx_begin store = storage_ret store (api_tx_begin (api store) (handle store))"

definition storage_tx_commit :: "'s storage \<Rightarrow> (int \<times> 's storage) option" where
  "storage_tx_commit store = storage_ret store (api_tx_commit (api store) (handle store))"

definition storage_tx_abort :: "'s storage \<Rightarrow> 's storage option" where
  "storage_tx_abort store =
    map_option (\<lambda>h. store\<lparr>handle := h\<rparr>) (api_tx_abort (api store) (handle store))"

definition storage_get_record ::
  "'s storage \<Rightarrow> iid_t \<Rightarrow> paxos_accepted \<Rightarrow> (int \<times> paxos_accepted \<times> 's storage) option" where
  "storage_get_record store i out =
    map_option (\<lambda>(r, acc, h). (r, acc, store\<lparr>handle := h\<rparr>)) (api_get (api store) (handle store) i out)"

definition storage_put_record :: "'s storage \<Rightarrow> paxos_accepted \<Rightarrow> (int \<times> 's storage) option" where
  "storage_put_record store acc = storage_ret store (api_put (api store) (handle store) acc)"

definition storage_trim :: "'s storage \<Rightarrow> iid_t \<Rightarrow> (int \<times> 's storage) option" where
  "storage_trim store i = storage_ret store (api_trim (api store) (handle store) i)"

definition storage_get_trim_instance :: "'s storage \<Rightarrow> (iid_t \<times> 's storage) option" where
  "storage_get_trim_instance store =
    storage_ret store (api_get_trim_instance (api store) (handle store))"

lemmas storage_dispatch = storage_ret_def storage_open_def storage_tx_begin_def storage_tx_commit_def
  storage_tx_abort_def storage_get_record_def storage_put_record_def storage_trim_def
  storage_get_trim_instance_def

section \<open>The contract of a backend\<close>

text \<open>The copy that the acceptor makes of a value before it stores it.\<close>

definition value_copy :: "paxos_value \<Rightarrow> paxos_value" where
  "value_copy v = (if paxos_value_len v > 0 then v else v\<lparr>paxos_value_val := None\<rparr>)"

lemma value_copy_wf: "value_wf v \<Longrightarrow> value_wf (value_copy v)"
  by (auto simp: value_copy_def value_wf_def buf_len_def)

lemma value_copy_pos [simp]: "0 < paxos_value_len v \<Longrightarrow> value_copy v = v"
  by (simp add: value_copy_def)

text \<open>
  A store satisfies \<open>invar\<close> between two transactions and \<open>inside\<close> within one. \<open>recs\<close> is the map from
  instances to the stored records and \<open>trimmed\<close> the stored trim instance. Not every instance has to be
  a \<open>key\<close>, but the positive ones are, and a value is \<open>storable\<close> when it is a copy of a well-formed one.
  \<open>room\<close> says that one more record fits, and \<open>trims\<close> that a trim instance does.
\<close>

locale storage_contract =
  fixes ops :: "'s storage_api"
    and invar :: "'s \<Rightarrow> bool"
    and inside :: "'s \<Rightarrow> bool"
    and room :: "'s \<Rightarrow> bool"
    and trims :: "'s \<Rightarrow> bool"
    and key :: "iid_t \<Rightarrow> bool"
    and storable :: "paxos_value \<Rightarrow> bool"
    and recs :: "'s \<Rightarrow> iid_t \<Rightarrow> paxos_accepted option"
    and trimmed :: "'s \<Rightarrow> iid_t"
  assumes key_pos: "0 < i \<Longrightarrow> key i"
    and storable_no_value: "storable no_value"
    and storable_copy: "value_wf v \<Longrightarrow> storable (value_copy v)"
    and tx_begin: "invar s \<Longrightarrow> \<exists>s'. api_tx_begin ops s = Some (0, s') \<and> inside s' \<and>
      recs s' = recs s \<and> trimmed s' = trimmed s \<and> (room s \<longrightarrow> room s') \<and> (trims s \<longrightarrow> trims s')"
    and tx_commit: "inside s \<Longrightarrow> \<exists>s'. api_tx_commit ops s = Some (0, s') \<and> invar s' \<and>
      recs s' = recs s \<and> trimmed s' = trimmed s"
    and get_absent: "inside s \<Longrightarrow> key i \<Longrightarrow> recs s i = None \<Longrightarrow> api_get ops s i out = Some (0, out, s)"
    and get_present: "inside s \<Longrightarrow> recs s i = Some r \<Longrightarrow> api_get ops s i out = Some (1, r, s)"
    and recs_wf: "invar s \<Longrightarrow> recs s i = Some r \<Longrightarrow> iid r = i \<and> storable (pvalue r)"
    and put_record: "inside s \<Longrightarrow> room s \<Longrightarrow> storable (pvalue r) \<Longrightarrow> key (iid r) \<Longrightarrow>
      \<exists>s'. api_put ops s r = Some (0, s') \<and> inside s' \<and> recs s' = (recs s)(iid r \<mapsto> r) \<and>
        trimmed s' = trimmed s"
    and trim_records: "inside s \<Longrightarrow> trims s \<Longrightarrow> 0 < i \<Longrightarrow> \<exists>s' rv. api_trim ops s i = Some (rv, s') \<and> inside s' \<and>
      recs s' = recs s |` {k. i < k} \<and> trimmed s' = i"
    and trim_instance: "inside s \<Longrightarrow> api_get_trim_instance ops s = Some (trimmed s, s)"

end
