(* ===== verification/Khash_Probe.thy ===== *)
theory Khash_Probe
  imports Paxos_Prelude
begin

unbundle bit_operations_syntax

text \<open>
  The arithmetic under \<open>src/paxos/include/khash.h\<close>: the two flag bits of each bucket packed
  sixteen to a 32-bit word, the rounding of a bucket count to a power of two, and the
  quadratic probe sequence. The last section shows that over a power of two the probe
  sequence visits every bucket, which is why the unbounded probe loops of the hash table
  end.
\<close>

section \<open>Flag bits\<close>

text \<open>
  The accesses to the flag words are those of HOL lists, without a bounds check: the invariant
  \<open>kh_inv\<close> of a table says that it has a flag word for every bucket, and the operations access
  buckets below \<open>n_buckets\<close> only.
\<close>

definition ac_isempty :: "32 word list \<Rightarrow> nat \<Rightarrow> bool" where
  "ac_isempty flag i \<longleftrightarrow> drop_bit (2 * (i mod 16)) (flag ! (i div 16)) AND 2 \<noteq> 0"

definition ac_isdel :: "32 word list \<Rightarrow> nat \<Rightarrow> bool" where
  "ac_isdel flag i \<longleftrightarrow> drop_bit (2 * (i mod 16)) (flag ! (i div 16)) AND 1 \<noteq> 0"

definition ac_iseither :: "32 word list \<Rightarrow> nat \<Rightarrow> bool" where
  "ac_iseither flag i \<longleftrightarrow> drop_bit (2 * (i mod 16)) (flag ! (i div 16)) AND 3 \<noteq> 0"

definition ac_set_isempty_false :: "32 word list \<Rightarrow> nat \<Rightarrow> 32 word list" where
  "ac_set_isempty_false flag i =
     flag[i div 16 := flag ! (i div 16) AND NOT (push_bit (2 * (i mod 16)) 2)]"

definition ac_set_isboth_false :: "32 word list \<Rightarrow> nat \<Rightarrow> 32 word list" where
  "ac_set_isboth_false flag i =
     flag[i div 16 := flag ! (i div 16) AND NOT (push_bit (2 * (i mod 16)) 3)]"

definition ac_set_isdel_true :: "32 word list \<Rightarrow> nat \<Rightarrow> 32 word list" where
  "ac_set_isdel_true flag i =
     flag[i div 16 := flag ! (i div 16) OR push_bit (2 * (i mod 16)) 1]"

definition ac_fsize :: "nat \<Rightarrow> nat" where
  "ac_fsize m = (if m < 16 then 1 else m div 16)"

text \<open>A fresh flag array: every byte is \<open>0xaa\<close>, so every bucket is empty and not deleted.\<close>

definition ac_fresh :: "nat \<Rightarrow> 32 word list" where
  "ac_fresh m = replicate (ac_fsize m) 0xaaaaaaaa"

lemma and_1_iff_bit: "(w :: 32 word) AND 1 \<noteq> 0 \<longleftrightarrow> bit w 0"
  by (simp add: and_one_eq mod2_eq_if bit_0)

lemma and_2_iff_bit: "(w :: 32 word) AND 2 \<noteq> 0 \<longleftrightarrow> bit w 1"
  using and_exp_eq_0_iff_not_bit [of w 1] by simp

lemma ac_isdel_bit: "ac_isdel flag i = bit (flag ! (i div 16)) (2 * (i mod 16))"
  by (simp add: ac_isdel_def and_1_iff_bit bit_drop_bit_eq del: bit_0)

lemma ac_isempty_bit: "ac_isempty flag i = bit (flag ! (i div 16)) (2 * (i mod 16) + 1)"
  by (simp add: ac_isempty_def and_2_iff_bit bit_drop_bit_eq)

lemma ac_iseither_iff: "ac_iseither flag i \<longleftrightarrow> ac_isempty flag i \<or> ac_isdel flag i"
proof -
  have "w AND 3 = (w AND 2) OR (w AND 1)" for w :: "32 word"
  proof -
    have "(3 :: 32 word) = 2 OR 1" by simp
    then show ?thesis by (metis and.left_commute bit.conj_disj_distrib)
  qed
  then show ?thesis
    by (simp add: ac_iseither_def ac_isempty_def ac_isdel_def or_eq_0_iff)
qed

lemma bit_push_1: "bit (2 ^ m :: 32 word) n \<longleftrightarrow> n < 32 \<and> n = m"
  by (auto simp: bit_simps)

lemma bit_push_2: "bit (push_bit m (2 :: 32 word)) n \<longleftrightarrow> n < 32 \<and> n = Suc m"
proof -
  have "(2 :: 32 word) = 2 ^ 1" by simp
  then show ?thesis by (auto simp: bit_simps simp del: power_one_right)
qed

lemma bit_push_3: "bit (push_bit m (3 :: 32 word)) n \<longleftrightarrow> n < 32 \<and> (n = m \<or> n = Suc m)"
proof -
  have "(3 :: 32 word) = 2 OR 1" by simp
  then have "push_bit m (3 :: 32 word) = push_bit m 2 OR push_bit m 1"
    by (simp only: push_bit_or)
  then show ?thesis by (auto simp: bit_or_iff bit_push_1 bit_push_2)
qed

lemma slot_eq_iff: "i div 16 = j div 16 \<Longrightarrow> i mod 16 = j mod 16 \<longleftrightarrow> i = (j::nat)"
  by (metis div_mult_mod_eq)

lemma slot_eq: "i div 16 = j div 16 \<Longrightarrow> i mod 16 = j mod 16 \<Longrightarrow> i = (j::nat)"
  by (simp add: slot_eq_iff)

lemma slot_bit_less: "2 * (i mod 16) < 32" "Suc (2 * (i mod 16)) < (32::nat)"
  by presburger+

lemma double_neq_Suc_double: "2 * a \<noteq> Suc (2 * b)" "Suc (2 * b) \<noteq> 2 * a"
  by presburger+

lemmas ac_bits = ac_isdel_bit ac_isempty_bit bit_push_1 bit_push_2 bit_push_3 slot_bit_less
  bit_and_iff bit_or_iff bit_not_iff nth_list_update double_neq_Suc_double

lemma flag_set_isempty_false:
  assumes "i div 16 < length flag"
  shows "ac_isempty (ac_set_isempty_false flag i) j \<longleftrightarrow> j \<noteq> i \<and> ac_isempty flag j"
    and "ac_isdel (ac_set_isempty_false flag i) j = ac_isdel flag j"
  using assms by (auto simp: ac_set_isempty_false_def ac_bits dest: slot_eq)

lemma flag_set_isboth_false:
  assumes "i div 16 < length flag"
  shows "ac_isempty (ac_set_isboth_false flag i) j \<longleftrightarrow> j \<noteq> i \<and> ac_isempty flag j"
    and "ac_isdel (ac_set_isboth_false flag i) j \<longleftrightarrow> j \<noteq> i \<and> ac_isdel flag j"
  using assms by (auto simp: ac_set_isboth_false_def ac_bits dest: slot_eq)

lemma flag_set_isdel_true:
  assumes "i div 16 < length flag"
  shows "ac_isempty (ac_set_isdel_true flag i) j = ac_isempty flag j"
    and "ac_isdel (ac_set_isdel_true flag i) j \<longleftrightarrow> j = i \<or> ac_isdel flag j"
  using assms by (auto simp: ac_set_isdel_true_def ac_bits dest: slot_eq)

lemma length_ac_set [simp]:
  "length (ac_set_isempty_false flag i) = length flag"
  "length (ac_set_isboth_false flag i) = length flag"
  "length (ac_set_isdel_true flag i) = length flag"
  by (simp_all add: ac_set_isempty_false_def ac_set_isboth_false_def ac_set_isdel_true_def)

lemma bit_fresh_word:
  assumes "k < 16"
  shows "bit (0xaaaaaaaa :: 32 word) (Suc (2 * k))" and "\<not> bit (0xaaaaaaaa :: 32 word) (2 * k)"
proof -
  have "\<forall>k \<in> set [0..<16]. bit (0xaaaaaaaa :: 32 word) (Suc (2 * k)) \<and>
      \<not> bit (0xaaaaaaaa :: 32 word) (2 * k)"
    by code_simp
  then show "bit (0xaaaaaaaa :: 32 word) (Suc (2 * k))" and "\<not> bit (0xaaaaaaaa :: 32 word) (2 * k)"
    using assms by auto
qed

lemma ac_fsize_less: "i < m \<Longrightarrow> 16 dvd m \<or> m < 16 \<Longrightarrow> i div 16 < ac_fsize m"
  by (auto simp: ac_fsize_def dvd_def)

lemma flag_fresh:
  assumes "i div 16 < ac_fsize m"
  shows "ac_isempty (ac_fresh m) i" and "\<not> ac_isdel (ac_fresh m) i"
  using assms bit_fresh_word [of "i mod 16"]
  by (simp_all only: ac_fresh_def ac_isempty_bit ac_isdel_bit nth_replicate Suc_eq_plus1) auto

section \<open>Rounding to a power of two\<close>

definition kroundup32 :: "32 word \<Rightarrow> 32 word" where
  "kroundup32 x =
    (let x = x - 1;
         x = x OR drop_bit 1 x;
         x = x OR drop_bit 2 x;
         x = x OR drop_bit 4 x;
         x = x OR drop_bit 8 x;
         x = x OR drop_bit 16 x
     in x + 1)"

text \<open>
  Each line doubles the run of ones under the highest bit, so five of them fill a 32-bit
  word: the result is the power of two above the highest bit of \<open>x - 1\<close>.
\<close>

lemma smear_step:
  assumes "\<And>n. bit y n \<longleftrightarrow> (\<exists>j \<in> {n..<n + m}. bit x j)"
  shows "bit (y OR drop_bit m y) n \<longleftrightarrow> (\<exists>j \<in> {n..<n + 2 * m}. bit (x :: 32 word) j)"
proof -
  have "{n..<n + 2 * m} = {n..<n + m} \<union> {m + n..<m + n + m}" by auto
  then show ?thesis by (auto simp: bit_or_iff bit_drop_bit_eq assms)
qed

lemma smear_all:
  "bit (kroundup32 x - 1) n \<longleftrightarrow> (\<exists>j \<in> {n..<n + 32}. bit (x - 1) j)"
proof -
  define y0 where "y0 = x - 1"
  define y1 where "y1 = y0 OR drop_bit 1 y0"
  define y2 where "y2 = y1 OR drop_bit 2 y1"
  define y3 where "y3 = y2 OR drop_bit 4 y2"
  define y4 where "y4 = y3 OR drop_bit 8 y3"
  define y5 where "y5 = y4 OR drop_bit 16 y4"
  have 0: "bit y0 n \<longleftrightarrow> (\<exists>j \<in> {n..<n + 1}. bit y0 j)" for n by auto
  have 1: "bit y1 n \<longleftrightarrow> (\<exists>j \<in> {n..<n + 2}. bit y0 j)" for n
    unfolding y1_def by (subst smear_step [OF 0]) simp
  have 2: "bit y2 n \<longleftrightarrow> (\<exists>j \<in> {n..<n + 4}. bit y0 j)" for n
    unfolding y2_def by (subst smear_step [OF 1]) simp
  have 3: "bit y3 n \<longleftrightarrow> (\<exists>j \<in> {n..<n + 8}. bit y0 j)" for n
    unfolding y3_def by (subst smear_step [OF 2]) simp
  have 4: "bit y4 n \<longleftrightarrow> (\<exists>j \<in> {n..<n + 16}. bit y0 j)" for n
    unfolding y4_def by (subst smear_step [OF 3]) simp
  have 5: "bit y5 n \<longleftrightarrow> (\<exists>j \<in> {n..<n + 32}. bit y0 j)" for n
    unfolding y5_def by (subst smear_step [OF 4]) simp
  have "kroundup32 x - 1 = y5"
    by (simp add: kroundup32_def Let_def y5_def y4_def y3_def y2_def y1_def y0_def)
  with 5 show ?thesis by (simp add: y0_def)
qed

lemma kroundup32_top_bit:
  assumes "bit (x - 1) k" and "\<And>j. k < j \<Longrightarrow> \<not> bit (x - 1) j"
  shows "kroundup32 x = 2 ^ Suc k"
proof -
  have k: "k < 32" using assms(1) bit_imp_le_length by fastforce
  have "kroundup32 x - 1 = mask (Suc k)"
  proof (rule bit_word_eqI)
    fix n assume "n < LENGTH(32)"
    then have "(\<exists>j \<in> {n..<n + 32}. bit (x - 1) j) \<longleftrightarrow> n \<le> k"
      using assms k by (auto simp: not_less [symmetric])
    then show "bit (kroundup32 x - 1) n \<longleftrightarrow> bit (mask (Suc k) :: 32 word) n"
      using k by (auto simp: smear_all bit_mask_iff simp del: mask_Suc_exp)
  qed
  then show ?thesis by (simp add: mask_eq_exp_minus_1 algebra_simps)
qed

text \<open>The two ways \<open>kh_put\<close> calls it: to keep the size, and to double it.\<close>

lemma unat_pow2_32: "k \<le> 31 \<Longrightarrow> unat (2 ^ k :: 32 word) = 2 ^ k"
proof -
  assume "k \<le> 31"
  then have "(2 :: nat) ^ k \<le> 2 ^ 31" by (simp only: power_increasing)
  then have "(2 :: nat) ^ k mod 2 ^ 32 = 2 ^ k" by simp
  then show ?thesis using unat_of_nat [of "2 ^ k", where 'a = 32] by simp
qed

lemma kroundup32_pred:
  assumes "2 \<le> k" "k \<le> 31"
  shows "unat (kroundup32 (of_nat (2 ^ k - 1))) = 2 ^ k"
proof -
  obtain m where k: "k = Suc m" and m: "1 \<le> m" using assms(1) by (cases k) auto
  have x: "(of_nat (2 ^ k - 1) :: 32 word) = 2 ^ k - 1" by simp
  have eq: "(2 :: 32 word) ^ k - 1 - 1 = push_bit 1 (mask m)"
    by (simp add: k mask_eq_exp_minus_1 push_bit_eq_mult algebra_simps)
  have "kroundup32 (2 ^ k - 1) = 2 ^ Suc m"
    by (rule kroundup32_top_bit; unfold eq bit_push_bit_iff)
      (use m assms k in \<open>auto simp: bit_mask_iff\<close>)
  then show ?thesis using assms by (simp add: x k [symmetric] unat_pow2_32 del: power_Suc)
qed

lemma kroundup32_Suc:
  assumes "k \<le> 30"
  shows "unat (kroundup32 (of_nat (2 ^ k + 1))) = 2 ^ Suc k"
proof -
  have x: "(of_nat (2 ^ k + 1) :: 32 word) = 2 ^ k + 1" by simp
  have eq: "(2 :: 32 word) ^ k + 1 - 1 = 2 ^ k" by simp
  have "kroundup32 (2 ^ k + 1) = 2 ^ Suc k"
    by (rule kroundup32_top_bit; unfold eq) (use assms in \<open>auto simp: bit_simps\<close>)
  then show ?thesis using assms unat_pow2_32 [of "Suc k"] by (simp only: x)
qed

lemma kroundup32_1: "unat (kroundup32 1) = 1"
  by (simp add: kroundup32_def)

section \<open>The probe sequence\<close>

text \<open>
  The bucket reached after \<open>s\<close> steps from the hash \<open>h\<close>: step \<open>s\<close> adds \<open>s\<close>.
\<close>

definition probe_at :: "nat \<Rightarrow> nat \<Rightarrow> nat \<Rightarrow> nat" where
  "probe_at n h s = (h + s * (s + 1) div 2) mod n"

lemma probe_at_0 [simp]: "probe_at n h 0 = h mod n"
  by (simp add: probe_at_def)

lemma probe_at_Suc: "probe_at n h (Suc s) = (probe_at n h s + Suc s) mod n"
proof -
  have "Suc s * (Suc s + 1) div 2 = s * (s + 1) div 2 + Suc s"
    by (simp add: algebra_simps)
  then have "probe_at n h (Suc s) = (h + s * (s + 1) div 2 + Suc s) mod n"
    by (simp only: probe_at_def add.assoc)
  then show ?thesis
    by (simp only: probe_at_def mod_add_left_eq)
qed

lemma probe_at_less: "0 < n \<Longrightarrow> probe_at n h s < n"
  by (simp add: probe_at_def)

lemma triangular_dvd_imp_eq:
  fixes s t k :: nat
  assumes "s < t" "t < 2 ^ k" and "2 ^ k dvd (t * (t + 1) div 2 - s * (s + 1) div 2)"
  shows False
proof -
  define d e where "d = t - s" and "e = t + s + 1"
  have t: "t = s + d" and e: "e = 2 * s + d + 1" using assms(1) by (auto simp: d_def e_def)
  have "2 * (t * (t + 1) div 2 - s * (s + 1) div 2) = t * (t + 1) - s * (s + 1)"
    by (simp add: diff_mult_distrib2)
  also have "\<dots> = d * e" by (simp add: t e algebra_simps)
  finally have "2 * (t * (t + 1) div 2 - s * (s + 1) div 2) = d * e" .
  then have dvd: "2 ^ Suc k dvd d * e" using assms(3) by (metis mult_dvd_mono dvd_refl power_Suc)
  have bounds: "0 < d" "d < 2 ^ k" "0 < e" "e < 2 ^ Suc k"
    using assms by (auto simp: d_def e_def)
  have "odd d \<or> odd e" by (simp add: e)
  then show False
  proof
    assume "odd d"
    then have "coprime (2 ^ Suc k) d" by simp
    with dvd have "2 ^ Suc k dvd e" by (simp add: coprime_dvd_mult_right_iff)
    with bounds show False by (auto dest: dvd_imp_le)
  next
    assume "odd e"
    then have "coprime (2 ^ Suc k) e" by simp
    with dvd have "2 ^ Suc k dvd d" by (simp add: coprime_dvd_mult_left_iff)
    with bounds show False by (auto dest: dvd_imp_le)
  qed
qed

lemma probe_at_inj: "inj_on (probe_at (2 ^ k) h) {..<2 ^ k}"
proof -
  have ne: "probe_at (2 ^ k) h s \<noteq> probe_at (2 ^ k) h t" if "s < t" "t < 2 ^ k" for s t
  proof
    have le: "h + s * (s + 1) div 2 \<le> h + t * (t + 1) div 2"
      using that(1) by (intro add_left_mono div_le_mono mult_le_mono) auto
    assume "probe_at (2 ^ k) h s = probe_at (2 ^ k) h t"
    then have "2 ^ k dvd h + t * (t + 1) div 2 - (h + s * (s + 1) div 2)"
      unfolding probe_at_def using mod_eq_dvd_iff_nat [OF le] by metis
    then have "2 ^ k dvd (t * (t + 1) div 2 - s * (s + 1) div 2)"
      by (simp only: diff_cancel)
    with that show False by (rule triangular_dvd_imp_eq)
  qed
  show ?thesis by (rule inj_onI) (metis lessThan_iff ne nat_neq_iff)
qed

lemma probe_at_surj:
  assumes "x < 2 ^ k"
  obtains s where "s < 2 ^ k" "probe_at (2 ^ k) h s = x"
proof -
  have "probe_at (2 ^ k) h ` {..<2 ^ k} = {..<2 ^ k}"
    by (rule endo_inj_surj) (auto simp: probe_at_less probe_at_inj)
  then show thesis using assms that by (metis imageE lessThan_iff)
qed

lemma probe_first_return: "0 < s \<Longrightarrow> s < 2 ^ k \<Longrightarrow> probe_at (2 ^ k) h s \<noteq> probe_at (2 ^ k) h 0"
  using probe_at_inj [of k h] by (auto dest: inj_onD simp del: probe_at_0)

lemma nat_and_mask: "(x :: nat) AND (2 ^ k - 1) = x mod 2 ^ k"
  by (metis mask_eq_exp_minus_1 take_bit_eq_mask take_bit_eq_mod)

end
