(* ===== verification/Khash.thy ===== *)
theory Khash
  imports Khash_Probe
begin

unbundle bit_operations_syntax

text \<open>
  The hash table of \<open>src/paxos/include/khash.h\<close> in the instance the program uses,
  \<open>KHASH_MAP_INIT_INT\<close>: keys are 32-bit instance ids, the hash of a key is the key, and a
  bucket holds a key and a value. The table is the C structure, field by field; a bucket
  index is a \<^typ>\<open>nat\<close>, and \<open>kh_end\<close> (the bucket count) is the index that means
  \<open>not found\<close>. Memory allocation succeeds.

  A value array entry that no one has written yet is \<^term>\<open>None\<close>. The loops that search for
  a bucket have no bound in the source; they are \<^theory_text>\<open>partial_function\<close>s into
  \<^typ>\<open>nat option\<close>, and the theory proves that they end on a well-formed table. Its main
  results are that the operations implement a finite map (\<open>kh_map\<close>).
\<close>

section \<open>The structure and its operations\<close>

record 'v khash =
  n_buckets :: nat
  kh_size :: nat
  n_occupied :: nat
  upper_bound :: nat
  flags :: "32 word list"
  keys :: "iid_t list"
  vals :: "'v option list"

definition kh_init :: "'v khash" where
  "kh_init = \<lparr>n_buckets = 0, kh_size = 0, n_occupied = 0, upper_bound = 0,
    flags = [], keys = [], vals = []\<rparr>"

text \<open>\<open>(khint_t)(n * __ac_HASH_UPPER + 0.5)\<close>, with \<open>__ac_HASH_UPPER\<close> 0.77.\<close>

definition kh_upper :: "nat \<Rightarrow> nat" where
  "kh_upper n = (77 * n + 50) div 100"

definition kh_end :: "'v khash \<Rightarrow> nat" where
  "kh_end h = n_buckets h"

definition kh_exist :: "'v khash \<Rightarrow> nat \<Rightarrow> bool" where
  "kh_exist h x \<longleftrightarrow> \<not> ac_iseither (flags h) x"

definition kh_value :: "'v khash \<Rightarrow> nat \<Rightarrow> 'v option" where
  "kh_value h x = (if x < length (vals h) then vals h ! x else None)"

definition kh_set_value :: "'v khash \<Rightarrow> nat \<Rightarrow> 'v \<Rightarrow> 'v khash" where
  "kh_set_value h x v = h\<lparr>vals := (vals h)[x := Some v]\<rparr>"

partial_function (option) kh_get_loop ::
  "'v khash \<Rightarrow> iid_t \<Rightarrow> nat \<Rightarrow> nat \<Rightarrow> nat \<Rightarrow> nat \<Rightarrow> nat option" where
  "kh_get_loop h key msk lst i step =
    (if \<not> ac_isempty (flags h) i \<and> (ac_isdel (flags h) i \<or> keys h ! i \<noteq> key)
     then (if (i + Suc step) AND msk = lst then Some (n_buckets h)
           else kh_get_loop h key msk lst ((i + Suc step) AND msk) (Suc step))
     else Some (if ac_iseither (flags h) i then n_buckets h else i))"

definition kh_get :: "'v khash \<Rightarrow> iid_t \<Rightarrow> nat option" where
  "kh_get h key =
    (if n_buckets h \<noteq> 0
     then (let msk = n_buckets h - 1; i = unat key AND msk
           in kh_get_loop h key msk i i 0)
     else Some 0)"

partial_function (option) kh_find_empty ::
  "32 word list \<Rightarrow> nat \<Rightarrow> nat \<Rightarrow> nat \<Rightarrow> nat option" where
  "kh_find_empty new_flags msk i step =
    (if ac_isempty new_flags i then Some i
     else kh_find_empty new_flags msk ((i + Suc step) AND msk) (Suc step))"

type_synonym 'v rehash = "32 word list \<times> 32 word list \<times> iid_t list \<times> 'v option list"

text \<open>
  The kick-out loop: put \<open>key\<close> and \<open>val\<close> in the first empty bucket of the new table; if an
  element of the old table still sits there, carry it on.
\<close>

partial_function (option) kh_kick ::
  "nat \<Rightarrow> nat \<Rightarrow> 32 word list \<Rightarrow> 32 word list \<Rightarrow> iid_t list \<Rightarrow> 'v option list \<Rightarrow>
   iid_t \<Rightarrow> 'v option \<Rightarrow> 'v rehash option" where
  "kh_kick n new_mask fl new_flags ks vs key val =
    Option.bind (kh_find_empty new_flags new_mask (unat key AND new_mask) 0) (\<lambda>i.
      if i < n \<and> \<not> ac_iseither fl i
      then kh_kick n new_mask (ac_set_isdel_true fl i) (ac_set_isempty_false new_flags i)
             (ks[i := key]) (vs[i := val]) (ks ! i) (vs ! i)
      else Some (fl, ac_set_isempty_false new_flags i, ks[i := key], vs[i := val]))"

fun kh_rehash :: "nat \<Rightarrow> nat \<Rightarrow> nat list \<Rightarrow> 'v rehash \<Rightarrow> 'v rehash option" where
  "kh_rehash n new_mask [] st = Some st"
| "kh_rehash n new_mask (j # js) (fl, new_flags, ks, vs) =
    (if \<not> ac_iseither fl j
     then Option.bind
       (kh_kick n new_mask (ac_set_isdel_true fl j) new_flags ks vs (ks ! j) (vs ! j))
       (kh_rehash n new_mask js)
     else kh_rehash n new_mask js (fl, new_flags, ks, vs))"

text \<open>
  \<open>realloc\<close> of an array to \<open>m\<close> entries: the new ones are unwritten (\<open>0\<close> stands for the
  unread content of an unwritten key).
\<close>

definition kh_realloc :: "'a \<Rightarrow> 'a list \<Rightarrow> nat \<Rightarrow> 'a list" where
  "kh_realloc d xs m = take m xs @ replicate (m - length xs) d"

definition kh_resize :: "'v khash \<Rightarrow> nat \<Rightarrow> 'v khash option" where
  "kh_resize h req =
    (let rounded = unat (kroundup32 (of_nat req));
         new_n_buckets = (if rounded < 4 then 4 else rounded)
     in if kh_size h \<ge> kh_upper new_n_buckets then Some h
        else (let ks = (if n_buckets h < new_n_buckets then kh_realloc 0 (keys h) new_n_buckets else keys h);
                  vs = (if n_buckets h < new_n_buckets then kh_realloc None (vals h) new_n_buckets else vals h)
              in Option.bind
                   (kh_rehash (n_buckets h) (new_n_buckets - 1) [0..<n_buckets h]
                      (flags h, ac_fresh new_n_buckets, ks, vs))
                   (\<lambda>(fl, new_flags, ks, vs).
                      Some \<lparr>n_buckets = new_n_buckets, kh_size = kh_size h,
                        n_occupied = kh_size h, upper_bound = kh_upper new_n_buckets,
                        flags = new_flags,
                        keys = (if n_buckets h > new_n_buckets then kh_realloc 0 ks new_n_buckets else ks),
                        vals = (if n_buckets h > new_n_buckets then kh_realloc None vs new_n_buckets else vs)\<rparr>)))"

text \<open>The search of \<open>kh_put\<close>: \<open>site\<close> is the last deleted bucket it passed.\<close>

partial_function (option) kh_put_loop ::
  "'v khash \<Rightarrow> iid_t \<Rightarrow> nat \<Rightarrow> nat \<Rightarrow> nat \<Rightarrow> nat \<Rightarrow> nat \<Rightarrow> nat option" where
  "kh_put_loop h key msk lst i step site =
    (if \<not> ac_isempty (flags h) i \<and> (ac_isdel (flags h) i \<or> keys h ! i \<noteq> key)
     then (if (i + Suc step) AND msk = lst
           then Some (let x = (if ac_isdel (flags h) i then i else site)
                      in if x \<noteq> n_buckets h then x else (i + Suc step) AND msk)
           else kh_put_loop h key msk lst ((i + Suc step) AND msk) (Suc step)
                  (if ac_isdel (flags h) i then i else site))
     else Some (if ac_isempty (flags h) i \<and> site \<noteq> n_buckets h then site else i))"

definition kh_put_slot :: "'v khash \<Rightarrow> iid_t \<Rightarrow> nat option" where
  "kh_put_slot h key =
    (let msk = n_buckets h - 1; i = unat key AND msk
     in if ac_isempty (flags h) i then Some i
        else kh_put_loop h key msk i i 0 (n_buckets h))"

definition kh_put_room :: "'v khash \<Rightarrow> 'v khash option" where
  "kh_put_room h =
    (if n_occupied h \<ge> upper_bound h
     then (if n_buckets h > (2 * kh_size h) mod 2 ^ 32
           then kh_resize h (n_buckets h - 1)
           else kh_resize h (n_buckets h + 1))
     else Some h)"

definition kh_put :: "'v khash \<Rightarrow> iid_t \<Rightarrow> ('v khash \<times> nat \<times> int) option" where
  "kh_put h0 key = do {
     h \<leftarrow> kh_put_room h0;
     x \<leftarrow> kh_put_slot h key;
     Some (if ac_isempty (flags h) x
           then (h\<lparr>keys := (keys h)[x := key], flags := ac_set_isboth_false (flags h) x,
                   kh_size := kh_size h + 1, n_occupied := n_occupied h + 1\<rparr>, x, 1)
           else if ac_isdel (flags h) x
           then (h\<lparr>keys := (keys h)[x := key], flags := ac_set_isboth_false (flags h) x,
                   kh_size := kh_size h + 1\<rparr>, x, 2)
           else (h, x, 0))
   }"

definition kh_del :: "'v khash \<Rightarrow> nat \<Rightarrow> 'v khash" where
  "kh_del h x =
    (if x \<noteq> n_buckets h \<and> \<not> ac_iseither (flags h) x
     then h\<lparr>flags := ac_set_isdel_true (flags h) x, kh_size := kh_size h - 1\<rparr>
     else h)"

text \<open>The buckets in use, in the order of \<open>kh_begin\<close> to \<open>kh_end\<close>.\<close>

definition kh_buckets :: "'v khash \<Rightarrow> nat list" where
  "kh_buckets h = filter (kh_exist h) [0..<n_buckets h]"

section \<open>The finite map a table stands for\<close>

definition kh_map :: "'v khash \<Rightarrow> iid_t \<Rightarrow> 'v option" where
  "kh_map h key =
    Option.bind (map_of (map (\<lambda>x. (keys h ! x, vals h ! x)) (kh_buckets h)) key) (\<lambda>v. v)"

section \<open>Well-formed tables\<close>

definition probe_path :: "32 word list \<Rightarrow> nat \<Rightarrow> iid_t \<Rightarrow> nat \<Rightarrow> bool" where
  "probe_path fl n key x \<longleftrightarrow>
    (\<exists>s. probe_at n (unat key) s = x \<and> (\<forall>t < s. \<not> ac_isempty fl (probe_at n (unat key) t)))"

definition kh_wf :: "'v khash \<Rightarrow> bool" where
  "kh_wf h \<longleftrightarrow>
    (\<exists>k. 2 \<le> k \<and> k \<le> 31 \<and> n_buckets h = 2 ^ k) \<and>
    length (flags h) = ac_fsize (n_buckets h) \<and>
    length (keys h) = n_buckets h \<and> length (vals h) = n_buckets h \<and>
    kh_size h = card {x. x < n_buckets h \<and> kh_exist h x} \<and>
    n_occupied h = card {x. x < n_buckets h \<and> \<not> ac_isempty (flags h) x} \<and>
    upper_bound h = kh_upper (n_buckets h) \<and>
    n_occupied h \<le> upper_bound h \<and>
    inj_on (\<lambda>x. keys h ! x) {x. x < n_buckets h \<and> kh_exist h x} \<and>
    (\<forall>x < n_buckets h. kh_exist h x \<longrightarrow> probe_path (flags h) (n_buckets h) (keys h ! x) x)"

definition kh_ok :: "'v khash \<Rightarrow> bool" where
  "kh_ok h \<longleftrightarrow> h = kh_init \<or> kh_wf h"

text \<open>Between calls every bucket in use has a value.\<close>

definition kh_inv :: "'v khash \<Rightarrow> bool" where
  "kh_inv h \<longleftrightarrow> kh_ok h \<and> (\<forall>x < n_buckets h. kh_exist h x \<longrightarrow> vals h ! x \<noteq> None)"

definition kh_room :: "'v khash \<Rightarrow> bool" where
  "kh_room h \<longleftrightarrow> kh_size h < 2 ^ 30"

text \<open>\<open>kh_at h key x\<close>: bucket \<open>x\<close> is in use and holds \<open>key\<close>.\<close>

definition kh_at :: "'v khash \<Rightarrow> iid_t \<Rightarrow> nat \<Rightarrow> bool" where
  "kh_at h key x \<longleftrightarrow> x < n_buckets h \<and> kh_exist h x \<and> keys h ! x = key"

lemma pow2_slot: "2 \<le> k \<Longrightarrow> x < 2 ^ k \<Longrightarrow> x div 16 < ac_fsize (2 ^ k)"
proof (rule ac_fsize_less)
  show "16 dvd (2 :: nat) ^ k \<or> (2 :: nat) ^ k < 16"
  proof (cases "k < 4")
    case True
    then have "(2 :: nat) ^ k < 2 ^ 4" by (rule power_strict_increasing) simp
    then show ?thesis by simp
  next
    case False
    then have "(2 :: nat) ^ 4 dvd 2 ^ k" by (intro le_imp_power_dvd) simp
    then show ?thesis by simp
  qed
qed

lemma probe_step:
  "(probe_at (2 ^ k) hv s + Suc s) AND (2 ^ k - 1) = probe_at (2 ^ k) hv (Suc s)"
  by (simp only: nat_and_mask probe_at_Suc)

lemma probe_start: "(hv :: nat) AND (2 ^ k - 1) = probe_at (2 ^ k) hv 0"
  by (simp only: nat_and_mask probe_at_0)

lemma kh_upper_less: "4 \<le> n \<Longrightarrow> kh_upper n < n"
  unfolding kh_upper_def by linarith

lemma kh_exist_iff: "kh_exist h x \<longleftrightarrow> \<not> ac_isempty (flags h) x \<and> \<not> ac_isdel (flags h) x"
  by (simp add: kh_exist_def ac_iseither_iff)

lemma pow2_ge_4: "2 \<le> k \<Longrightarrow> (4 :: nat) \<le> 2 ^ k"
  using power_increasing [of 2 k "2 :: nat"] by simp

lemma kh_wfE:
  assumes "kh_wf h"
  obtains k where "2 \<le> k" "k \<le> 31" "n_buckets h = 2 ^ k" "4 \<le> n_buckets h"
  using assms pow2_ge_4 unfolding kh_wf_def by metis

lemma kh_wf_slot: "kh_wf h \<Longrightarrow> x < n_buckets h \<Longrightarrow> x div 16 < length (flags h)"
  unfolding kh_wf_def by (metis pow2_slot)

lemma kh_wf_has_empty:
  assumes "kh_wf h"
  obtains x where "x < n_buckets h" "ac_isempty (flags h) x"
proof -
  have "kh_upper (n_buckets h) < n_buckets h"
    using assms by (auto elim: kh_wfE intro: kh_upper_less)
  then have "n_occupied h < n_buckets h"
    using assms by (simp add: kh_wf_def)
  then have "card {x. x < n_buckets h \<and> \<not> ac_isempty (flags h) x} < card {..<n_buckets h}"
    using assms by (simp add: kh_wf_def)
  from card_less_inhabited [OF _ _ this] show thesis using that by auto
qed

section \<open>Looking up\<close>

text \<open>A search passes the buckets for which \<open>kh_pass\<close> holds and stops at the first other.\<close>

definition kh_pass :: "'v khash \<Rightarrow> iid_t \<Rightarrow> nat \<Rightarrow> bool" where
  "kh_pass h key i \<longleftrightarrow>
    \<not> ac_isempty (flags h) i \<and> (ac_isdel (flags h) i \<or> keys h ! i \<noteq> key)"

definition kh_stop :: "'v khash \<Rightarrow> iid_t \<Rightarrow> nat \<Rightarrow> bool" where
  "kh_stop h key s \<longleftrightarrow> s < n_buckets h \<and>
    \<not> kh_pass h key (probe_at (n_buckets h) (unat key) s) \<and>
    (\<forall>t < s. kh_pass h key (probe_at (n_buckets h) (unat key) t))"

lemma kh_stop_exists:
  assumes "kh_wf h"
  obtains s where "kh_stop h key s"
proof -
  obtain k where k: "n_buckets h = 2 ^ k" using assms by (rule kh_wfE)
  obtain x where x: "x < n_buckets h" "ac_isempty (flags h) x"
    using assms by (rule kh_wf_has_empty)
  obtain r where r: "r < n_buckets h" "probe_at (n_buckets h) (unat key) r = x"
    using probe_at_surj [of x k "unat key"] x(1) unfolding k by metis
  let ?P = "\<lambda>s. \<not> kh_pass h key (probe_at (n_buckets h) (unat key) s)"
  have "?P r" using r x by (simp add: kh_pass_def)
  then have "?P (LEAST s. ?P s)" "(LEAST s. ?P s) \<le> r" by (fact LeastI, fact Least_le)
  with r(1) have "kh_stop h key (LEAST s. ?P s)"
    using not_less_Least [of _ ?P] by (auto simp: kh_stop_def)
  then show thesis by (rule that)
qed

lemma kh_get_loop_done:
  "\<not> kh_pass h key i \<Longrightarrow> kh_get_loop h key msk lst i step =
    Some (if ac_iseither (flags h) i then n_buckets h else i)"
  by (subst kh_get_loop.simps) (auto simp: kh_pass_def)

lemma kh_get_loop_pass:
  "kh_pass h key i \<Longrightarrow> (i + Suc step) AND msk \<noteq> lst \<Longrightarrow>
   kh_get_loop h key msk lst i step =
   kh_get_loop h key msk lst ((i + Suc step) AND msk) (Suc step)"
  by (subst kh_get_loop.simps) (auto simp: kh_pass_def)

lemma kh_get_loop_stop:
  assumes k: "n_buckets h = 2 ^ k" and stop: "kh_stop h key s" and "r \<le> s"
  shows "kh_get_loop h key (2 ^ k - 1) (probe_at (2 ^ k) (unat key) 0)
      (probe_at (2 ^ k) (unat key) r) r =
    Some (if ac_iseither (flags h) (probe_at (2 ^ k) (unat key) s) then n_buckets h
          else probe_at (2 ^ k) (unat key) s)"
  using \<open>r \<le> s\<close>
proof (induction r rule: inc_induct)
  case base
  have "\<not> kh_pass h key (probe_at (2 ^ k) (unat key) s)"
    using stop by (simp add: kh_stop_def k)
  then show ?case by (rule kh_get_loop_done)
next
  case (step r)
  have "kh_pass h key (probe_at (2 ^ k) (unat key) r)"
    using stop step.hyps by (simp add: kh_stop_def k)
  moreover have "probe_at (2 ^ k) (unat key) (Suc r) \<noteq> probe_at (2 ^ k) (unat key) 0"
    using stop step.hyps by (intro probe_first_return) (auto simp: kh_stop_def k)
  ultimately show ?case
    using step.IH
      kh_get_loop_pass [of h key "probe_at (2 ^ k) (unat key) r" r "2 ^ k - 1"
        "probe_at (2 ^ k) (unat key) 0"]
    unfolding probe_step by metis
qed

lemma kh_get_stop:
  assumes "kh_wf h" and "kh_stop h key s"
  shows "kh_get h key =
    Some (if ac_isempty (flags h) (probe_at (n_buckets h) (unat key) s) then n_buckets h
          else probe_at (n_buckets h) (unat key) s)"
proof -
  obtain k where k: "n_buckets h = 2 ^ k" using assms(1) by (rule kh_wfE)
  have "kh_get h key = kh_get_loop h key (2 ^ k - 1) (probe_at (2 ^ k) (unat key) 0)
      (probe_at (2 ^ k) (unat key) 0) 0"
    by (simp only: kh_get_def k Let_def probe_start) simp
  also have "\<dots> = Some (if ac_iseither (flags h) (probe_at (2 ^ k) (unat key) s) then n_buckets h
      else probe_at (2 ^ k) (unat key) s)"
    by (rule kh_get_loop_stop [OF k assms(2)]) simp
  finally show ?thesis
    using assms(2) by (auto simp: k kh_stop_def kh_pass_def ac_iseither_iff)
qed

lemma kh_stop_at:
  assumes "kh_wf h" and "kh_at h key x" and "kh_stop h key s"
  shows "probe_at (n_buckets h) (unat key) s = x"
proof -
  let ?p = "probe_at (n_buckets h) (unat key)"
  have x: "x < n_buckets h" "kh_exist h x" "keys h ! x = key"
    using assms(2) by (auto simp: kh_at_def)
  then have "probe_path (flags h) (n_buckets h) key x"
    using assms(1) by (auto simp: kh_wf_def)
  then obtain r where r: "?p r = x" "\<forall>t < r. \<not> ac_isempty (flags h) (?p t)"
    by (auto simp: probe_path_def)
  have "\<not> kh_pass h key (?p r)" using x r(1) by (simp add: kh_pass_def kh_exist_iff)
  then have "s \<le> r" using assms(3) by (auto simp: kh_stop_def not_less [symmetric])
  show ?thesis
  proof (cases "s = r")
    case True
    then show ?thesis using r(1) by simp
  next
    case False
    with \<open>s \<le> r\<close> r(2) have ne: "\<not> ac_isempty (flags h) (?p s)" by simp
    have "\<not> kh_pass h key (?p s)" using assms(3) by (simp add: kh_stop_def)
    with ne have "kh_exist h (?p s)" "keys h ! ?p s = key"
      by (auto simp: kh_pass_def kh_exist_iff)
    moreover have "?p s < n_buckets h" using x(1) by (intro probe_at_less) simp
    ultimately show ?thesis
      using assms(1) x by (auto simp: kh_wf_def dest: inj_onD)
  qed
qed

lemma kh_get_at:
  assumes "kh_wf h" and "kh_at h key x"
  shows "kh_get h key = Some x"
proof -
  obtain s where s: "kh_stop h key s" using assms(1) by (rule kh_stop_exists)
  have "probe_at (n_buckets h) (unat key) s = x" by (rule kh_stop_at [OF assms s])
  with kh_get_stop [OF assms(1) s] assms(2) show ?thesis
    by (simp add: kh_at_def kh_exist_iff)
qed

lemma kh_get_absent:
  assumes "kh_wf h" and "\<And>x. \<not> kh_at h key x"
  shows "kh_get h key = Some (kh_end h)"
proof -
  obtain s where s: "kh_stop h key s" using assms(1) by (rule kh_stop_exists)
  have "probe_at (n_buckets h) (unat key) s < n_buckets h"
    using s by (intro probe_at_less) (simp add: kh_stop_def)
  then have "ac_isempty (flags h) (probe_at (n_buckets h) (unat key) s)"
    using s assms(2) by (auto simp: kh_stop_def kh_pass_def kh_at_def kh_exist_iff)
  with kh_get_stop [OF assms(1) s] show ?thesis by (simp add: kh_end_def)
qed

section \<open>Rehashing\<close>

text \<open>The entries of a table: the pairs of key and value of the buckets in use.\<close>

definition kh_rel :: "'v khash \<Rightarrow> (iid_t \<times> 'v option) set" where
  "kh_rel h = (\<lambda>x. (keys h ! x, vals h ! x)) ` {x. x < n_buckets h \<and> kh_exist h x}"

text \<open>
  The state of the rehash loop. \<open>placed\<close> are the buckets of the new table already filled,
  \<open>remaining\<close> those of the old table still to move; \<open>C\<close> is the entry being carried.
\<close>

definition placed :: "nat \<Rightarrow> 32 word list \<Rightarrow> nat set" where
  "placed N nf = {i. i < N \<and> \<not> ac_isempty nf i}"

definition remaining :: "nat \<Rightarrow> 32 word list \<Rightarrow> nat set" where
  "remaining n fl = {i. i < n \<and> \<not> ac_iseither fl i}"

definition rehash_inv ::
  "nat \<Rightarrow> nat \<Rightarrow> (iid_t \<times> 'v option) set \<Rightarrow> (iid_t \<times> 'v option) set \<Rightarrow> 'v rehash \<Rightarrow> bool" where
  "rehash_inv N n E C = (\<lambda>(fl, nf, ks, vs).
    (\<forall>i < n. i div 16 < length fl) \<and> length nf = ac_fsize N \<and>
    length ks = max n N \<and> length vs = max n N \<and>
    placed N nf \<inter> remaining n fl = {} \<and>
    inj_on (\<lambda>i. ks ! i) (placed N nf \<union> remaining n fl) \<and>
    fst ` C \<inter> (\<lambda>i. ks ! i) ` (placed N nf \<union> remaining n fl) = {} \<and>
    (\<lambda>i. (ks ! i, vs ! i)) ` (placed N nf \<union> remaining n fl) \<union> C = E \<and>
    (\<forall>i < N. \<not> ac_isdel nf i) \<and>
    (\<forall>i \<in> placed N nf. probe_path nf N (ks ! i) i))"

lemma probe_path_mono:
  "probe_path fl n key x \<Longrightarrow> (\<And>i. ac_isempty fl' i \<Longrightarrow> ac_isempty fl i) \<Longrightarrow> probe_path fl' n key x"
  unfolding probe_path_def by blast

lemma placed_insert:
  "i < N \<Longrightarrow> i div 16 < length nf \<Longrightarrow>
    placed N (ac_set_isempty_false nf i) = insert i (placed N nf)"
  by (auto simp: placed_def flag_set_isempty_false)

lemma remaining_remove:
  "i div 16 < length fl \<Longrightarrow> remaining n (ac_set_isdel_true fl i) = remaining n fl - {i}"
  by (auto simp: remaining_def ac_iseither_iff flag_set_isdel_true)

lemma finite_placed [simp]: "finite (placed N nf)" and finite_remaining [simp]: "finite (remaining n fl)"
  by (simp_all add: placed_def remaining_def)

lemma rehash_card:
  assumes "rehash_inv N n E C (fl, nf, ks, vs)" "finite E"
  shows "card (placed N nf \<union> remaining n fl) + card (fst ` C) = card (fst ` E)"
proof -
  let ?S = "placed N nf \<union> remaining n fl"
  have inj: "inj_on (\<lambda>i. ks ! i) ?S" and disj: "(\<lambda>i. ks ! i) ` ?S \<inter> fst ` C = {}"
    and E: "(\<lambda>i. (ks ! i, vs ! i)) ` ?S \<union> C = E"
    using assms(1) by (auto simp: rehash_inv_def)
  have "finite C" using assms(2) E by (metis finite_Un)
  then have "card ((\<lambda>i. ks ! i) ` ?S \<union> fst ` C) = card ((\<lambda>i. ks ! i) ` ?S) + card (fst ` C)"
    using disj by (intro card_Un_disjoint) auto
  moreover have "fst ` E = (\<lambda>i. ks ! i) ` ?S \<union> fst ` C"
    unfolding E [symmetric] by (simp add: image_Un image_image)
  ultimately show ?thesis using inj by (simp add: card_image)
qed

lemma kh_find_empty_first:
  assumes "r \<le> s" "ac_isempty nf (probe_at (2 ^ k) hv s)"
    and "\<forall>t < s. \<not> ac_isempty nf (probe_at (2 ^ k) hv t)"
  shows "kh_find_empty nf (2 ^ k - 1) (probe_at (2 ^ k) hv r) r = Some (probe_at (2 ^ k) hv s)"
  using assms(1)
proof (induction r rule: inc_induct)
  case base
  then show ?case using assms(2) by (subst kh_find_empty.simps) simp
next
  case (step r)
  then have "\<not> ac_isempty nf (probe_at (2 ^ k) hv r)" using assms(3) by simp
  then have "kh_find_empty nf (2 ^ k - 1) (probe_at (2 ^ k) hv r) r =
      kh_find_empty nf (2 ^ k - 1) ((probe_at (2 ^ k) hv r + Suc r) AND (2 ^ k - 1)) (Suc r)"
    by (subst kh_find_empty.simps) simp
  then show ?case using step.IH by (simp only: probe_step)
qed

lemma kh_find_empty_ends:
  assumes "x < 2 ^ k" "ac_isempty nf x"
  obtains i where "kh_find_empty nf (2 ^ k - 1) (unat key AND (2 ^ k - 1)) 0 = Some i"
    "i < 2 ^ k" "ac_isempty nf i" "probe_path nf (2 ^ k) key i"
proof -
  let ?p = "probe_at (2 ^ k) (unat key)"
  obtain r where "?p r = x" using probe_at_surj [OF assms(1)] by metis
  then have r: "ac_isempty nf (?p r)" using assms(2) by simp
  define s where "s = (LEAST s. ac_isempty nf (?p s))"
  have s: "ac_isempty nf (?p s)" unfolding s_def using r by (rule LeastI)
  have lt: "\<forall>t < s. \<not> ac_isempty nf (?p t)" unfolding s_def using not_less_Least by blast
  show thesis
  proof (rule that)
    show "kh_find_empty nf (2 ^ k - 1) (unat key AND (2 ^ k - 1)) 0 = Some (?p s)"
      unfolding probe_start using s lt by (intro kh_find_empty_first) auto
  qed (use s lt in \<open>auto simp: probe_path_def intro!: probe_at_less\<close>)
qed

lemma slot_upd_other: "i \<notin> T \<Longrightarrow> j \<in> T \<Longrightarrow> xs[i := v] ! j = xs ! j"
  by (metis nth_list_update_neq)

lemma slots_image_upd:
  assumes "i \<notin> T"
  shows "(\<lambda>j. (ks[i := key] ! j, vs[i := val] ! j)) ` T = (\<lambda>j. (ks ! j, vs ! j)) ` T"
    and "(\<lambda>j. ks[i := key] ! j) ` T = (\<lambda>j. ks ! j) ` T"
  using assms by (auto intro!: image_cong simp: slot_upd_other)

lemma inj_on_slots_upd:
  assumes "i \<notin> T" "i < length ks" "inj_on (\<lambda>j. ks ! j) T" "key \<notin> (\<lambda>j. ks ! j) ` T"
  shows "inj_on (\<lambda>j. ks[i := key] ! j) (insert i T)"
proof -
  have "inj_on (\<lambda>j. ks[i := key] ! j) T = inj_on (\<lambda>j. ks ! j) T"
    using assms(1) by (intro inj_on_cong) (rule slot_upd_other)
  then show ?thesis using assms slots_image_upd(2) [OF assms(1), of ks key] by auto
qed

text \<open>Putting the carried entry in bucket \<open>i\<close>; \<open>T\<close> are the other buckets in play.\<close>

lemma rehash_inv_put:
  assumes inv: "rehash_inv N n E {(key, val)} (fl, nf, ks, vs)"
    and i: "i < N" "i div 16 < ac_fsize N" "ac_isempty nf i" "probe_path nf N key i"
    and fl': "\<forall>j < n. j div 16 < length fl'" "remaining n fl' = remaining n fl - {i}"
    and C: "(\<lambda>j. (ks ! j, vs ! j)) ` ({i} \<inter> remaining n fl) = C"
  shows "rehash_inv N n E C (fl', ac_set_isempty_false nf i, ks[i := key], vs[i := val])"
proof -
  let ?S = "placed N nf \<union> remaining n fl"
  let ?T = "placed N nf \<union> (remaining n fl - {i})"
  have nf: "i div 16 < length nf" and len: "i < length ks" "i < length vs"
    using inv i by (auto simp: rehash_inv_def)
  have notT: "i \<notin> ?T" and notP: "i \<notin> placed N nf" using i by (auto simp: placed_def)
  have P: "placed N (ac_set_isempty_false nf i) = insert i (placed N nf)"
    using i(1) nf by (rule placed_insert)
  have S: "?S = ?T \<union> ({i} \<inter> remaining n fl)" by auto
  have S': "insert i (placed N nf) \<union> (remaining n fl - {i}) = insert i ?T" by auto
  have inj: "inj_on (\<lambda>j. ks ! j) ?S" and key: "key \<notin> (\<lambda>j. ks ! j) ` ?S"
    and E: "(\<lambda>j. (ks ! j, vs ! j)) ` ?S \<union> {(key, val)} = E"
    and path: "\<forall>j \<in> placed N nf. probe_path nf N (ks ! j) j"
    using inv by (auto simp: rehash_inv_def)
  have inj': "inj_on (\<lambda>j. ks[i := key] ! j) (insert i ?T)"
    using notT len(1) inj key by (intro inj_on_slots_upd) (auto intro: inj_on_subset)
  have C': "fst ` C \<inter> (\<lambda>j. ks[i := key] ! j) ` insert i ?T = {}"
  proof -
    have "fst ` C = (\<lambda>j. ks ! j) ` ({i} \<inter> remaining n fl)"
      unfolding C [symmetric] by (simp add: image_image)
    moreover have "(\<lambda>j. ks[i := key] ! j) ` insert i ?T = insert key ((\<lambda>j. ks ! j) ` ?T)"
      using len(1) slots_image_upd(2) [OF notT, of ks key] by simp
    moreover have "(\<lambda>j. ks ! j) ` ({i} \<inter> remaining n fl) \<inter> (\<lambda>j. ks ! j) ` ?T = {}"
      using inj notT by (auto simp: inj_on_def)
    ultimately show ?thesis using key by auto
  qed
  have E': "(\<lambda>j. (ks[i := key] ! j, vs[i := val] ! j)) ` insert i ?T \<union> C = E"
  proof -
    have "(\<lambda>j. (ks ! j, vs ! j)) ` ?S = (\<lambda>j. (ks ! j, vs ! j)) ` ?T \<union> C"
      unfolding C [symmetric] by (subst S) (rule image_Un)
    then show ?thesis
      unfolding E [symmetric] image_insert slots_image_upd(1) [OF notT] using len by auto
  qed
  have path': "\<forall>j \<in> insert i (placed N nf).
      probe_path (ac_set_isempty_false nf i) N (ks[i := key] ! j) j"
  proof
    fix j assume "j \<in> insert i (placed N nf)"
    then have "probe_path nf N (ks[i := key] ! j) j"
      using path i(4) len slot_upd_other [OF notP, of j ks key] by (cases "j = i") auto
    then show "probe_path (ac_set_isempty_false nf i) N (ks[i := key] ! j) j"
      by (rule probe_path_mono) (simp add: flag_set_isempty_false [OF nf])
  qed
  have disj: "placed N nf \<inter> remaining n fl = {}" and lens: "length nf = ac_fsize N"
    "length ks = max n N" "length vs = max n N" and nodel: "\<forall>j < N. \<not> ac_isdel nf j"
    using inv by (auto simp: rehash_inv_def)
  have disj': "insert i (placed N nf) \<inter> (remaining n fl - {i}) = {}" using disj by auto
  have nodel': "\<forall>j < N. \<not> ac_isdel (ac_set_isempty_false nf i) j"
    using nodel by (simp add: flag_set_isempty_false [OF nf])
  show ?thesis
    unfolding rehash_inv_def prod.case P fl'(2) S' length_ac_set length_list_update
    by (intro conjI) (fact fl'(1) lens disj' inj' C' E' nodel' path')+
qed

lemma rehash_inv_lengths:
  assumes "rehash_inv N n E C (fl, nf, ks, vs)"
  shows "\<forall>j < n. j div 16 < length fl"
  using assms by (simp add: rehash_inv_def)

lemma kh_kick_ends:
  assumes "rehash_inv (2 ^ k) n E {(key, val)} (fl, nf, ks, vs)"
    and "finite E" "card (fst ` E) \<le> 2 ^ k" "2 \<le> k"
  shows "\<exists>fl' nf' ks' vs'. kh_kick n (2 ^ k - 1) fl nf ks vs key val = Some (fl', nf', ks', vs') \<and>
    rehash_inv (2 ^ k) n E {} (fl', nf', ks', vs') \<and> remaining n fl' \<subseteq> remaining n fl"
  using assms(1)
proof (induction "card (remaining n fl)" arbitrary: fl nf ks vs key val rule: less_induct)
  case less
  have "card (placed (2 ^ k) nf) \<le> card (placed (2 ^ k) nf \<union> remaining n fl)"
    by (intro card_mono) auto
  then have "card (placed (2 ^ k) nf) < card {..<(2 :: nat) ^ k}"
    using rehash_card [OF less.prems assms(2)] assms(3) by simp
  then obtain x where "x < 2 ^ k" "ac_isempty nf x"
    using card_less_inhabited [of "{..<(2 :: nat) ^ k}" "placed (2 ^ k) nf"]
    by (auto simp: placed_def)
  then obtain i where find: "kh_find_empty nf (2 ^ k - 1) (unat key AND (2 ^ k - 1)) 0 = Some i"
    and i: "i < 2 ^ k" "ac_isempty nf i" "probe_path nf (2 ^ k) key i"
    by (rule kh_find_empty_ends)
  have slot: "i div 16 < ac_fsize (2 ^ k)" using assms(4) i(1) by (rule pow2_slot)
  note lens = rehash_inv_lengths [OF less.prems]
  show ?case
  proof (cases "i < n \<and> \<not> ac_iseither fl i")
    case True
    then have R: "i \<in> remaining n fl" by (simp add: remaining_def)
    have rem: "remaining n (ac_set_isdel_true fl i) = remaining n fl - {i}"
      using lens True by (intro remaining_remove) auto
    have "rehash_inv (2 ^ k) n E {(ks ! i, vs ! i)}
        (ac_set_isdel_true fl i, ac_set_isempty_false nf i, ks[i := key], vs[i := val])"
      by (rule rehash_inv_put [OF less.prems i(1) slot i(2,3)]) (use lens rem R in auto)
    moreover have "card (remaining n (ac_set_isdel_true fl i)) < card (remaining n fl)"
      using R unfolding rem by (intro card_Diff1_less) auto
    ultimately obtain fl' nf' ks' vs' where
      "kh_kick n (2 ^ k - 1) (ac_set_isdel_true fl i) (ac_set_isempty_false nf i)
        (ks[i := key]) (vs[i := val]) (ks ! i) (vs ! i) = Some (fl', nf', ks', vs')"
      "rehash_inv (2 ^ k) n E {} (fl', nf', ks', vs')" "remaining n fl' \<subseteq> remaining n fl - {i}"
      using less.hyps [of "ac_set_isdel_true fl i"] unfolding rem by blast
    then show ?thesis using find True by (subst kh_kick.simps) auto
  next
    case False
    then have R: "remaining n fl - {i} = remaining n fl" by (auto simp: remaining_def)
    have "rehash_inv (2 ^ k) n E {} (fl, ac_set_isempty_false nf i, ks[i := key], vs[i := val])"
      by (rule rehash_inv_put [OF less.prems i(1) slot i(2,3)])
        (use lens R False in \<open>auto simp: remaining_def\<close>)
    then show ?thesis using find False by (subst kh_kick.simps) auto
  qed
qed

lemma rehash_inv_take:
  assumes inv: "rehash_inv N n E {} (fl, nf, ks, vs)" and j: "j < n" "\<not> ac_iseither fl j"
  shows "rehash_inv N n E {(ks ! j, vs ! j)} (ac_set_isdel_true fl j, nf, ks, vs)"
proof -
  have jR: "j \<in> remaining n fl" using j by (simp add: remaining_def)
  have "j div 16 < length fl" using inv j(1) by (simp add: rehash_inv_def)
  then have R: "remaining n (ac_set_isdel_true fl j) = remaining n fl - {j}"
    by (rule remaining_remove)
  have inj: "inj_on (\<lambda>i. ks ! i) (placed N nf \<union> remaining n fl)"
    and disj: "placed N nf \<inter> remaining n fl = {}"
    and E: "(\<lambda>i. (ks ! i, vs ! i)) ` (placed N nf \<union> remaining n fl) = E"
    using inv by (auto simp: rehash_inv_def)
  have S: "placed N nf \<union> remaining n fl = insert j (placed N nf \<union> (remaining n fl - {j}))"
    and notin: "j \<notin> placed N nf \<union> (remaining n fl - {j})"
    using jR disj by auto
  have inj': "inj_on (\<lambda>i. ks ! i) (placed N nf \<union> (remaining n fl - {j}))"
    and key: "ks ! j \<notin> (\<lambda>i. ks ! i) ` (placed N nf \<union> (remaining n fl - {j}))"
    using inj unfolding S inj_on_insert using notin by auto
  have E': "(\<lambda>i. (ks ! i, vs ! i)) ` (placed N nf \<union> (remaining n fl - {j})) \<union>
      {(ks ! j, vs ! j)} = E"
    using E unfolding S by auto
  show ?thesis
    using inv inj' key E' disj unfolding rehash_inv_def prod.case R by auto
qed

lemma kh_rehash_ends:
  assumes "rehash_inv (2 ^ k) n E {} (fl, nf, ks, vs)"
    and "remaining n fl \<subseteq> set js" "set js \<subseteq> {..<n}"
    and E: "finite E" "card (fst ` E) \<le> 2 ^ k" and k: "2 \<le> k"
  shows "\<exists>fl' nf' ks' vs'. kh_rehash n (2 ^ k - 1) js (fl, nf, ks, vs) = Some (fl', nf', ks', vs') \<and>
    rehash_inv (2 ^ k) n E {} (fl', nf', ks', vs') \<and> remaining n fl' = {}"
  using assms(1-3)
proof (induction js arbitrary: fl nf ks vs)
  case Nil
  then show ?case by auto
next
  case (Cons j js)
  show ?case
  proof (cases "ac_iseither fl j")
    case True
    then have "j \<notin> remaining n fl" by (simp add: remaining_def)
    then have "remaining n fl \<subseteq> set js" using Cons.prems(2) by auto
    then show ?thesis using Cons.IH [OF Cons.prems(1)] Cons.prems(3) True by auto
  next
    case False
    have j: "j < n" using Cons.prems(3) by simp
    have take: "rehash_inv (2 ^ k) n E {(ks ! j, vs ! j)} (ac_set_isdel_true fl j, nf, ks, vs)"
      using Cons.prems(1) j False by (rule rehash_inv_take)
    have "j div 16 < length fl" using Cons.prems(1) j by (simp add: rehash_inv_def)
    then have R: "remaining n (ac_set_isdel_true fl j) = remaining n fl - {j}"
      by (rule remaining_remove)
    obtain fl' nf' ks' vs' where
      kick: "kh_kick n (2 ^ k - 1) (ac_set_isdel_true fl j) nf ks vs (ks ! j) (vs ! j) =
        Some (fl', nf', ks', vs')"
      and inv': "rehash_inv (2 ^ k) n E {} (fl', nf', ks', vs')"
      and "remaining n fl' \<subseteq> remaining n fl - {j}"
      using kh_kick_ends [OF take E k] unfolding R by blast
    then have "remaining n fl' \<subseteq> set js" using Cons.prems(2) by auto
    then show ?thesis using Cons.IH [OF inv'] Cons.prems(3) False kick by auto
  qed
qed

lemma finite_kh_rel [simp]: "finite (kh_rel h)"
  by (simp add: kh_rel_def)

lemma kh_size_rel: "kh_ok h \<Longrightarrow> kh_size h = card (fst ` kh_rel h)"
  by (auto simp: kh_ok_def kh_wf_def kh_init_def kh_rel_def image_image card_image)

lemma kh_realloc_grow:
  "length xs \<le> m \<Longrightarrow> length (kh_realloc d xs m) = m"
  "length xs \<le> m \<Longrightarrow> i < length xs \<Longrightarrow> kh_realloc d xs m ! i = xs ! i"
  by (simp_all add: kh_realloc_def nth_append)

lemma kh_realloc_shrink:
  "m \<le> length xs \<Longrightarrow> kh_realloc d xs m = take m xs"
  by (simp add: kh_realloc_def)

lemma kh_ok_lengths:
  "kh_ok h \<Longrightarrow> length (keys h) = n_buckets h" "kh_ok h \<Longrightarrow> length (vals h) = n_buckets h"
  "kh_ok h \<Longrightarrow> x < n_buckets h \<Longrightarrow> x div 16 < length (flags h)"
  by (auto simp: kh_ok_def kh_init_def dest: kh_wf_slot) (auto simp: kh_wf_def)

lemma kh_ok_inj: "kh_ok h \<Longrightarrow> inj_on (\<lambda>x. keys h ! x) {x. x < n_buckets h \<and> kh_exist h x}"
  by (auto simp: kh_ok_def kh_init_def kh_wf_def)

lemma kh_resize_start:
  assumes ok: "kh_ok h" and k: "2 \<le> k"
    and ks: "ks = (if n_buckets h < 2 ^ k then kh_realloc 0 (keys h) (2 ^ k) else keys h)"
    and vs: "vs = (if n_buckets h < 2 ^ k then kh_realloc None (vals h) (2 ^ k) else vals h)"
  shows "rehash_inv (2 ^ k) (n_buckets h) (kh_rel h) {} (flags h, ac_fresh (2 ^ k), ks, vs)"
proof -
  note len = kh_ok_lengths [OF ok]
  have P: "placed (2 ^ k) (ac_fresh (2 ^ k)) = {}"
    using flag_fresh(1) pow2_slot [OF k] by (auto simp: placed_def)
  have R: "remaining (n_buckets h) (flags h) = {x. x < n_buckets h \<and> kh_exist h x}"
    by (simp add: remaining_def kh_exist_def)
  have "ks ! i = keys h ! i" "vs ! i = vals h ! i" if "i < n_buckets h" for i
    using that len(1,2) by (auto simp: ks vs kh_realloc_grow)
  then have E: "(\<lambda>i. (ks ! i, vs ! i)) ` {x. x < n_buckets h \<and> kh_exist h x} = kh_rel h"
    and inj: "inj_on (\<lambda>i. ks ! i) {x. x < n_buckets h \<and> kh_exist h x}"
    using kh_ok_inj [OF ok] by (auto simp: kh_rel_def inj_on_def)
  have "length ks = max (n_buckets h) (2 ^ k)" "length vs = max (n_buckets h) (2 ^ k)"
    using len(1,2) by (auto simp: ks vs kh_realloc_grow)
  moreover have "\<forall>i < 2 ^ k. \<not> ac_isdel (ac_fresh (2 ^ k)) i"
    using flag_fresh(2) pow2_slot [OF k] by blast
  moreover have "length (ac_fresh (2 ^ k)) = ac_fsize (2 ^ k)" by (simp add: ac_fresh_def)
  ultimately show ?thesis
    using E inj len(3) by (simp add: rehash_inv_def P R)
qed

lemma rehashed_table_wf:
  assumes inv: "rehash_inv (2 ^ k) n E {} (fl, nf, ks, vs)" and rem: "remaining n fl = {}"
    and k: "2 \<le> k" "k \<le> 31" and sz: "sz = card (fst ` E)" "sz < kh_upper (2 ^ k)" and fin: "finite E"
    and h': "h' = \<lparr>n_buckets = 2 ^ k, kh_size = sz, n_occupied = sz, upper_bound = kh_upper (2 ^ k),
      flags = nf, keys = (if n > 2 ^ k then kh_realloc 0 ks (2 ^ k) else ks),
      vals = (if n > 2 ^ k then kh_realloc None vs (2 ^ k) else vs)\<rparr>"
  shows "kh_wf h' \<and> kh_rel h' = E"
proof -
  have ex: "kh_exist h' x \<longleftrightarrow> \<not> ac_isempty nf x" if "x < 2 ^ k" for x
    using inv that by (simp add: rehash_inv_def kh_exist_iff h')
  have P: "{x. x < n_buckets h' \<and> kh_exist h' x} = placed (2 ^ k) nf"
    using ex by (auto simp: placed_def h')
  have len: "length ks = max n (2 ^ k)" "length vs = max n (2 ^ k)"
    using inv by (simp_all add: rehash_inv_def)
  have nth: "keys h' ! x = ks ! x" "vals h' ! x = vs ! x" if "x < 2 ^ k" for x
    using that len by (auto simp: h' kh_realloc_shrink)
  have lt: "x \<in> placed (2 ^ k) nf \<Longrightarrow> x < 2 ^ k" for x by (simp add: placed_def)
  have card: "card (placed (2 ^ k) nf) = sz"
    using rehash_card [OF inv fin] rem sz by simp
  have "(\<lambda>x. (keys h' ! x, vals h' ! x)) ` placed (2 ^ k) nf = (\<lambda>x. (ks ! x, vs ! x)) ` placed (2 ^ k) nf"
    by (rule image_cong) (auto simp: nth lt)
  also have "\<dots> = E" using inv rem by (simp add: rehash_inv_def)
  finally have rel: "kh_rel h' = E" unfolding kh_rel_def P .
  have "inj_on (\<lambda>x. keys h' ! x) (placed (2 ^ k) nf) = inj_on (\<lambda>x. ks ! x) (placed (2 ^ k) nf)"
    by (rule inj_on_cong) (auto simp: nth lt)
  then have inj: "inj_on (\<lambda>x. keys h' ! x) (placed (2 ^ k) nf)"
    using inv rem by (simp add: rehash_inv_def)
  have path: "probe_path nf (2 ^ k) (keys h' ! x) x" if "x \<in> placed (2 ^ k) nf" for x
    using inv that by (simp add: rehash_inv_def nth lt)
  have lens: "length (keys h') = 2 ^ k" "length (vals h') = 2 ^ k" "length (flags h') = ac_fsize (2 ^ k)"
    using len inv by (auto simp: h' kh_realloc_shrink rehash_inv_def)
  have "kh_wf h'"
    unfolding kh_wf_def P
  proof (intro conjI)
    show "\<exists>j \<ge> 2. j \<le> 31 \<and> n_buckets h' = 2 ^ j" using k by (auto simp: h')
    show "n_occupied h' = card {x. x < n_buckets h' \<and> \<not> ac_isempty (flags h') x}"
      using card by (simp add: h' placed_def)
    show "\<forall>x < n_buckets h'. kh_exist h' x \<longrightarrow> probe_path (flags h') (n_buckets h') (keys h' ! x) x"
      using path ex by (simp add: h' placed_def)
  qed (use lens inj card sz in \<open>simp_all add: h'\<close>)
  with rel show ?thesis by simp
qed

lemma kh_resize_correct:
  assumes ok: "kh_ok h" and k: "2 \<le> k" "k \<le> 31"
    and req: "(if unat (kroundup32 (of_nat req)) < 4 then 4 else unat (kroundup32 (of_nat req))) = 2 ^ k"
    and room: "kh_size h < kh_upper (2 ^ k)"
  shows "\<exists>h'. kh_resize h req = Some h' \<and> kh_wf h' \<and> kh_rel h' = kh_rel h \<and>
    n_occupied h' < upper_bound h' \<and> kh_size h' = kh_size h"
proof -
  define ks where "ks = (if n_buckets h < 2 ^ k then kh_realloc 0 (keys h) (2 ^ k) else keys h)"
  define vs where "vs = (if n_buckets h < 2 ^ k then kh_realloc None (vals h) (2 ^ k) else vals h)"
  have start: "rehash_inv (2 ^ k) (n_buckets h) (kh_rel h) {} (flags h, ac_fresh (2 ^ k), ks, vs)"
    using ok k(1) ks_def vs_def by (rule kh_resize_start)
  have upper: "kh_upper (2 ^ k) < 2 ^ k" using pow2_ge_4 [OF k(1)] by (rule kh_upper_less)
  then have card: "card (fst ` kh_rel h) \<le> 2 ^ k" using kh_size_rel [OF ok] room by linarith
  have rem: "remaining (n_buckets h) (flags h) \<subseteq> set [0..<n_buckets h]"
    and sub: "set [0..<n_buckets h] \<subseteq> {..<n_buckets h}" by (auto simp: remaining_def)
  obtain fl nf ks' vs' where
    re: "kh_rehash (n_buckets h) (2 ^ k - 1) [0..<n_buckets h] (flags h, ac_fresh (2 ^ k), ks, vs) =
      Some (fl, nf, ks', vs')"
    and inv: "rehash_inv (2 ^ k) (n_buckets h) (kh_rel h) {} (fl, nf, ks', vs')"
    and rem': "remaining (n_buckets h) fl = {}"
    using kh_rehash_ends [OF start rem sub finite_kh_rel card k(1)] by blast
  define h' where "h' = \<lparr>n_buckets = 2 ^ k, kh_size = kh_size h, n_occupied = kh_size h,
      upper_bound = kh_upper (2 ^ k), flags = nf,
      keys = (if n_buckets h > 2 ^ k then kh_realloc 0 ks' (2 ^ k) else ks'),
      vals = (if n_buckets h > 2 ^ k then kh_realloc None vs' (2 ^ k) else vs')\<rparr>"
  have "kh_wf h' \<and> kh_rel h' = kh_rel h"
    by (rule rehashed_table_wf [OF inv rem' k kh_size_rel [OF ok] room finite_kh_rel h'_def])
  moreover have "kh_resize h req = Some h'"
    using room re unfolding kh_resize_def Let_def req h'_def ks_def vs_def by simp
  moreover have "n_occupied h' < upper_bound h'" "kh_size h' = kh_size h"
    using room by (simp_all add: h'_def)
  ultimately show ?thesis by blast
qed

section \<open>Inserting and deleting\<close>

lemma card_le_buckets: "card {x. x < (n :: nat) \<and> P x} \<le> n"
  using card_mono [of "{..<n}" "{x. x < n \<and> P x}"] by auto

lemma kh_put_room_correct:
  assumes ok: "kh_ok h" and room: "kh_room h"
  shows "\<exists>h'. kh_put_room h = Some h' \<and> kh_wf h' \<and> kh_rel h' = kh_rel h \<and>
    n_occupied h' < upper_bound h' \<and> kh_size h' = kh_size h"
proof (cases "n_occupied h < upper_bound h")
  case True
  then have "kh_wf h" using ok by (auto simp: kh_ok_def kh_init_def)
  with True show ?thesis by (simp add: kh_put_room_def)
next
  case full: False
  have dbl: "(2 * kh_size h) mod 2 ^ 32 = 2 * kh_size h" using room by (simp add: kh_room_def)
  show ?thesis
  proof (cases "n_buckets h = 0")
    case True
    then have h: "h = kh_init" using ok by (auto simp: kh_ok_def elim!: kh_wfE)
    have "\<exists>h'. kh_resize h 1 = Some h' \<and> kh_wf h' \<and> kh_rel h' = kh_rel h \<and>
        n_occupied h' < upper_bound h' \<and> kh_size h' = kh_size h"
      using ok by (rule kh_resize_correct [where k = 2])
        (simp_all add: kroundup32_1 h kh_init_def kh_upper_def)
    then show ?thesis using full dbl True by (simp add: kh_put_room_def h kh_init_def)
  next
    case False
    then have wf: "kh_wf h" using ok by (auto simp: kh_ok_def kh_init_def)
    then obtain k where k: "2 \<le> k" "k \<le> 31" "n_buckets h = 2 ^ k" "4 \<le> n_buckets h"
      by (rule kh_wfE)
    show ?thesis
    proof (cases "n_buckets h > 2 * kh_size h")
      case True
      have up: "kh_size h < kh_upper (2 ^ k)" using True k(3,4) unfolding kh_upper_def by linarith
      have "\<exists>h'. kh_resize h (n_buckets h - 1) = Some h' \<and> kh_wf h' \<and> kh_rel h' = kh_rel h \<and>
          n_occupied h' < upper_bound h' \<and> kh_size h' = kh_size h"
        using k by (intro kh_resize_correct [OF ok k(1,2) _ up])
          (simp only: k(3) kroundup32_pred [OF k(1,2)], simp)
      then show ?thesis using full dbl True by (simp add: kh_put_room_def)
    next
      case small: False
      have "(2 :: nat) ^ k < 2 ^ 31" using small room k(3) by (simp add: kh_room_def)
      then have "k < 31" by (rule power_less_imp_less_exp [rotated]) simp
      then have k30: "k \<le> 30" by simp
      have "kh_size h \<le> 2 ^ k" using wf card_le_buckets k(3) by (simp add: kh_wf_def)
      then have up: "kh_size h < kh_upper (2 ^ Suc k)" using k(3,4) unfolding kh_upper_def by simp
      have "\<exists>h'. kh_resize h (n_buckets h + 1) = Some h' \<and> kh_wf h' \<and> kh_rel h' = kh_rel h \<and>
          n_occupied h' < upper_bound h' \<and> kh_size h' = kh_size h"
        using k k30 by (intro kh_resize_correct [OF ok _ _ _ up])
          (simp_all only: k(3) kroundup32_Suc [OF k30], simp_all)
      then show ?thesis using full dbl small by (simp add: kh_put_room_def)
    qed
  qed
qed

text \<open>
  The bucket \<open>kh_put\<close> picks: the one that holds the key, or one not in use that a later
  search for the key comes by.
\<close>

definition kh_slot_for :: "'v khash \<Rightarrow> iid_t \<Rightarrow> nat \<Rightarrow> bool" where
  "kh_slot_for h key x \<longleftrightarrow> x < n_buckets h \<and>
    (kh_at h key x \<or>
     (\<forall>y. \<not> kh_at h key y) \<and> \<not> kh_exist h x \<and> probe_path (flags h) (n_buckets h) key x)"

lemma kh_put_loop_done:
  "\<not> kh_pass h key i \<Longrightarrow> kh_put_loop h key msk lst i step site =
    Some (if ac_isempty (flags h) i \<and> site \<noteq> n_buckets h then site else i)"
  by (subst kh_put_loop.simps) (auto simp: kh_pass_def)

lemma kh_put_loop_pass:
  "kh_pass h key i \<Longrightarrow> (i + Suc step) AND msk \<noteq> lst \<Longrightarrow>
   kh_put_loop h key msk lst i step site =
   kh_put_loop h key msk lst ((i + Suc step) AND msk) (Suc step)
     (if ac_isdel (flags h) i then i else site)"
  by (subst kh_put_loop.simps) (auto simp: kh_pass_def)

lemma kh_stop_slot_for:
  assumes wf: "kh_wf h" and stop: "kh_stop h key s"
    and x: "x = probe_at (n_buckets h) (unat key) s \<or>
      ac_isempty (flags h) (probe_at (n_buckets h) (unat key) s) \<and>
      (\<exists>t < s. x = probe_at (n_buckets h) (unat key) t \<and> ac_isdel (flags h) x)"
  shows "kh_slot_for h key x"
proof -
  let ?p = "probe_at (n_buckets h) (unat key)"
  have n: "0 < n_buckets h" using wf by (auto elim: kh_wfE)
  have nonempty: "\<not> ac_isempty (flags h) (?p t)" if "t < s" for t
    using stop that by (simp add: kh_stop_def kh_pass_def)
  show ?thesis
  proof (cases "ac_isempty (flags h) (?p s)")
    case True
    have absent: "\<not> kh_at h key y" for y
      using kh_stop_at [OF wf _ stop, of y] True by (auto simp: kh_at_def kh_exist_iff)
    obtain t where "t \<le> s" "x = ?p t" "\<not> kh_exist h x"
      using x True unfolding kh_exist_iff by (metis less_imp_le order_refl)
    then show ?thesis
      using absent nonempty probe_at_less [OF n, of "unat key" t]
      unfolding kh_slot_for_def probe_path_def by (metis less_le_trans)
  next
    case False
    then have "x = ?p s" using x by simp
    moreover have "kh_at h key (?p s)"
      using False stop probe_at_less [OF n, of "unat key" s]
      by (auto simp: kh_at_def kh_stop_def kh_pass_def kh_exist_iff)
    ultimately show ?thesis by (simp add: kh_slot_for_def kh_at_def)
  qed
qed

lemma kh_put_loop_stop:
  assumes k: "n_buckets h = 2 ^ k" and stop: "kh_stop h key s" and "r \<le> s"
    and site: "site = n_buckets h \<or>
      (\<exists>t < s. site = probe_at (2 ^ k) (unat key) t \<and> ac_isdel (flags h) site)"
  shows "\<exists>x. kh_put_loop h key (2 ^ k - 1) (probe_at (2 ^ k) (unat key) 0)
      (probe_at (2 ^ k) (unat key) r) r site = Some x \<and>
    (x = probe_at (2 ^ k) (unat key) s \<or>
     ac_isempty (flags h) (probe_at (2 ^ k) (unat key) s) \<and>
     (\<exists>t < s. x = probe_at (2 ^ k) (unat key) t \<and> ac_isdel (flags h) x))"
  using \<open>r \<le> s\<close> site
proof (induction r arbitrary: site rule: inc_induct)
  case base
  have "\<not> kh_pass h key (probe_at (2 ^ k) (unat key) s)"
    using stop by (simp add: kh_stop_def k)
  then show ?case using base by (auto simp: kh_put_loop_done)
next
  case (step r)
  let ?i = "probe_at (2 ^ k) (unat key) r"
  let ?site = "if ac_isdel (flags h) ?i then ?i else site"
  have pass: "kh_pass h key ?i"
    using stop step.hyps by (simp add: kh_stop_def k)
  have ne: "probe_at (2 ^ k) (unat key) (Suc r) \<noteq> probe_at (2 ^ k) (unat key) 0"
    using stop step.hyps by (intro probe_first_return) (auto simp: kh_stop_def k)
  have "?site = n_buckets h \<or> (\<exists>t < s. ?site = probe_at (2 ^ k) (unat key) t \<and> ac_isdel (flags h) ?site)"
    using step.prems step.hyps by auto
  from step.IH [OF this] show ?case
    using kh_put_loop_pass [OF pass, of r "2 ^ k - 1" "probe_at (2 ^ k) (unat key) 0" site] ne
    unfolding probe_step by metis
qed

lemma kh_put_slot_correct:
  assumes wf: "kh_wf h"
  shows "\<exists>x. kh_put_slot h key = Some x \<and> kh_slot_for h key x"
proof -
  obtain k where k: "n_buckets h = 2 ^ k" using wf by (rule kh_wfE)
  let ?p = "probe_at (2 ^ k) (unat key)"
  obtain s where s: "kh_stop h key s" using wf by (rule kh_stop_exists)
  show ?thesis
  proof (cases "ac_isempty (flags h) (?p 0)")
    case True
    then have "s = 0" using s by (auto simp: kh_stop_def kh_pass_def k)
    then have "kh_slot_for h key (?p 0)" using kh_stop_slot_for [OF wf s, of "?p 0"] k by simp
    then show ?thesis using True unfolding kh_put_slot_def k Let_def probe_start by simp
  next
    case False
    obtain x where "kh_put_loop h key (2 ^ k - 1) (?p 0) (?p 0) 0 (n_buckets h) = Some x"
      and "x = ?p s \<or> ac_isempty (flags h) (?p s) \<and> (\<exists>t < s. x = ?p t \<and> ac_isdel (flags h) x)"
      using kh_put_loop_stop [OF k s, of 0 "n_buckets h"] by auto
    then show ?thesis
      using kh_stop_slot_for [OF wf s, of x] False unfolding kh_put_slot_def k Let_def probe_start
      by auto
  qed
qed

definition kh_insert_at :: "'v khash \<Rightarrow> iid_t \<Rightarrow> nat \<Rightarrow> 'v khash" where
  "kh_insert_at h key x =
    h\<lparr>keys := (keys h)[x := key], flags := ac_set_isboth_false (flags h) x,
      kh_size := kh_size h + 1,
      n_occupied := n_occupied h + (if ac_isempty (flags h) x then 1 else 0)\<rparr>"

lemma kh_insert_at_exist:
  assumes "kh_wf h" "x < n_buckets h"
  shows "kh_exist (kh_insert_at h key x) y \<longleftrightarrow> y = x \<or> kh_exist h y"
    and "ac_isempty (flags (kh_insert_at h key x)) y \<longleftrightarrow> y \<noteq> x \<and> ac_isempty (flags h) y"
  using kh_wf_slot [OF assms]
  by (auto simp: kh_insert_at_def kh_exist_iff flag_set_isboth_false)

lemma kh_insert_at_wf:
  assumes wf: "kh_wf h" and occ: "n_occupied h < upper_bound h"
    and x: "x < n_buckets h" "\<not> kh_exist h x" "probe_path (flags h) (n_buckets h) key x"
    and absent: "\<And>y. \<not> kh_at h key y"
  shows "kh_wf (kh_insert_at h key x)"
proof -
  let ?h = "kh_insert_at h key x" and ?n = "n_buckets h"
  have n: "n_buckets ?h = ?n" and up: "upper_bound ?h = upper_bound h"
    by (simp_all add: kh_insert_at_def)
  note ex = kh_insert_at_exist [OF wf x(1)]
  have L: "{y. y < ?n \<and> kh_exist ?h y} = insert x {y. y < ?n \<and> kh_exist h y}"
    using x(1) ex(1) by auto
  have O: "{y. y < ?n \<and> \<not> ac_isempty (flags ?h) y} = insert x {y. y < ?n \<and> \<not> ac_isempty (flags h) y}"
    using x(1) ex(2) by auto
  have len: "length (keys h) = ?n" using wf by (simp add: kh_wf_def)
  have size: "kh_size ?h = card {y. y < ?n \<and> kh_exist ?h y}"
    unfolding L using wf x(2) by (simp add: kh_insert_at_def kh_wf_def)
  have occ': "n_occupied ?h = card {y. y < ?n \<and> \<not> ac_isempty (flags ?h) y}"
    unfolding O using wf x(1) by (auto simp: kh_insert_at_def kh_wf_def insert_absorb)
  have inj: "inj_on (\<lambda>y. keys ?h ! y) {y. y < ?n \<and> kh_exist ?h y}"
  proof -
    have keys: "keys ?h = (keys h)[x := key]" by (simp add: kh_insert_at_def)
    have "key \<notin> (\<lambda>y. keys h ! y) ` {y. y < ?n \<and> kh_exist h y}"
      using absent by (auto simp: kh_at_def)
    moreover have "inj_on (\<lambda>y. keys h ! y) {y. y < ?n \<and> kh_exist h y}"
      using wf by (simp add: kh_ok_inj kh_ok_def)
    ultimately show ?thesis
      unfolding L keys using x len by (intro inj_on_slots_upd) auto
  qed
  have path: "probe_path (flags ?h) ?n (keys ?h ! y) y" if "y < ?n" "kh_exist ?h y" for y
  proof -
    have "probe_path (flags h) ?n (keys ?h ! y) y"
      using that x ex(1) wf len by (cases "y = x") (auto simp: kh_insert_at_def kh_wf_def)
    then show ?thesis by (rule probe_path_mono) (simp add: ex(2))
  qed
  show ?thesis
    unfolding kh_wf_def n up
  proof (intro conjI)
    show "n_occupied ?h \<le> upper_bound h" using occ by (simp add: kh_insert_at_def)
    show "\<exists>k \<ge> 2. k \<le> 31 \<and> ?n = 2 ^ k" using wf by (simp add: kh_wf_def)
    show "\<forall>y < ?n. kh_exist ?h y \<longrightarrow> probe_path (flags ?h) ?n (keys ?h ! y) y" using path by blast
  qed (use size occ' inj wf in \<open>auto simp: kh_insert_at_def kh_wf_def\<close>)
qed

lemma kh_put_cases:
  assumes ok: "kh_ok h" and room: "kh_room h"
  obtains (present) h1 x where "kh_put h key = Some (h1, x, 0)" "kh_wf h1" "kh_rel h1 = kh_rel h"
      "kh_at h1 key x" "kh_size h1 = kh_size h"
  | (fresh) h1 x rv where "kh_put h key = Some (kh_insert_at h1 key x, x, rv)" "0 < rv"
      "kh_wf h1" "kh_rel h1 = kh_rel h" "kh_wf (kh_insert_at h1 key x)"
      "x < n_buckets h1" "\<not> kh_exist h1 x" "\<And>y. \<not> kh_at h1 key y" "kh_size h1 = kh_size h"
proof -
  obtain h1 where r: "kh_put_room h = Some h1" "kh_wf h1" "kh_rel h1 = kh_rel h"
    "n_occupied h1 < upper_bound h1" "kh_size h1 = kh_size h"
    using kh_put_room_correct [OF ok room] by blast
  obtain x where x: "kh_put_slot h1 key = Some x" "kh_slot_for h1 key x"
    using kh_put_slot_correct [OF r(2)] by blast
  show thesis
  proof (cases "kh_at h1 key x")
    case True
    then have "kh_put h key = Some (h1, x, 0)"
      using r(1) x(1) by (simp add: kh_put_def kh_at_def kh_exist_iff)
    then show thesis by (rule present [OF _ r(2,3) True r(5)])
  next
    case False
    then have f: "x < n_buckets h1" "\<not> kh_exist h1 x" "\<And>y. \<not> kh_at h1 key y"
      "probe_path (flags h1) (n_buckets h1) key x"
      using x(2) by (auto simp: kh_slot_for_def)
    then have put: "kh_put h key =
        Some (kh_insert_at h1 key x, x, if ac_isempty (flags h1) x then 1 else 2)"
      using r(1) x(1) by (auto simp: kh_put_def kh_insert_at_def kh_exist_iff)
    have ins: "kh_wf (kh_insert_at h1 key x)"
      using r f by (intro kh_insert_at_wf) auto
    have "0 < (if ac_isempty (flags h1) x then 1 else 2 :: int)" by simp
    from fresh [OF put this r(2,3) ins f(1,2,3) r(5)] show thesis .
  qed
qed

lemma kh_del_exist:
  assumes "kh_wf h" "x < n_buckets h" "kh_exist h x"
  shows "kh_exist (kh_del h x) y \<longleftrightarrow> y \<noteq> x \<and> kh_exist h y"
    and "ac_isempty (flags (kh_del h x)) y = ac_isempty (flags h) y"
  using assms(2,3) kh_wf_slot [OF assms(1,2)]
  by (auto simp: kh_del_def kh_exist_iff ac_iseither_iff flag_set_isdel_true)

lemma kh_del_wf:
  assumes wf: "kh_wf h" and x: "x < n_buckets h" "kh_exist h x"
  shows "kh_wf (kh_del h x)"
proof -
  let ?h = "kh_del h x" and ?n = "n_buckets h"
  have del: "?h = h\<lparr>flags := ac_set_isdel_true (flags h) x, kh_size := kh_size h - 1\<rparr>"
    using x by (simp add: kh_del_def kh_exist_def)
  note ex = kh_del_exist [OF wf x]
  have L: "{y. y < ?n \<and> kh_exist ?h y} = {y. y < ?n \<and> kh_exist h y} - {x}" using ex(1) by auto
  have "kh_size ?h = card {y. y < ?n \<and> kh_exist ?h y}"
    unfolding L using wf x by (simp add: del kh_wf_def)
  moreover have "inj_on (\<lambda>y. keys h ! y) {y. y < ?n \<and> kh_exist ?h y}"
    unfolding L using wf by (auto simp: kh_wf_def intro: inj_on_subset)
  moreover have "n_occupied h = card {y. y < ?n \<and> \<not> ac_isempty (flags ?h) y}"
    using wf by (simp add: ex(2) kh_wf_def)
  moreover have "\<forall>y < ?n. kh_exist ?h y \<longrightarrow> probe_path (flags ?h) ?n (keys h ! y) y"
    using wf ex by (auto simp: kh_wf_def elim!: probe_path_mono)
  moreover have "n_buckets ?h = ?n" "keys ?h = keys h" "vals ?h = vals h"
    "upper_bound ?h = upper_bound h" "n_occupied ?h = n_occupied h" "length (flags ?h) = length (flags h)"
    by (simp_all add: del)
  ultimately show ?thesis using wf by (simp add: kh_wf_def)
qed

lemma kh_set_value_wf: "kh_wf (kh_set_value h x v) = kh_wf h"
  by (simp add: kh_wf_def kh_set_value_def kh_exist_def)

end
