(* ===== verification/Khash_Map.thy ===== *)
theory Khash_Map
  imports Khash
begin

text \<open>
  The contract the rest of the program relies on when it uses a hash table. The locale
  \<open>iid_table\<close> states it over any implementation of the operations; the interpretation \<open>kh\<close> at
  the end discharges it for the open-addressing table of \<open>Khash\<close>. \<open>lookup\<close> is the finite map
  the table stands for, and \<open>at t key x\<close> says that iterator \<open>x\<close> points at \<open>key\<close>.
\<close>

section \<open>The interface\<close>

locale iid_table =
  fixes invar :: "'t \<Rightarrow> bool"
    and lookup :: "'t \<Rightarrow> iid_t \<Rightarrow> 'v option"
    and at :: "'t \<Rightarrow> iid_t \<Rightarrow> nat \<Rightarrow> bool"
    and room :: "'t \<Rightarrow> bool"
    and get :: "'t \<Rightarrow> iid_t \<Rightarrow> nat option"
    and tend :: "'t \<Rightarrow> nat"
    and val :: "'t \<Rightarrow> nat \<Rightarrow> 'v option"
    and set_val :: "'t \<Rightarrow> nat \<Rightarrow> 'v \<Rightarrow> 't"
    and put :: "'t \<Rightarrow> iid_t \<Rightarrow> ('t \<times> nat \<times> int) option"
    and del :: "'t \<Rightarrow> nat \<Rightarrow> 't"
  assumes get_absent: "invar t \<Longrightarrow> lookup t k = None \<Longrightarrow> get t k = Some (tend t)"
    and get_present: "invar t \<Longrightarrow> lookup t k = Some v \<Longrightarrow> \<exists>x. get t k = Some x \<and> at t k x"
    and at_neq_end: "invar t \<Longrightarrow> at t k x \<Longrightarrow> x \<noteq> tend t"
    and val_at: "invar t \<Longrightarrow> at t k x \<Longrightarrow> val t x = lookup t k"
    and lookup_set_val: "invar t \<Longrightarrow> at t k x \<Longrightarrow> lookup (set_val t x v) = (lookup t)(k \<mapsto> v)"
    and invar_set_val: "invar t \<Longrightarrow> at t k x \<Longrightarrow> invar (set_val t x v)"
    and lookup_del: "invar t \<Longrightarrow> at t k x \<Longrightarrow> lookup (del t x) = (lookup t)(k := None)"
    and invar_del: "invar t \<Longrightarrow> at t k x \<Longrightarrow> invar (del t x)"
    and put_set_val: "invar t \<Longrightarrow> room t \<Longrightarrow>
      \<exists>t' x rv. put t k = Some (t', x, rv) \<and> 0 \<le> rv \<and> (rv = 0 \<longleftrightarrow> lookup t k \<noteq> None) \<and>
        (\<forall>v. invar (set_val t' x v) \<and> lookup (set_val t' x v) = (lookup t)(k \<mapsto> v)) \<and>
        (rv = 0 \<longrightarrow> val t' x = lookup t k)"
begin

text \<open>Every lookup of a client is one of these two cases.\<close>

lemma lookup_cases:
  assumes "invar t"
  obtains (absent) "lookup t k = None" "get t k = Some (tend t)"
  | (present) x v where "lookup t k = Some v" "get t k = Some x" "at t k x" "x \<noteq> tend t"
      "val t x = Some v"
  using assms get_absent get_present at_neq_end val_at by (metis not_None_eq)

lemma store_new:
  assumes "invar t" "room t" "lookup t k = None"
  obtains t' x rv where "put t k = Some (t', x, rv)" "0 < rv"
    "invar (set_val t' x v)" "lookup (set_val t' x v) = (lookup t)(k \<mapsto> v)"
proof -
  obtain t' x rv where "put t k = Some (t', x, rv)" "0 \<le> rv" "rv = 0 \<longleftrightarrow> lookup t k \<noteq> None"
    "invar (set_val t' x v)" "lookup (set_val t' x v) = (lookup t)(k \<mapsto> v)"
    using put_set_val [OF assms(1,2), of k] by blast
  with assms(3) show thesis by (intro that) auto
qed

lemma put_present:
  assumes "invar t" "room t" "lookup t k = Some v"
  obtains t' x where "put t k = Some (t', x, 0)" "val t' x = Some v"
  using put_set_val [OF assms(1,2), of k] assms(3) that by auto

end

section \<open>The map of a table\<close>

lemma kh_map_iff:
  assumes "kh_ok h"
  shows "kh_map h key = Some v \<longleftrightarrow> (\<exists>x. kh_at h key x \<and> vals h ! x = Some v)"
proof -
  have "inj_on (\<lambda>x. keys h ! x) {x \<in> set [0..<n_buckets h]. kh_exist h x}"
    using kh_ok_inj [OF assms] by simp
  note eq = map_of_filter_map_eq_Some [OF this, where g = "\<lambda>x. vals h ! x"]
  have "kh_map h key = Some v \<longleftrightarrow>
      map_of (map (\<lambda>x. (keys h ! x, vals h ! x)) (kh_buckets h)) key = Some (Some v)"
    by (auto simp: kh_map_def bind_eq_Some_conv)
  then show ?thesis unfolding kh_buckets_def eq by (auto simp: kh_at_def)
qed

lemma kh_map_rel: "kh_ok h \<Longrightarrow> kh_map h key = Some v \<longleftrightarrow> (key, Some v) \<in> kh_rel h"
  by (auto simp: kh_map_iff kh_rel_def kh_at_def image_iff)

lemma kh_map_eqI: "kh_ok h \<Longrightarrow> kh_ok h' \<Longrightarrow> kh_rel h = kh_rel h' \<Longrightarrow> kh_map h = kh_map h'"
  by (rule ext) (metis kh_map_rel not_Some_eq)

lemma kh_map_at_bucket: "kh_ok h \<Longrightarrow> kh_map h k = Some v \<Longrightarrow> \<exists>x \<in> set [0..<kh_end h]. kh_at h k x"
  by (auto simp: kh_map_iff kh_at_def kh_end_def)

lemma kh_at_unique: "kh_ok h \<Longrightarrow> kh_at h key x \<Longrightarrow> kh_at h key y \<Longrightarrow> x = y"
  using kh_ok_inj by (auto simp: kh_at_def dest: inj_onD)

lemma kh_map_at: "kh_ok h \<Longrightarrow> kh_at h key x \<Longrightarrow> kh_map h key = vals h ! x"
  by (metis kh_at_unique kh_map_iff not_Some_eq)

lemma kh_at_ok_wf: "kh_ok h \<Longrightarrow> kh_at h key x \<Longrightarrow> kh_wf h"
  by (auto simp: kh_ok_def kh_at_def kh_init_def)

lemma kh_inv_at: "kh_inv h \<Longrightarrow> kh_at h key x \<Longrightarrow> \<exists>v. vals h ! x = Some v"
  by (auto simp: kh_inv_def kh_at_def)

lemma kh_inv_wf: "kh_inv h \<Longrightarrow> kh_at h key x \<Longrightarrow> kh_wf h"
  by (auto simp: kh_inv_def intro: kh_at_ok_wf)

lemma kh_value_at: "kh_inv h \<Longrightarrow> kh_at h key x \<Longrightarrow> kh_value h x = kh_map h key"
  using kh_ok_lengths(2) [of h] by (auto simp: kh_inv_def kh_value_def kh_map_at kh_at_def)

lemma kh_map_ext:
  assumes "kh_ok h'" and "\<And>k v. (\<exists>x. kh_at h' k x \<and> vals h' ! x = Some v) \<longleftrightarrow> m k = Some v"
  shows "kh_map h' = m"
  using assms by (intro ext) (metis kh_map_iff not_Some_eq)

section \<open>The laws\<close>

lemma kh_init_inv [simp]: "kh_inv kh_init" and kh_map_init [simp]: "kh_map kh_init = Map.empty"
  by (auto simp: kh_inv_def kh_ok_def kh_init_def kh_map_def kh_buckets_def)

lemma kh_room_init [simp]: "kh_room kh_init"
  by (simp add: kh_room_def kh_init_def)

lemma kh_get_none: "kh_inv h \<Longrightarrow> kh_map h key = None \<Longrightarrow> kh_get h key = Some (kh_end h)"
proof -
  assume inv: "kh_inv h" and none: "kh_map h key = None"
  have absent: "\<not> kh_at h key x" for x
    using inv none kh_inv_at [OF inv, of key x] kh_map_at [of h key x] by (auto simp: kh_inv_def)
  show ?thesis
  proof (cases "h = kh_init")
    case True
    then show ?thesis by (simp add: kh_get_def kh_init_def kh_end_def)
  next
    case False
    then have "kh_wf h" using inv by (simp add: kh_inv_def kh_ok_def)
    then show ?thesis using absent by (rule kh_get_absent)
  qed
qed

lemma kh_get_some: "kh_inv h \<Longrightarrow> kh_map h key = Some v \<Longrightarrow> \<exists>x. kh_get h key = Some x \<and> kh_at h key x"
  by (metis kh_at_ok_wf kh_get_at kh_inv_def kh_map_iff)

lemma kh_set_value_at [simp]: "kh_at (kh_set_value h x v) key y = kh_at h key y"
  by (simp add: kh_at_def kh_set_value_def kh_exist_def)

lemma kh_set_value_ok: "kh_wf h \<Longrightarrow> kh_ok (kh_set_value h x v)"
  by (simp add: kh_ok_def kh_set_value_wf)

lemma kh_vals_set_value:
  "kh_wf h \<Longrightarrow> x < n_buckets h \<Longrightarrow>
    vals (kh_set_value h x v) ! y = (if y = x then Some v else vals h ! y)"
  by (auto simp: kh_set_value_def kh_wf_def)

lemma kh_map_set_value:
  assumes "kh_inv h" "kh_at h key x"
  shows "kh_map (kh_set_value h x v) = (kh_map h)(key \<mapsto> v)"
proof (rule kh_map_ext)
  have wf: "kh_wf h" using assms by (rule kh_inv_wf)
  then have ok: "kh_ok h" by (simp add: kh_ok_def)
  show "kh_ok (kh_set_value h x v)" using wf by (rule kh_set_value_ok)
  have x: "x < n_buckets h" "keys h ! x = key" using assms(2) by (auto simp: kh_at_def)
  fix k w
  have "(\<exists>y. kh_at h k y \<and> (if y = x then Some v else vals h ! y) = Some w) \<longleftrightarrow>
      (if k = key then v = w else \<exists>y. kh_at h k y \<and> vals h ! y = Some w)"
    using assms(2) kh_at_unique [OF ok, of k] x(2) unfolding kh_at_def by (metis option.inject)
  then show "(\<exists>y. kh_at (kh_set_value h x v) k y \<and> vals (kh_set_value h x v) ! y = Some w) \<longleftrightarrow>
      ((kh_map h)(key \<mapsto> v)) k = Some w"
    using kh_map_iff [OF ok, of k w] by (simp add: kh_vals_set_value [OF wf x(1)])
qed

lemma kh_inv_set_value: "kh_inv h \<Longrightarrow> kh_at h key x \<Longrightarrow> kh_inv (kh_set_value h x v)"
proof -
  assume inv: "kh_inv h" and at: "kh_at h key x"
  have wf: "kh_wf h" using inv at by (rule kh_inv_wf)
  have "x < n_buckets h" using at by (simp add: kh_at_def)
  then show ?thesis
    using inv kh_vals_set_value [OF wf, of x v] kh_set_value_ok [OF wf, of x v]
    by (auto simp: kh_inv_def kh_exist_def kh_set_value_def)
qed

lemma kh_del_fields [simp]:
  "n_buckets (kh_del h x) = n_buckets h" "keys (kh_del h x) = keys h" "vals (kh_del h x) = vals h"
  by (simp_all add: kh_del_def)

lemma kh_del_at:
  "kh_wf h \<Longrightarrow> kh_at h key x \<Longrightarrow> kh_at (kh_del h x) k y \<longleftrightarrow> y \<noteq> x \<and> kh_at h k y"
  by (auto simp: kh_at_def kh_del_exist)

lemma kh_map_del:
  assumes "kh_inv h" "kh_at h key x"
  shows "kh_map (kh_del h x) = (kh_map h)(key := None)"
proof (rule kh_map_ext)
  have wf: "kh_wf h" using assms by (rule kh_inv_wf)
  then have ok: "kh_ok h" by (simp add: kh_ok_def)
  have x: "x < n_buckets h" "kh_exist h x" "keys h ! x = key" using assms(2) by (auto simp: kh_at_def)
  show "kh_ok (kh_del h x)" using kh_del_wf [OF wf x(1,2)] by (simp add: kh_ok_def)
  fix k w
  have "(\<exists>y. (y \<noteq> x \<and> kh_at h k y) \<and> vals h ! y = Some w) \<longleftrightarrow>
      (k \<noteq> key \<and> (\<exists>y. kh_at h k y \<and> vals h ! y = Some w))"
    using kh_at_unique [OF ok assms(2)] x(3) unfolding kh_at_def by metis
  then show "(\<exists>y. kh_at (kh_del h x) k y \<and> vals (kh_del h x) ! y = Some w) \<longleftrightarrow>
      ((kh_map h)(key := None)) k = Some w"
    using kh_map_iff [OF ok, of k w] by (simp add: kh_del_at [OF wf assms(2)])
qed

lemma kh_inv_del: "kh_inv h \<Longrightarrow> kh_at h key x \<Longrightarrow> kh_inv (kh_del h x)"
proof -
  assume inv: "kh_inv h" and at: "kh_at h key x"
  have wf: "kh_wf h" using inv at by (rule kh_inv_wf)
  have x: "x < n_buckets h" "kh_exist h x" using at by (auto simp: kh_at_def)
  show ?thesis
    using inv kh_del_wf [OF wf x] kh_del_exist(1) [OF wf x] by (simp add: kh_inv_def kh_ok_def)
qed

lemma kh_insert_at_at:
  assumes "kh_wf h" "x < n_buckets h" "\<And>y. \<not> kh_at h key y"
  shows "kh_at (kh_insert_at h key x) k y \<longleftrightarrow> (y = x \<and> k = key) \<or> (y \<noteq> x \<and> kh_at h k y)"
  using kh_insert_at_exist(1) [OF assms(1,2)] assms
  by (auto simp: kh_at_def kh_insert_at_def kh_wf_def nth_list_update)

lemma kh_map_rel_None:
  assumes "kh_inv h" "kh_ok h1" "kh_rel h1 = kh_rel h"
  shows "kh_map h key = None \<longleftrightarrow> (\<forall>x. \<not> kh_at h1 key x)"
proof -
  have "kh_ok h" using assms(1) by (simp add: kh_inv_def)
  have "(key, vals h1 ! x) \<in> kh_rel h1" if "kh_at h1 key x" for x
    using that by (auto simp: kh_rel_def kh_at_def)
  moreover have "\<exists>v. w = Some v" if "(key, w) \<in> kh_rel h" for w
    using that assms(1) by (auto simp: kh_rel_def kh_inv_def)
  ultimately show ?thesis
    using kh_map_rel [OF \<open>kh_ok h\<close>, of key] kh_map_iff [OF assms(2), of key]
      kh_map_eqI [OF \<open>kh_ok h\<close> assms(2)] assms(3)
    by (metis not_Some_eq)
qed

lemma kh_inv_rel: "kh_inv h \<Longrightarrow> kh_ok h1 \<Longrightarrow> kh_rel h1 = kh_rel h \<Longrightarrow> kh_inv h1"
proof -
  assume inv: "kh_inv h" and ok: "kh_ok h1" and rel: "kh_rel h1 = kh_rel h"
  have "\<exists>v. vals h1 ! x = Some v" if "x < n_buckets h1" "kh_exist h1 x" for x
  proof -
    have "(keys h1 ! x, vals h1 ! x) \<in> kh_rel h1" using that by (auto simp: kh_rel_def)
    then have "(keys h1 ! x, vals h1 ! x) \<in> kh_rel h" by (simp add: rel)
    then show ?thesis using inv by (auto simp: kh_rel_def kh_inv_def)
  qed
  then show ?thesis using ok by (simp add: kh_inv_def)
qed

lemma kh_map_insert_set_value:
  assumes wf: "kh_wf h" and wf': "kh_wf (kh_insert_at h key x)"
    and x: "x < n_buckets h" "\<not> kh_exist h x" and absent: "\<And>y. \<not> kh_at h key y"
  shows "kh_map (kh_set_value (kh_insert_at h key x) x v) = (kh_map h)(key \<mapsto> v)"
proof (rule kh_map_ext)
  let ?h = "kh_insert_at h key x"
  have ok: "kh_ok h" using wf by (simp add: kh_ok_def)
  have x': "x < n_buckets ?h" and vs: "vals ?h = vals h" using x by (simp_all add: kh_insert_at_def)
  show "kh_ok (kh_set_value ?h x v)" using wf' by (rule kh_set_value_ok)
  fix k w
  have "\<not> kh_at h k x" using x by (simp add: kh_at_def)
  then have "(\<exists>y. ((y = x \<and> k = key) \<or> (y \<noteq> x \<and> kh_at h k y)) \<and>
        (if y = x then Some v else vals h ! y) = Some w)
      \<longleftrightarrow> (if k = key then v = w else \<exists>y. kh_at h k y \<and> vals h ! y = Some w)"
    using absent by auto metis
  then show "(\<exists>y. kh_at (kh_set_value ?h x v) k y \<and> vals (kh_set_value ?h x v) ! y = Some w) \<longleftrightarrow>
      ((kh_map h)(key \<mapsto> v)) k = Some w"
    unfolding kh_set_value_at kh_vals_set_value [OF wf' x'] vs kh_insert_at_at [OF wf x(1) absent]
    using kh_map_iff [OF ok, of k w] by simp
qed

lemma kh_inv_insert_set_value:
  assumes inv: "kh_inv h" and wf: "kh_wf h" and wf': "kh_wf (kh_insert_at h key x)"
    and x: "x < n_buckets h"
  shows "kh_inv (kh_set_value (kh_insert_at h key x) x v)"
proof -
  let ?h = "kh_insert_at h key x"
  have n: "n_buckets ?h = n_buckets h" and vs: "vals ?h = vals h" by (simp_all add: kh_insert_at_def)
  have ex: "kh_exist (kh_set_value ?h x v) y \<longleftrightarrow> y = x \<or> kh_exist h y" for y
    using kh_insert_at_exist(1) [OF wf x] by (simp add: kh_exist_def kh_set_value_def)
  have "n_buckets (kh_set_value ?h x v) = n_buckets h" by (simp add: kh_set_value_def n)
  with ex show ?thesis
    using inv kh_vals_set_value [OF wf', of x v] kh_set_value_ok [OF wf', of x v] x n vs
    by (auto simp: kh_inv_def)
qed

lemma kh_put_set_value:
  assumes inv: "kh_inv h" and room: "kh_room h"
  shows "\<exists>h' x rv. kh_put h key = Some (h', x, rv) \<and> 0 \<le> rv \<and> (rv = 0 \<longleftrightarrow> kh_map h key \<noteq> None) \<and>
    (\<forall>v. kh_inv (kh_set_value h' x v) \<and> kh_map (kh_set_value h' x v) = (kh_map h)(key \<mapsto> v)) \<and>
    (rv = 0 \<longrightarrow> kh_value h' x = kh_map h key)"
proof -
  have ok: "kh_ok h" using inv by (simp add: kh_inv_def)
  from ok room show ?thesis
  proof (cases rule: kh_put_cases [where key = key])
    case (present h1 x)
    have ok1: "kh_ok h1" using present(2) by (simp add: kh_ok_def)
    have inv1: "kh_inv h1" using inv ok1 present(3) by (rule kh_inv_rel)
    have m: "kh_map h1 = kh_map h" using ok1 ok present(3) by (rule kh_map_eqI)
    have "kh_map h key \<noteq> None" using kh_map_rel_None [OF inv ok1 present(3)] present(4) by blast
    then show ?thesis
      using present(1) kh_map_set_value [OF inv1 present(4)] kh_inv_set_value [OF inv1 present(4)]
        kh_value_at [OF inv1 present(4)] m by simp
  next
    case (fresh h1 x rv)
    have ok1: "kh_ok h1" using fresh(3) by (simp add: kh_ok_def)
    have inv1: "kh_inv h1" using inv ok1 fresh(4) by (rule kh_inv_rel)
    have m: "kh_map h1 = kh_map h" using ok1 ok fresh(4) by (rule kh_map_eqI)
    have "kh_map h key = None" using kh_map_rel_None [OF inv ok1 fresh(4)] fresh(8) by blast
    then show ?thesis
      using fresh(1,2) kh_map_insert_set_value [OF fresh(3,5,6,7,8)]
        kh_inv_insert_set_value [OF inv1 fresh(3,5,6)] m by simp
  qed
qed

interpretation kh: iid_table kh_inv kh_map kh_at kh_room kh_get kh_end kh_value kh_set_value
  kh_put kh_del
proof unfold_locales
  show "x \<noteq> kh_end t" if "kh_at t k x" for t :: "'a khash" and k x
    using that by (auto simp: kh_at_def kh_end_def)
qed (fact kh_get_none kh_get_some kh_value_at kh_map_set_value kh_inv_set_value kh_map_del kh_inv_del
  kh_put_set_value)+

section \<open>Sizes and iteration\<close>

lemma kh_rel_dom: "kh_inv h \<Longrightarrow> dom (kh_map h) = fst ` kh_rel h"
proof -
  assume inv: "kh_inv h"
  have "w \<noteq> None" if "(k, w) \<in> kh_rel h" for k w
    using that inv by (auto simp: kh_rel_def kh_inv_def)
  then show ?thesis
    using kh_map_rel [of h] inv by (force simp: kh_inv_def image_iff dom_def)
qed

lemma kh_size_dom: "kh_inv h \<Longrightarrow> kh_size h = card (dom (kh_map h))"
  by (simp add: kh_rel_dom kh_size_rel kh_inv_def)

lemma finite_dom_kh_map: "finite (dom (kh_map h))"
proof -
  have "dom (kh_map h) \<subseteq> dom (map_of (map (\<lambda>x. (keys h ! x, vals h ! x)) (kh_buckets h)))"
    by (auto simp: kh_map_def bind_eq_Some_conv)
  then show ?thesis by (rule finite_subset) (rule finite_dom_map_of)
qed

lemma kh_room_dom: "kh_inv h \<Longrightarrow> kh_room h \<longleftrightarrow> card (dom (kh_map h)) < 2 ^ 30"
  by (simp add: kh_room_def kh_size_dom)

lemma distinct_kh_buckets [simp]: "distinct (kh_buckets h)"
  by (simp add: kh_buckets_def)

lemma kh_buckets_at: "x \<in> set (kh_buckets h) \<longleftrightarrow> kh_at h (keys h ! x) x"
  by (auto simp: kh_buckets_def kh_at_def)

text \<open>A loop from \<open>kh_begin\<close> to \<open>kh_end\<close> visits exactly the entries of the map.\<close>

lemma kh_buckets_values:
  assumes "kh_inv h"
  shows "(\<exists>x \<in> set (kh_buckets h). kh_value h x = Some v) \<longleftrightarrow> v \<in> ran (kh_map h)"
proof -
  have ok: "kh_ok h" using assms by (simp add: kh_inv_def)
  show ?thesis
  proof
    assume "\<exists>x \<in> set (kh_buckets h). kh_value h x = Some v"
    then obtain x where "kh_at h (keys h ! x) x" "kh_value h x = Some v" by (auto simp: kh_buckets_at)
    then show "v \<in> ran (kh_map h)" using kh_value_at [OF assms] by (auto simp: ran_def)
  next
    assume "v \<in> ran (kh_map h)"
    then obtain k x where "kh_at h k x" "kh_map h k = Some v"
      by (auto simp: ran_def kh_map_iff [OF ok])
    then show "\<exists>x \<in> set (kh_buckets h). kh_value h x = Some v"
      using kh_value_at [OF assms] by (metis kh_at_def kh_buckets_at)
  qed
qed

end
