(* ===== verification/Storage_Mem.thy ===== *)
theory Storage_Mem
  imports Storage Khash_Map
begin

text \<open>
  The in-memory backend (\<open>paxos/storage_mem.c\<close>): a hash table from instances to accepted
  records and a trim instance. The interpretation \<open>ms\<close> shows that it satisfies the contract of
  a backend, on top of the contract of the hash table.
\<close>

section \<open>Operations\<close>

record mem_storage =
  ms_trim_iid :: iid_t
  ms_records :: "paxos_accepted khash"

definition mem_storage_new :: "int \<Rightarrow> mem_storage" where
  "mem_storage_new acceptor_id = \<lparr>ms_trim_iid = 0, ms_records = kh_init\<rparr>"

definition mem_storage_open :: "mem_storage \<Rightarrow> (int \<times> mem_storage) option" where
  "mem_storage_open s = Some (0, s)"

text \<open>Closing reads and releases every record; nothing of the store is left.\<close>

primrec mem_close_loop :: "paxos_accepted khash \<Rightarrow> nat list \<Rightarrow> unit option" where
  "mem_close_loop h [] = Some ()"
| "mem_close_loop h (k # ks) = do {
     (if kh_exist h k then do { accepted \<leftarrow> kh_value h k; Some () } else Some ());
     mem_close_loop h ks
   }"

definition mem_storage_close :: "mem_storage \<Rightarrow> unit option" where
  "mem_storage_close s = mem_close_loop (ms_records s) [0..<kh_end (ms_records s)]"

definition mem_storage_tx_begin :: "mem_storage \<Rightarrow> (int \<times> mem_storage) option" where
  "mem_storage_tx_begin s = Some (0, s)"

definition mem_storage_tx_commit :: "mem_storage \<Rightarrow> (int \<times> mem_storage) option" where
  "mem_storage_tx_commit s = Some (0, s)"

definition mem_storage_tx_abort :: "mem_storage \<Rightarrow> mem_storage option" where
  "mem_storage_tx_abort s = Some s"

definition paxos_accepted_copy :: "paxos_accepted \<Rightarrow> paxos_accepted option" where
  "paxos_accepted_copy src =
    (if paxos_value_len (pvalue src) > 0 then do {
       bs \<leftarrow> mem_read (paxos_value_val (pvalue src)) (nat (paxos_value_len (pvalue src)));
       Some (src\<lparr>pvalue := (pvalue src)\<lparr>paxos_value_val := Some bs\<rparr>\<rparr>)
     } else Some src)"

definition mem_storage_get ::
  "mem_storage \<Rightarrow> iid_t \<Rightarrow> paxos_accepted \<Rightarrow> (int \<times> paxos_accepted \<times> mem_storage) option" where
  "mem_storage_get s i out = do {
     k \<leftarrow> kh_get (ms_records s) i;
     if k = kh_end (ms_records s) then Some (0, out, s)
     else do {
       r \<leftarrow> kh_value (ms_records s) k;
       out \<leftarrow> paxos_accepted_copy r;
       Some (1, out, s)
     }
   }"

definition mem_storage_put :: "mem_storage \<Rightarrow> paxos_accepted \<Rightarrow> (int \<times> mem_storage) option" where
  "mem_storage_put s acc = do {
     record \<leftarrow> paxos_accepted_copy acc;
     (h, k, rv) \<leftarrow> kh_put (ms_records s) (iid acc);
     if rv = -1 then Some (-1, s\<lparr>ms_records := h\<rparr>)
     else do {
       (if rv = 0 then do { old \<leftarrow> kh_value h k; Some () } else Some ());
       Some (0, s\<lparr>ms_records := kh_set_value h k record\<rparr>)
     }
   }"

primrec mem_trim_loop :: "iid_t \<Rightarrow> nat list \<Rightarrow> paxos_accepted khash \<Rightarrow> paxos_accepted khash option" where
  "mem_trim_loop i [] h = Some h"
| "mem_trim_loop i (k # ks) h = do {
     h \<leftarrow> (if kh_exist h k then do {
            acc \<leftarrow> kh_value h k;
            Some (if iid acc \<le> i then kh_del h k else h)
          } else Some h);
     mem_trim_loop i ks h
   }"

definition mem_storage_trim :: "mem_storage \<Rightarrow> iid_t \<Rightarrow> (int \<times> mem_storage) option" where
  "mem_storage_trim s i = do {
     h \<leftarrow> mem_trim_loop i [0..<kh_end (ms_records s)] (ms_records s);
     Some (0, s\<lparr>ms_records := h, ms_trim_iid := i\<rparr>)
   }"

definition mem_storage_get_trim_instance :: "mem_storage \<Rightarrow> (iid_t \<times> mem_storage) option" where
  "mem_storage_get_trim_instance s = Some (ms_trim_iid s, s)"

definition mem_api :: "mem_storage storage_api" where
  "mem_api =
    \<lparr>api_open = mem_storage_open, api_close = mem_storage_close,
     api_tx_begin = mem_storage_tx_begin, api_tx_commit = mem_storage_tx_commit,
     api_tx_abort = mem_storage_tx_abort, api_get = mem_storage_get, api_put = mem_storage_put,
     api_trim = mem_storage_trim, api_get_trim_instance = mem_storage_get_trim_instance\<rparr>"

definition storage_init_mem :: "int \<Rightarrow> mem_storage storage" where
  "storage_init_mem acceptor_id = \<lparr>handle = mem_storage_new acceptor_id, api = mem_api\<rparr>"

text \<open>
  The choice of the backend, as the build without \<open>HAS_LMDB\<close> has it: the case for LMDB is not compiled,
  and any other backend logs an error and ends the process, which is no return here. In a build
  with LMDB that case calls \<open>storage_init_lmdb\<close>, whose handle has another type; it is in
  \<open>Storage_Lmdb\<close>, and an acceptor on it starts with \<open>acceptor_start\<close>.
\<close>

definition storage_init :: "paxos_config \<Rightarrow> int \<Rightarrow> mem_storage storage option" where
  "storage_init cfg acceptor_id =
    (case storage_backend cfg of
       PAXOS_MEM_STORAGE \<Rightarrow> Some (storage_init_mem acceptor_id)
     | _ \<Rightarrow> None)"

section \<open>The contract\<close>

definition mem_recs :: "mem_storage \<Rightarrow> iid_t \<Rightarrow> paxos_accepted option" where
  "mem_recs s = kh_map (ms_records s)"

definition mem_inv :: "mem_storage \<Rightarrow> bool" where
  "mem_inv s \<longleftrightarrow> kh_inv (ms_records s) \<and>
     (\<forall>i r. mem_recs s i = Some r \<longrightarrow> iid r = i \<and> value_wf (pvalue r))"

definition mem_room :: "mem_storage \<Rightarrow> bool" where
  "mem_room s \<longleftrightarrow> kh_room (ms_records s)"

lemma paxos_accepted_copy_wf: "value_wf (pvalue r) \<Longrightarrow> paxos_accepted_copy r = Some r"
  using value_wf_read [of "pvalue r"]
  by (auto simp: paxos_accepted_copy_def value_bytes_def value_wf_def buf_len_def split: option.splits)

lemma mem_get_absent: "mem_inv s \<Longrightarrow> mem_recs s i = None \<Longrightarrow> mem_storage_get s i out = Some (0, out, s)"
  using kh.get_absent [of "ms_records s" i] by (simp add: mem_storage_get_def mem_inv_def mem_recs_def)

lemma mem_get_present:
  assumes inv: "mem_inv s" and r: "mem_recs s i = Some r"
  shows "mem_storage_get s i out = Some (1, r, s)"
proof -
  have "kh_inv (ms_records s)" and wf: "value_wf (pvalue r)" using assms by (auto simp: mem_inv_def)
  from this(1) show ?thesis
  proof (cases rule: kh.lookup_cases [where k = i])
    case absent
    then show ?thesis using r by (simp add: mem_recs_def)
  next
    case (present x v)
    then show ?thesis
      using r wf by (simp add: mem_storage_get_def mem_recs_def paxos_accepted_copy_wf)
  qed
qed

lemma mem_put:
  assumes inv: "mem_inv s" and room: "mem_room s" and wf: "value_wf (pvalue r)"
  shows "\<exists>s'. mem_storage_put s r = Some (0, s') \<and> mem_inv s' \<and>
    mem_recs s' = (mem_recs s)(iid r \<mapsto> r) \<and> ms_trim_iid s' = ms_trim_iid s"
proof -
  obtain h x rv where put: "kh_put (ms_records s) (iid r) = Some (h, x, rv)" "0 \<le> rv"
    "rv = 0 \<longleftrightarrow> kh_map (ms_records s) (iid r) \<noteq> None"
    "kh_inv (kh_set_value h x r)" "kh_map (kh_set_value h x r) = (kh_map (ms_records s))(iid r \<mapsto> r)"
    "rv = 0 \<longrightarrow> kh_value h x = kh_map (ms_records s) (iid r)"
    using kh.put_set_val [of "ms_records s" "iid r"] inv room by (auto simp: mem_inv_def mem_room_def)
  let ?s = "s\<lparr>ms_records := kh_set_value h x r\<rparr>"
  have "mem_storage_put s r = Some (0, ?s)"
    using put wf by (auto simp: mem_storage_put_def paxos_accepted_copy_wf)
  moreover have "mem_recs ?s = (mem_recs s)(iid r \<mapsto> r)" using put(5) by (simp add: mem_recs_def)
  moreover from this have "mem_inv ?s" using inv put(4) wf by (auto simp: mem_inv_def)
  ultimately show ?thesis by auto
qed

lemma mem_trim_loop_spec:
  assumes "kh_inv h" "\<forall>k r. kh_map h k = Some r \<longrightarrow> iid r = k" "set ks \<subseteq> {..<n_buckets h}"
  shows "\<exists>h'. mem_trim_loop i ks h = Some h' \<and> kh_inv h' \<and>
    (\<forall>k. kh_map h' k = (if k \<le> i \<and> (\<exists>x \<in> set ks. kh_at h k x) then None else kh_map h k))"
  using assms
proof (induction ks arbitrary: h)
  case Nil
  then show ?case by simp
next
  case (Cons x ks)
  have ok: "kh_ok h" using Cons.prems(1) by (simp add: kh_inv_def)
  show ?case
  proof (cases "kh_exist h x")
    case False
    then have "\<not> kh_at h k x" for k by (simp add: kh_at_def)
    then show ?thesis using Cons.IH [OF Cons.prems(1,2)] Cons.prems(3) False by simp
  next
    case True
    then have at: "kh_at h (keys h ! x) x" using Cons.prems(3) by (simp add: kh_at_def)
    have wf: "kh_wf h" using Cons.prems(1) at by (rule kh_inv_wf)
    obtain r where r: "kh_value h x = Some r" "kh_map h (keys h ! x) = Some r"
      using kh.val_at [OF Cons.prems(1) at] kh_inv_at [OF Cons.prems(1) at]
      by (auto simp: kh_map_at [OF ok at])
    have key: "iid r = keys h ! x" using Cons.prems(2) r(2) by simp
    have only: "kh_at h k x \<longleftrightarrow> k = keys h ! x" for k using at by (auto simp: kh_at_def)
    show ?thesis
    proof (cases "iid r \<le> i")
      case False
      then show ?thesis
        using Cons.IH [OF Cons.prems(1,2)] Cons.prems(3) True r(1) only key by auto
    next
      case le: True
      let ?h = "kh_del h x"
      have m: "kh_map ?h = (kh_map h)(keys h ! x := None)" by (rule kh.lookup_del [OF Cons.prems(1) at])
      have "\<forall>k r. kh_map ?h k = Some r \<longrightarrow> iid r = k" using Cons.prems(2) by (simp add: m)
      from Cons.IH [OF kh.invar_del [OF Cons.prems(1) at] this] Cons.prems(3)
      obtain h' where h': "mem_trim_loop i ks ?h = Some h'" "kh_inv h'"
        "\<forall>k. kh_map h' k = (if k \<le> i \<and> (\<exists>x \<in> set ks. kh_at ?h k x) then None else kh_map ?h k)"
        by auto
      have "kh_map h' k = (if k \<le> i \<and> (\<exists>y \<in> set (x # ks). kh_at h k y) then None else kh_map h k)" for k
      proof (cases "k = keys h ! x")
        case True
        then show ?thesis using h'(3) m at le key by auto
      next
        case False
        then have "kh_at ?h k y \<longleftrightarrow> kh_at h k y" for y
          using only by (auto simp: kh_del_at [OF wf at])
        then show ?thesis using h'(3) m False only by auto
      qed
      then show ?thesis using True r(1) le h'(1,2) by auto
    qed
  qed
qed

lemma mem_trim:
  assumes inv: "mem_inv s"
  shows "\<exists>s' rv. mem_storage_trim s i = Some (rv, s') \<and> mem_inv s' \<and>
    mem_recs s' = mem_recs s |` {k. i < k} \<and> ms_trim_iid s' = i"
proof -
  let ?h = "ms_records s"
  have kh: "kh_inv ?h" and ok: "kh_ok ?h" and ids: "\<forall>k r. kh_map ?h k = Some r \<longrightarrow> iid r = k"
    using inv by (auto simp: mem_inv_def mem_recs_def kh_inv_def)
  have "set [0..<kh_end ?h] \<subseteq> {..<n_buckets ?h}" by (auto simp: kh_end_def)
  from mem_trim_loop_spec [OF kh ids this, of i]
  obtain h' where h': "mem_trim_loop i [0..<kh_end ?h] ?h = Some h'" "kh_inv h'"
    "\<forall>k. kh_map h' k = (if k \<le> i \<and> (\<exists>x \<in> set [0..<kh_end ?h]. kh_at ?h k x) then None else kh_map ?h k)"
    by blast
  have present: "\<exists>x \<in> set [0..<kh_end ?h]. kh_at ?h k x" if "kh_map ?h k \<noteq> None" for k
    using that kh_map_at_bucket [OF ok] by auto
  have "kh_map h' = kh_map ?h |` {k. i < k}"
  proof (rule ext)
    fix k
    show "kh_map h' k = (kh_map ?h |` {k. i < k}) k"
      using h'(3) present [of k] by (cases "kh_map ?h k") (auto simp: restrict_map_def not_le)
  qed
  moreover from this have "mem_inv (s\<lparr>ms_records := h', ms_trim_iid := i\<rparr>)"
    using inv h'(2) by (auto simp: mem_inv_def mem_recs_def restrict_map_def split: if_splits)
  ultimately show ?thesis using h'(1) by (simp add: mem_storage_trim_def mem_recs_def)
qed

interpretation ms: storage_contract mem_api mem_inv mem_inv mem_room "\<lambda>_. True" "\<lambda>_. True" value_wf mem_recs ms_trim_iid
proof unfold_locales
  show "iid r = i \<and> value_wf (pvalue r)" if "mem_inv s" "mem_recs s i = Some r" for s i r
    using that by (simp add: mem_inv_def)
  show "\<exists>s' rv. api_trim mem_api s i = Some (rv, s') \<and> mem_inv s' \<and>
      mem_recs s' = mem_recs s |` {k. i < k} \<and> ms_trim_iid s' = i" if "mem_inv s" for s i
    using mem_trim [OF that] by (simp only: mem_api_def storage_api.simps)
qed (simp_all add: mem_api_def mem_storage_tx_begin_def mem_storage_tx_commit_def mem_get_absent
  mem_get_present mem_put mem_storage_get_trim_instance_def value_copy_wf)

lemma mem_new_inv [simp]: "mem_inv (mem_storage_new n)" "mem_recs (mem_storage_new n) = Map.empty"
  by (simp_all add: mem_inv_def mem_recs_def mem_storage_new_def)

end
