(* ===== verification/Acceptor.thy ===== *)
theory Acceptor
  imports Storage_Mem
begin

text \<open>
  The acceptor (\<open>paxos/acceptor.c\<close>) over any storage. A handler returns the message it writes
  to \<open>out\<close>, or no message where the C function returns 0. The lemmas are proved once in the
  context of the storage contract; the properties at the end hold for the acceptor with the
  in-memory backend through its interpretation.
\<close>

section \<open>Operations\<close>

record 's acceptor =
  a_id :: int
  a_trim_iid :: iid_t
  a_store :: "'s storage"

text \<open>An \<open>int\<close> stored in a \<open>uint16_t\<close> field.\<close>

abbreviation aid_of :: "int \<Rightarrow> u16" where
  "aid_of i \<equiv> word_of_int i"

text \<open>The part of \<open>acceptor_new\<close> behind the choice of a backend.\<close>

definition acceptor_start :: "'s storage \<Rightarrow> int \<Rightarrow> 's acceptor option option" where
  "acceptor_start st i = do {
     (rv, st) \<leftarrow> storage_open st;
     if rv \<noteq> 0 then Some None
     else do {
       (rv, st) \<leftarrow> storage_tx_begin st;
       if rv \<noteq> 0 then Some None
       else do {
         (t, st) \<leftarrow> storage_get_trim_instance st;
         (rv, st) \<leftarrow> storage_tx_commit st;
         if rv \<noteq> 0 then Some None
         else Some (Some \<lparr>a_id = i, a_trim_iid = t, a_store = st\<rparr>)
       }
     }
   }"

definition acceptor_new :: "paxos_config \<Rightarrow> int \<Rightarrow> mem_storage acceptor option option" where
  "acceptor_new cfg i = do {
     st \<leftarrow> storage_init cfg i;
     acceptor_start st i
   }"

definition acceptor_free :: "'s acceptor \<Rightarrow> unit option" where
  "acceptor_free a = storage_close (a_store a)"

definition paxos_accepted_to_promise :: "paxos_accepted \<Rightarrow> paxos_message" where
  "paxos_accepted_to_promise acc = PAXOS_PROMISE
    \<lparr>iid = iid acc, ballot = ballot acc, value_ballot = value_ballot acc, aid = aid acc,
     pvalue = \<lparr>paxos_value_len = paxos_value_len (pvalue acc),
               paxos_value_val = paxos_value_val (pvalue acc)\<rparr>\<rparr>"

definition paxos_accept_to_accepted :: "int \<Rightarrow> paxos_accept \<Rightarrow> paxos_accepted option" where
  "paxos_accept_to_accepted i acc = do {
     v \<leftarrow> (if paxos_value_len (pvalue acc) > 0 then
            map_option Some (mem_read (paxos_value_val (pvalue acc)) (nat (paxos_value_len (pvalue acc))))
          else Some None);
     Some \<lparr>iid = iid acc, ballot = ballot acc, value_ballot = ballot acc, aid = aid_of i,
           pvalue = \<lparr>paxos_value_len = paxos_value_len (pvalue acc), paxos_value_val = v\<rparr>\<rparr>
   }"

definition paxos_accepted_to_preempted :: "int \<Rightarrow> paxos_accepted \<Rightarrow> paxos_message" where
  "paxos_accepted_to_preempted i acc = PAXOS_PREEMPTED
    \<lparr>iid = iid acc, ballot = ballot acc, value_ballot = 0, aid = aid_of i,
     pvalue = \<lparr>paxos_value_len = 0, paxos_value_val = None\<rparr>\<rparr>"

definition acceptor_receive_prepare ::
  "'s acceptor \<Rightarrow> paxos_prepare \<Rightarrow> ('s acceptor \<times> paxos_message option) option" where
  "acceptor_receive_prepare a req =
    (if iid req \<le> a_trim_iid a then Some (a, None)
     else do {
       (rv, st) \<leftarrow> storage_tx_begin (a_store a);
       if rv \<noteq> 0 then Some (a\<lparr>a_store := st\<rparr>, None)
       else do {
         (found, acc, st) \<leftarrow> storage_get_record st (iid req) zero_record;
         (rv, acc, st) \<leftarrow>
           (if found = 0 \<or> ballot acc \<le> ballot req then do {
              let acc = acc\<lparr>aid := aid_of (a_id a), iid := iid req, ballot := ballot req\<rparr>;
              (rv, st) \<leftarrow> storage_put_record st acc;
              Some (rv, acc, st)
            } else Some (0, acc, st));
         if rv \<noteq> 0 then do {
           st \<leftarrow> storage_tx_abort st;
           Some (a\<lparr>a_store := st\<rparr>, None)
         }
         else do {
           (rv, st) \<leftarrow> storage_tx_commit st;
           if rv \<noteq> 0 then Some (a\<lparr>a_store := st\<rparr>, None)
           else Some (a\<lparr>a_store := st\<rparr>, Some (paxos_accepted_to_promise acc))
         }
       }
     })"

definition acceptor_receive_accept ::
  "'s acceptor \<Rightarrow> paxos_accept \<Rightarrow> ('s acceptor \<times> paxos_message option) option" where
  "acceptor_receive_accept a req =
    (if iid req \<le> a_trim_iid a then Some (a, None)
     else do {
       (rv, st) \<leftarrow> storage_tx_begin (a_store a);
       if rv \<noteq> 0 then Some (a\<lparr>a_store := st\<rparr>, None)
       else do {
         (found, acc, st) \<leftarrow> storage_get_record st (iid req) zero_record;
         (rv, out, st) \<leftarrow>
           (if found = 0 \<or> ballot acc \<le> ballot req then do {
              accepted \<leftarrow> paxos_accept_to_accepted (a_id a) req;
              (rv, st) \<leftarrow> storage_put_record st accepted;
              Some (rv, PAXOS_ACCEPTED accepted, st)
            } else Some (0, paxos_accepted_to_preempted (a_id a) acc, st));
         if rv \<noteq> 0 then do {
           st \<leftarrow> storage_tx_abort st;
           Some (a\<lparr>a_store := st\<rparr>, None)
         }
         else do {
           (rv, st) \<leftarrow> storage_tx_commit st;
           if rv \<noteq> 0 then Some (a\<lparr>a_store := st\<rparr>, None)
           else Some (a\<lparr>a_store := st\<rparr>, Some out)
         }
       }
     })"

definition acceptor_receive_repeat ::
  "'s acceptor \<Rightarrow> iid_t \<Rightarrow> ('s acceptor \<times> paxos_accepted option) option" where
  "acceptor_receive_repeat a i = do {
     (rv, st) \<leftarrow> storage_tx_begin (a_store a);
     if rv \<noteq> 0 then Some (a\<lparr>a_store := st\<rparr>, None)
     else do {
       (found, out, st) \<leftarrow> storage_get_record st i zero_record;
       (rv, st) \<leftarrow> storage_tx_commit st;
       if rv \<noteq> 0 then Some (a\<lparr>a_store := st\<rparr>, None)
       else Some (a\<lparr>a_store := st\<rparr>,
         if found \<noteq> 0 \<and> paxos_value_len (pvalue out) > 0 then Some out else None)
     }
   }"

text \<open>The second component is the returned flag.\<close>

definition acceptor_receive_trim :: "'s acceptor \<Rightarrow> paxos_trim \<Rightarrow> ('s acceptor \<times> bool) option" where
  "acceptor_receive_trim a trim =
    (if trim_iid trim \<le> a_trim_iid a then Some (a, False)
     else do {
       let a = a\<lparr>a_trim_iid := trim_iid trim\<rparr>;
       (rv, st) \<leftarrow> storage_tx_begin (a_store a);
       if rv \<noteq> 0 then Some (a\<lparr>a_store := st\<rparr>, False)
       else do {
         (_, st) \<leftarrow> storage_trim st (trim_iid trim);
         (rv, st) \<leftarrow> storage_tx_commit st;
         if rv \<noteq> 0 then Some (a\<lparr>a_store := st\<rparr>, False)
         else Some (a\<lparr>a_store := st\<rparr>, True)
       }
     })"

definition acceptor_set_current_state :: "'s acceptor \<Rightarrow> paxos_acceptor_state" where
  "acceptor_set_current_state a =
    \<lparr>state_aid = word_of_int (a_id a), state_trim_iid = a_trim_iid a\<rparr>"

section \<open>The abstract acceptor\<close>

text \<open>
  What an acceptor promises, without a storage: a map from instances to records and the trim
  instance. A prepare raises the promised ballot of the record and keeps its vote; an accept
  replaces the record, if no higher ballot was promised.
\<close>

type_synonym acc_spec = "(iid_t \<Rightarrow> paxos_accepted option) \<times> iid_t"

definition prepared :: "int \<Rightarrow> paxos_prepare \<Rightarrow> paxos_accepted option \<Rightarrow> paxos_accepted" where
  "prepared i req old = (case old of
     None \<Rightarrow> zero_record\<lparr>aid := aid_of i, iid := iid req, ballot := ballot req\<rparr>
   | Some r \<Rightarrow> if ballot r \<le> ballot req
               then r\<lparr>aid := aid_of i, iid := iid req, ballot := ballot req\<rparr> else r)"

definition vote :: "int \<Rightarrow> paxos_accept \<Rightarrow> paxos_accepted" where
  "vote i req = \<lparr>iid = iid req, ballot = ballot req, value_ballot = ballot req, aid = aid_of i,
     pvalue = value_copy (pvalue req)\<rparr>"

definition may_vote :: "paxos_accepted option \<Rightarrow> paxos_accept \<Rightarrow> bool" where
  "may_vote old req \<longleftrightarrow> (case old of None \<Rightarrow> True | Some r \<Rightarrow> ballot r \<le> ballot req)"

definition spec_prepare :: "int \<Rightarrow> acc_spec \<Rightarrow> paxos_prepare \<Rightarrow> acc_spec \<times> paxos_message option" where
  "spec_prepare i s req =
    (if iid req \<le> snd s then (s, None)
     else let r = prepared i req (fst s (iid req))
          in (((fst s)(iid req \<mapsto> r), snd s), Some (PAXOS_PROMISE r)))"

definition spec_accept :: "int \<Rightarrow> acc_spec \<Rightarrow> paxos_accept \<Rightarrow> acc_spec \<times> paxos_message option" where
  "spec_accept i s req =
    (if iid req \<le> snd s then (s, None)
     else if may_vote (fst s (iid req)) req
       then (((fst s)(iid req \<mapsto> vote i req), snd s), Some (PAXOS_ACCEPTED (vote i req)))
       else (s, Some (paxos_accepted_to_preempted i (the (fst s (iid req))))))"

definition spec_repeat :: "acc_spec \<Rightarrow> iid_t \<Rightarrow> acc_spec \<times> paxos_accepted option" where
  "spec_repeat s i =
    (s, case fst s i of None \<Rightarrow> None
        | Some r \<Rightarrow> if paxos_value_len (pvalue r) > 0 then Some r else None)"

definition spec_trim :: "acc_spec \<Rightarrow> paxos_trim \<Rightarrow> acc_spec \<times> bool" where
  "spec_trim s t =
    (if trim_iid t \<le> snd s then (s, False) else ((fst s |` {k. trim_iid t < k}, trim_iid t), True))"

definition acc_abs :: "('s \<Rightarrow> iid_t \<Rightarrow> paxos_accepted option) \<Rightarrow> 's acceptor \<Rightarrow> acc_spec" where
  "acc_abs recs a = (recs (handle (a_store a)), a_trim_iid a)"

text \<open>The invariant of an acceptor over a backend with operations \<open>ops\<close> and invariant \<open>invar\<close>.\<close>

definition acc_inv :: "'s storage_api \<Rightarrow> ('s \<Rightarrow> bool) \<Rightarrow> ('s \<Rightarrow> iid_t) \<Rightarrow> 's acceptor \<Rightarrow> bool" where
  "acc_inv ops invar trimmed a \<longleftrightarrow> api (a_store a) = ops \<and> invar (handle (a_store a)) \<and>
     trimmed (handle (a_store a)) = a_trim_iid a"

lemma prepared_fields [simp]:
  "pvalue (prepared i req None) = no_value" "value_ballot (prepared i req None) = 0"
  "pvalue (prepared i req (Some r)) = pvalue r"
  "value_ballot (prepared i req (Some r)) = value_ballot r"
  by (simp_all add: prepared_def zero_record_def)

lemma prepared_ballot: "ballot req \<le> ballot (prepared i req old)"
  by (auto simp: prepared_def not_le split: option.split)

lemma accept_to_accepted_wf:
  "value_wf (pvalue req) \<Longrightarrow> paxos_accept_to_accepted i req = Some (vote i req)"
  using value_wf_read [of "pvalue req"]
  by (auto simp: paxos_accept_to_accepted_def vote_def value_copy_def value_wf_def value_bytes_def
    buf_len_def split: option.splits)

lemma to_promise_record [simp]: "paxos_accepted_to_promise r = PAXOS_PROMISE r"
  by (simp add: paxos_accepted_to_promise_def)

lemma iid_above: "\<not> k \<le> i \<Longrightarrow> 0 < (k :: iid_t)"
  by (rule le_less_trans [OF word_zero_le]) (simp add: not_le)

section \<open>Refinement over any backend\<close>

context storage_contract
begin

lemma receive_prepare_refines:
  assumes inv: "acc_inv ops invar trimmed a" and room: "room (handle (a_store a))"
  shows "refines (acc_abs recs) (\<lambda>b. acc_inv ops invar trimmed b \<and> a_id b = a_id a)
    (acceptor_receive_prepare a req) (spec_prepare (a_id a) (acc_abs recs a) req)"
proof (cases "iid req \<le> a_trim_iid a")
  case True
  then show ?thesis using inv
    by (simp add: refines_def acceptor_receive_prepare_def spec_prepare_def acc_abs_def)
next
  case False
  let ?h = "handle (a_store a)"
  have ops: "api (a_store a) = ops" "invar ?h" "trimmed ?h = a_trim_iid a"
    using inv by (auto simp: acc_inv_def)
  obtain s1 where s1: "api_tx_begin ops ?h = Some (0, s1)" "inside s1" "recs s1 = recs ?h"
    "trimmed s1 = trimmed ?h" "room s1"
    using tx_begin [OF ops(2)] room by blast
  let ?r = "prepared (a_id a) req (recs ?h (iid req))"
  have pos: "key (iid req)" using False by (intro key_pos iid_above)
  have wf: "storable (pvalue ?r)"
    using recs_wf [OF ops(2), of "iid req"] storable_no_value by (cases "recs ?h (iid req)") auto
  show ?thesis
  proof (cases "may_vote (recs ?h (iid req)) req")
    case True
    have upd: "iid ?r = iid req" using True by (auto simp: prepared_def may_vote_def split: option.splits)
    obtain s2 where s2: "api_put ops s1 ?r = Some (0, s2)" "inside s2"
      "recs s2 = (recs s1)(iid req \<mapsto> ?r)" "trimmed s2 = trimmed s1"
      using put_record [OF s1(2,5) wf] pos upd by auto
    obtain s3 where s3: "api_tx_commit ops s2 = Some (0, s3)" "invar s3" "recs s3 = recs s2"
      "trimmed s3 = trimmed s2"
      using tx_commit [OF s2(2)] by blast
    have get: "\<exists>f acc. api_get ops s1 (iid req) zero_record = Some (f, acc, s1) \<and>
        (f = 0 \<or> ballot acc \<le> ballot req) \<and>
        ?r = acc\<lparr>aid := aid_of (a_id a), iid := iid req, ballot := ballot req\<rparr>"
      using True get_absent [OF s1(2) pos, of zero_record] get_present [OF s1(2), of "iid req"]
      by (auto simp: s1(3) may_vote_def prepared_def split: option.splits)
    then obtain f acc where g: "api_get ops s1 (iid req) zero_record = Some (f, acc, s1)"
      "f = 0 \<or> ballot acc \<le> ballot req"
      "acc\<lparr>aid := aid_of (a_id a), iid := iid req, ballot := ballot req\<rparr> = ?r" by auto
    have "acceptor_receive_prepare a req =
        Some (a\<lparr>a_store := (a_store a)\<lparr>handle := s3\<rparr>\<rparr>, Some (PAXOS_PROMISE ?r))"
      using False ops(1) s1(1) s2(1) s3(1) g
      by (simp add: acceptor_receive_prepare_def storage_dispatch Let_def)
    then show ?thesis using False ops s1 s2 s3
      by (simp add: refines_def spec_prepare_def acc_abs_def acc_inv_def Let_def)
  next
    case no: False
    then obtain r where r: "recs ?h (iid req) = Some r" "\<not> ballot r \<le> ballot req"
      by (auto simp: may_vote_def split: option.splits)
    then have same: "?r = r" by (simp add: prepared_def)
    obtain s3 where s3: "api_tx_commit ops s1 = Some (0, s3)" "invar s3" "recs s3 = recs s1"
      "trimmed s3 = trimmed s1"
      using tx_commit [OF s1(2)] by blast
    have "api_get ops s1 (iid req) zero_record = Some (1, r, s1)"
      using get_present [OF s1(2)] r(1) s1(3) by simp
    then have "acceptor_receive_prepare a req =
        Some (a\<lparr>a_store := (a_store a)\<lparr>handle := s3\<rparr>\<rparr>, Some (PAXOS_PROMISE r))"
      using False ops(1) s1(1) s3(1) r(2)
      by (simp add: acceptor_receive_prepare_def storage_dispatch)
    moreover have "(recs ?h)(iid req \<mapsto> r) = recs ?h" using r(1) by (simp add: fun_upd_idem)
    ultimately show ?thesis using False ops s1 s3 same
      by (simp add: refines_def spec_prepare_def acc_abs_def acc_inv_def Let_def)
  qed
qed

lemma receive_accept_refines:
  assumes inv: "acc_inv ops invar trimmed a" and room: "room (handle (a_store a))"
    and val: "value_wf (pvalue req)"
  shows "refines (acc_abs recs) (\<lambda>b. acc_inv ops invar trimmed b \<and> a_id b = a_id a)
    (acceptor_receive_accept a req) (spec_accept (a_id a) (acc_abs recs a) req)"
proof (cases "iid req \<le> a_trim_iid a")
  case True
  then show ?thesis using inv
    by (simp add: refines_def acceptor_receive_accept_def spec_accept_def acc_abs_def)
next
  case False
  let ?h = "handle (a_store a)" and ?v = "vote (a_id a) req"
  have ops: "api (a_store a) = ops" "invar ?h" "trimmed ?h = a_trim_iid a"
    using inv by (auto simp: acc_inv_def)
  obtain s1 where s1: "api_tx_begin ops ?h = Some (0, s1)" "inside s1" "recs s1 = recs ?h"
    "trimmed s1 = trimmed ?h" "room s1"
    using tx_begin [OF ops(2)] room by blast
  have pos: "key (iid req)" using False by (intro key_pos iid_above)
  show ?thesis
  proof (cases "may_vote (recs ?h (iid req)) req")
    case True
    have wf: "storable (pvalue ?v)" "iid ?v = iid req"
      using val by (simp_all add: vote_def storable_copy)
    obtain s2 where s2: "api_put ops s1 ?v = Some (0, s2)" "inside s2"
      "recs s2 = (recs s1)(iid req \<mapsto> ?v)" "trimmed s2 = trimmed s1"
      using put_record [OF s1(2,5) wf(1)] pos wf(2) by auto
    obtain s3 where s3: "api_tx_commit ops s2 = Some (0, s3)" "invar s3" "recs s3 = recs s2"
      "trimmed s3 = trimmed s2"
      using tx_commit [OF s2(2)] by blast
    have "\<exists>f acc. api_get ops s1 (iid req) zero_record = Some (f, acc, s1) \<and>
        (f = 0 \<or> ballot acc \<le> ballot req)"
      using True get_absent [OF s1(2) pos, of zero_record] get_present [OF s1(2), of "iid req"]
      by (auto simp: s1(3) may_vote_def split: option.splits)
    then have "acceptor_receive_accept a req =
        Some (a\<lparr>a_store := (a_store a)\<lparr>handle := s3\<rparr>\<rparr>, Some (PAXOS_ACCEPTED ?v))"
      using False ops(1) s1(1) s2(1) s3(1)
      by (auto simp: acceptor_receive_accept_def storage_dispatch accept_to_accepted_wf [OF val])
    then show ?thesis using False True ops s1 s2 s3
      by (simp add: refines_def spec_accept_def acc_abs_def acc_inv_def)
  next
    case no: False
    then obtain r where r: "recs ?h (iid req) = Some r" "\<not> ballot r \<le> ballot req"
      by (auto simp: may_vote_def split: option.splits)
    obtain s3 where s3: "api_tx_commit ops s1 = Some (0, s3)" "invar s3" "recs s3 = recs s1"
      "trimmed s3 = trimmed s1"
      using tx_commit [OF s1(2)] by blast
    have "api_get ops s1 (iid req) zero_record = Some (1, r, s1)"
      using get_present [OF s1(2)] r(1) s1(3) by simp
    then have "acceptor_receive_accept a req = Some (a\<lparr>a_store := (a_store a)\<lparr>handle := s3\<rparr>\<rparr>,
        Some (paxos_accepted_to_preempted (a_id a) r))"
      using False ops(1) s1(1) s3(1) r(2)
      by (simp add: acceptor_receive_accept_def storage_dispatch)
    then show ?thesis using False no ops s1 s3 r(1)
      by (simp add: refines_def spec_accept_def acc_abs_def acc_inv_def)
  qed
qed

lemma receive_repeat_refines:
  assumes inv: "acc_inv ops invar trimmed a" and key: "key i"
  shows "refines (acc_abs recs) (\<lambda>b. acc_inv ops invar trimmed b \<and> a_id b = a_id a)
    (acceptor_receive_repeat a i) (spec_repeat (acc_abs recs a) i)"
proof -
  let ?h = "handle (a_store a)"
  have ops: "api (a_store a) = ops" "invar ?h" "trimmed ?h = a_trim_iid a"
    using inv by (auto simp: acc_inv_def)
  obtain s1 where s1: "api_tx_begin ops ?h = Some (0, s1)" "inside s1" "recs s1 = recs ?h"
    "trimmed s1 = trimmed ?h"
    using tx_begin [OF ops(2)] by blast
  obtain s3 where s3: "api_tx_commit ops s1 = Some (0, s3)" "invar s3" "recs s3 = recs s1"
    "trimmed s3 = trimmed s1"
    using tx_commit [OF s1(2)] by blast
  show ?thesis
    using ops(1,3) s1 s3 get_absent [OF s1(2) key, of zero_record] get_present [OF s1(2), of i]
    by (cases "recs ?h i")
      (auto simp: refines_def acceptor_receive_repeat_def storage_dispatch spec_repeat_def acc_abs_def
        acc_inv_def zero_record_def no_value_def)
qed

lemma receive_trim_refines:
  assumes inv: "acc_inv ops invar trimmed a" and trims: "trims (handle (a_store a))"
  shows "refines (acc_abs recs) (\<lambda>b. acc_inv ops invar trimmed b \<and> a_id b = a_id a)
    (acceptor_receive_trim a t) (spec_trim (acc_abs recs a) t)"
proof (cases "trim_iid t \<le> a_trim_iid a")
  case True
  then show ?thesis using inv
    by (auto simp: refines_def acceptor_receive_trim_def spec_trim_def acc_abs_def)
next
  case False
  let ?h = "handle (a_store a)"
  have ops: "api (a_store a) = ops" "invar ?h" using inv by (auto simp: acc_inv_def)
  obtain s1 where s1: "api_tx_begin ops ?h = Some (0, s1)" "inside s1" "recs s1 = recs ?h" "trims s1"
    using tx_begin [OF ops(2)] trims by blast
  have pos: "0 < trim_iid t" using False by (rule iid_above)
  obtain s2 rv where s2: "api_trim ops s1 (trim_iid t) = Some (rv, s2)" "inside s2"
    "recs s2 = recs s1 |` {k. trim_iid t < k}" "trimmed s2 = trim_iid t"
    using trim_records [OF s1(2,4) pos] by blast
  obtain s3 where s3: "api_tx_commit ops s2 = Some (0, s3)" "invar s3" "recs s3 = recs s2"
    "trimmed s3 = trimmed s2"
    using tx_commit [OF s2(2)] by blast
  have "acceptor_receive_trim a t =
      Some (a\<lparr>a_trim_iid := trim_iid t, a_store := (a_store a)\<lparr>handle := s3\<rparr>\<rparr>, True)"
    using False ops(1) s1(1) s2(1) s3(1)
    by (simp add: acceptor_receive_trim_def storage_dispatch Let_def)
  then show ?thesis using False ops s1 s2 s3
    by (auto simp: refines_def spec_trim_def acc_abs_def acc_inv_def)
qed

end

section \<open>The acceptor with the in-memory backend\<close>

abbreviation mem_acc_abs :: "mem_storage acceptor \<Rightarrow> acc_spec" where
  "mem_acc_abs \<equiv> acc_abs mem_recs"

definition mem_acc_inv :: "int \<Rightarrow> mem_storage acceptor \<Rightarrow> bool" where
  "mem_acc_inv i a \<longleftrightarrow> acc_inv mem_api mem_inv ms_trim_iid a \<and> a_id a = i"

definition acceptor_room :: "mem_storage acceptor \<Rightarrow> bool" where
  "acceptor_room a \<longleftrightarrow> mem_room (handle (a_store a))"

lemma acceptor_new_inv:
  assumes "storage_backend cfg = PAXOS_MEM_STORAGE"
  obtains a where "acceptor_new cfg i = Some (Some a)" "mem_acc_inv i a"
    "mem_acc_abs a = (Map.empty, 0)"
proof -
  let ?a = "\<lparr>a_id = i, a_trim_iid = 0, a_store = storage_init_mem i\<rparr>"
  have "acceptor_new cfg i = Some (Some ?a)"
    using assms
    by (simp add: acceptor_new_def acceptor_start_def storage_init_def storage_dispatch storage_init_mem_def mem_api_def
      mem_storage_open_def mem_storage_tx_begin_def mem_storage_tx_commit_def
      mem_storage_get_trim_instance_def mem_storage_new_def)
  moreover have "mem_acc_inv i ?a" "mem_acc_abs ?a = (Map.empty, 0)"
    by (simp_all add: mem_acc_inv_def acc_inv_def acc_abs_def storage_init_mem_def)
      (simp add: mem_storage_new_def)
  ultimately show thesis by (rule that)
qed

lemma mem_acc_records:
  "mem_acc_inv i a \<Longrightarrow> fst (mem_acc_abs a) k = Some r \<Longrightarrow> iid r = k \<and> value_wf (pvalue r)"
  by (auto simp: mem_acc_inv_def acc_inv_def acc_abs_def dest: ms.recs_wf)

lemma mem_prepare_refines:
  "mem_acc_inv i a \<Longrightarrow> acceptor_room a \<Longrightarrow>
    refines mem_acc_abs (mem_acc_inv i) (acceptor_receive_prepare a req)
      (spec_prepare i (mem_acc_abs a) req)"
  using ms.receive_prepare_refines [of a req] unfolding refines_def by (auto simp: mem_acc_inv_def acceptor_room_def)

lemma mem_accept_refines:
  "mem_acc_inv i a \<Longrightarrow> acceptor_room a \<Longrightarrow> value_wf (pvalue req) \<Longrightarrow>
    refines mem_acc_abs (mem_acc_inv i) (acceptor_receive_accept a req)
      (spec_accept i (mem_acc_abs a) req)"
  using ms.receive_accept_refines [of a req] unfolding refines_def by (auto simp: mem_acc_inv_def acceptor_room_def)

lemma mem_repeat_refines:
  "mem_acc_inv i a \<Longrightarrow> refines mem_acc_abs (mem_acc_inv i) (acceptor_receive_repeat a k)
    (spec_repeat (mem_acc_abs a) k)"
  using ms.receive_repeat_refines [of a k] unfolding refines_def by (auto simp: mem_acc_inv_def)

lemma mem_trim_refines:
  "mem_acc_inv i a \<Longrightarrow> refines mem_acc_abs (mem_acc_inv i) (acceptor_receive_trim a t)
    (spec_trim (mem_acc_abs a) t)"
  using ms.receive_trim_refines [of a t] unfolding refines_def by (auto simp: mem_acc_inv_def)

lemma acceptor_room_empty: "mem_acc_inv i a \<Longrightarrow> fst (mem_acc_abs a) = Map.empty \<Longrightarrow> acceptor_room a"
  by (simp add: acceptor_room_def mem_room_def mem_acc_inv_def acc_inv_def mem_inv_def acc_abs_def mem_recs_def kh_room_dom)

end
