(* ===== verification/Carray.thy ===== *)
theory Carray
  imports Paxos_Prelude
begin

text \<open>
  The growing circular array of \<open>paxos/carray.c\<close>, which holds the values a proposer has
  queued. The slots are \<^typ>\<open>'a option list\<close>: \<^term>\<open>None\<close> is memory that \<open>malloc\<close> returned
  and nothing wrote. \<open>carray_push_back\<close> and \<open>carray_grow\<close> call each other; the model bounds the
  depth of that recursion, and \<open>carray_push_depth\<close> shows that a depth of two is always enough.
\<close>

section \<open>Operations\<close>

record 'a carray =
  ca_head :: int
  ca_tail :: int
  ca_size :: int
  ca_count :: int
  ca_array :: "'a option list"

definition carray_new :: "int \<Rightarrow> 'a carray option" where
  "carray_new sz = do {
     c_assert (0 \<le> sz);
     Some \<lparr>ca_head = 0, ca_tail = 0, ca_size = sz, ca_count = 0, ca_array = replicate (nat sz) None\<rparr>
   }"

definition carray_empty :: "'a carray \<Rightarrow> bool" where
  "carray_empty a \<longleftrightarrow> ca_count a = 0"

definition carray_size :: "'a carray \<Rightarrow> int" where
  "carray_size a = ca_size a"

definition carray_full :: "'a carray \<Rightarrow> bool" where
  "carray_full a \<longleftrightarrow> ca_count a = ca_size a"

text \<open>
  Reading a slot that nothing wrote gives no pointer, a fault; so do a division by zero and a
  sum that is no \<open>int\<close>.
\<close>

definition carray_at :: "'a carray \<Rightarrow> int \<Rightarrow> 'a option" where
  "carray_at a i = do {
     c_assert (ca_size a \<noteq> 0 \<and> ca_head a + i < 2 ^ 31);
     slot \<leftarrow> array_read_int (ca_array a) ((ca_head a + i) smod ca_size a);
     slot
   }"

text \<open>The body of \<open>carray_push_back\<close> after the test for a full array.\<close>

definition carray_store :: "'a carray \<Rightarrow> 'a \<Rightarrow> 'a carray option" where
  "carray_store a p = do {
     arr \<leftarrow> array_write_int (ca_array a) (ca_tail a) (Some p);
     c_assert (ca_size a \<noteq> 0);
     Some (a\<lparr>ca_array := arr, ca_tail := (ca_tail a + 1) smod ca_size a, ca_count := ca_count a + 1\<rparr>)
   }"

text \<open>The copying loop of \<open>carray_grow\<close>, from index \<open>i\<close> with \<open>n\<close> elements left.\<close>

primrec carray_copy ::
  "('a carray \<Rightarrow> 'a \<Rightarrow> 'a carray option) \<Rightarrow> 'a carray \<Rightarrow> nat \<Rightarrow> 'a carray \<Rightarrow> int \<Rightarrow> 'a carray option" where
  "carray_copy push a 0 tmp i = Some tmp"
| "carray_copy push a (Suc n) tmp i = do {
     p \<leftarrow> carray_at a i;
     tmp \<leftarrow> push tmp p;
     carray_copy push a n tmp (i + 1)
   }"

definition carray_grow ::
  "('a carray \<Rightarrow> 'a \<Rightarrow> 'a carray option) \<Rightarrow> 'a carray \<Rightarrow> 'a carray option" where
  "carray_grow push a = do {
     c_assert (ca_size a * 2 < 2 ^ 31);
     tmp \<leftarrow> carray_new (ca_size a * 2);
     tmp \<leftarrow> carray_copy push a (nat (ca_count a)) tmp 0;
     Some (a\<lparr>ca_head := 0, ca_tail := ca_tail tmp, ca_size := ca_size tmp, ca_array := ca_array tmp\<rparr>)
   }"

primrec carray_push :: "nat \<Rightarrow> 'a carray \<Rightarrow> 'a \<Rightarrow> 'a carray option" where
  "carray_push 0 a p = None"
| "carray_push (Suc d) a p = do {
     a \<leftarrow> (if carray_full a then carray_grow (carray_push d) a else Some a);
     carray_store a p
   }"

declare carray_push.simps [simp del]

definition carray_push_back :: "'a carray \<Rightarrow> 'a \<Rightarrow> 'a carray option" where
  "carray_push_back = carray_push 2"

definition carray_pop_front :: "'a carray \<Rightarrow> ('a option \<times> 'a carray) option" where
  "carray_pop_front a =
    (if carray_empty a then Some (None, a)
     else do {
       slot \<leftarrow> array_read_int (ca_array a) (ca_head a);
       p \<leftarrow> slot;
       c_assert (ca_size a \<noteq> 0);
       Some (Some p, a\<lparr>ca_head := (ca_head a + 1) smod ca_size a, ca_count := ca_count a - 1\<rparr>)
     })"

text \<open>The callback updates a state of its own.\<close>

primrec carray_foreach_loop ::
  "('a \<Rightarrow> 's \<Rightarrow> 's) \<Rightarrow> 'a carray \<Rightarrow> nat \<Rightarrow> int \<Rightarrow> 's \<Rightarrow> 's option" where
  "carray_foreach_loop cb a 0 i s = Some s"
| "carray_foreach_loop cb a (Suc n) i s = do {
     p \<leftarrow> carray_at a i;
     carray_foreach_loop cb a n (i + 1) (cb p s)
   }"

definition carray_foreach :: "('a \<Rightarrow> 's \<Rightarrow> 's) \<Rightarrow> 'a carray \<Rightarrow> 's \<Rightarrow> 's option" where
  "carray_foreach cb a s = carray_foreach_loop cb a (nat (ca_count a)) 0 s"

section \<open>The queue a circular array stands for\<close>

definition carray_inv :: "'a carray \<Rightarrow> bool" where
  "carray_inv a \<longleftrightarrow> 0 < ca_size a \<and> ca_size a \<le> 2 ^ 30 \<and> length (ca_array a) = nat (ca_size a) \<and>
     0 \<le> ca_head a \<and> ca_head a < ca_size a \<and> 0 \<le> ca_count a \<and> ca_count a \<le> ca_size a \<and>
     ca_tail a = (ca_head a + ca_count a) mod ca_size a \<and>
     (\<forall>i < nat (ca_count a). ca_array a ! nat ((ca_head a + int i) mod ca_size a) \<noteq> None)"

definition carray_list :: "'a carray \<Rightarrow> 'a list" where
  "carray_list a =
    map (\<lambda>i. the (ca_array a ! nat ((ca_head a + int i) mod ca_size a))) [0..<nat (ca_count a)]"

text \<open>
  Room for one more element: a free slot, or a size that can be doubled. The size stays at most
  \<open>2 ^ 30\<close>, so that \<open>head + i\<close> is an \<open>int\<close>.
\<close>

definition carray_room :: "'a carray \<Rightarrow> bool" where
  "carray_room a \<longleftrightarrow> ca_count a < ca_size a \<or> ca_size a * 2 \<le> 2 ^ 30"

lemma smod_nonneg: "0 \<le> (x::int) \<Longrightarrow> 0 < m \<Longrightarrow> x smod m = x mod m"
  by (simp add: signed_modulo_int_def signed_divide_int_def minus_div_mult_eq_mod [symmetric] sgn_if)

lemma carray_list_length: "carray_inv a \<Longrightarrow> length (carray_list a) = nat (ca_count a)"
  by (simp add: carray_list_def)

lemma carray_new_inv:
  assumes "0 < n" "n \<le> 2 ^ 30"
  obtains a where "carray_new n = Some a" "carray_inv a" "carray_list a = []" "ca_size a = n"
    "ca_head a = 0" "ca_count a = 0"
  using assms by (intro that) (auto simp: carray_new_def carray_inv_def carray_list_def)

lemma carray_at_list:
  assumes "carray_inv a" "i < length (carray_list a)"
  shows "carray_at a (int i) = Some (carray_list a ! i)"
proof -
  have i: "i < nat (ca_count a)" using assms by (simp add: carray_list_length)
  have "(ca_head a + int i) smod ca_size a = (ca_head a + int i) mod ca_size a"
    using assms(1) by (intro smod_nonneg) (auto simp: carray_inv_def)
  moreover have "nat ((ca_head a + int i) mod ca_size a) < length (ca_array a)"
    using assms(1) by (simp add: carray_inv_def nat_less_iff)
  ultimately show ?thesis
    using assms i by (auto simp: carray_at_def carray_list_def carray_inv_def c_access)
qed

lemma nat_mod_inj:
  assumes "i < nat s" "j < nat s" "nat ((h + int i) mod s) = nat ((h + int j) mod s)" "0 < s"
  shows "i = j"
proof -
  have "(h + int i) mod s = (h + int j) mod s" using assms(3,4) by (simp add: nat_eq_iff)
  then have "s dvd (int i - int j)" by (simp add: mod_eq_dvd_iff)
  moreover have "\<bar>int i - int j\<bar> < s" using assms by linarith
  ultimately show ?thesis using zdvd_imp_le [of s "int i - int j"] zdvd_imp_le [of s "int j - int i"]
    by (metis (no_types, opaque_lifting) abs_of_nonneg abs_of_nonpos diff_gt_0_iff_gt dvd_diff_commute
      linorder_not_less linorder_neqE of_nat_eq_iff minus_diff_eq less_imp_le diff_le_0_iff_le)
qed

lemma carray_store_spec:
  assumes inv: "carray_inv a" and free: "ca_count a < ca_size a"
  obtains a' where "carray_store a p = Some a'" "carray_inv a'" "carray_list a' = carray_list a @ [p]"
    "ca_size a' = ca_size a" "ca_head a' = ca_head a" "ca_count a' = ca_count a + 1"
proof -
  obtain c where c: "ca_count a = int c" using inv by (auto simp: carray_inv_def intro: nonneg_int_cases)
  let ?h = "ca_head a" and ?s = "ca_size a"
  let ?pos = "\<lambda>i. nat ((?h + int i) mod ?s)"
  let ?arr = "(ca_array a)[?pos c := Some p]"
  let ?a = "a\<lparr>ca_array := ?arr, ca_tail := (?h + int (Suc c)) mod ?s, ca_count := ca_count a + 1\<rparr>"
  have s: "0 < ?s" and len: "length (ca_array a) = nat ?s"
    and h: "0 \<le> ?h" "?h < ?s" and tail: "ca_tail a = (?h + int c) mod ?s"
    using inv c by (auto simp: carray_inv_def)
  have pos: "?pos i < length (ca_array a)" for i using s len by (simp add: nat_less_iff)
  have arr: "?arr ! ?pos i = (if i = c then Some p else ca_array a ! ?pos i)" if "i \<le> c" for i
  proof -
    have "?pos i = ?pos c \<longleftrightarrow> i = c" using nat_mod_inj [of i ?s c ?h] that free s c by auto
    then show ?thesis unfolding nth_list_update [OF pos] by metis
  qed
  have step: "(ca_tail a + 1) smod ?s = (?h + int (Suc c)) mod ?s"
    using s tail by (simp add: smod_nonneg mod_simps ac_simps)
  have "carray_store a p = Some ?a"
    using pos [of c] s tail step by (simp add: carray_store_def c_access)
  moreover have "carray_inv ?a"
    using inv free c arr by (auto simp: carray_inv_def nat_add_distrib less_Suc_eq algebra_simps)
  moreover have "carray_list ?a = carray_list a @ [p]"
    using arr c by (simp add: carray_list_def nat_add_distrib)
  ultimately show thesis by (intro that [of ?a]) simp_all
qed

lemma carray_push_store: "\<not> carray_full a \<Longrightarrow> carray_push (Suc d) a p = carray_store a p"
  by (simp add: carray_push.simps)

lemma carray_copy_spec:
  assumes "carray_inv a" "carray_inv tmp" "carray_list tmp = take i (carray_list a)"
    "i + n = length (carray_list a)" "int (length (carray_list a)) \<le> ca_size tmp"
  shows "\<exists>tmp'. carray_copy (carray_push (Suc d)) a n tmp (int i) = Some tmp' \<and> carray_inv tmp' \<and>
    carray_list tmp' = carray_list a \<and> ca_size tmp' = ca_size tmp \<and> ca_head tmp' = ca_head tmp"
  using assms
proof (induction n arbitrary: tmp i)
  case 0
  then show ?case by simp
next
  case (Suc n)
  have i: "i < length (carray_list a)" using Suc.prems(4) by simp
  have cnt: "ca_count tmp = int i"
    using carray_list_length [OF Suc.prems(2)] Suc.prems(2,3) i by (simp add: carray_inv_def)
  then have free: "ca_count tmp < ca_size tmp" using Suc.prems(5) i by simp
  obtain t where t: "carray_store tmp (carray_list a ! i) = Some t" "carray_inv t"
    "carray_list t = carray_list tmp @ [carray_list a ! i]" "ca_size t = ca_size tmp"
    "ca_head t = ca_head tmp"
    by (rule carray_store_spec [OF Suc.prems(2) free])
  have "carray_list t = take (Suc i) (carray_list a)"
    using t(3) Suc.prems(3) i by (simp add: take_Suc_conv_app_nth)
  from Suc.IH [OF Suc.prems(1) t(2) this] Suc.prems(4,5) t(4,5)
  obtain tmp' where "carray_copy (carray_push (Suc d)) a n t (int (Suc i)) = Some tmp'"
    "carray_inv tmp'" "carray_list tmp' = carray_list a" "ca_size tmp' = ca_size tmp"
    "ca_head tmp' = ca_head tmp" by auto
  moreover have "carray_push (Suc d) tmp (carray_list a ! i) = Some t"
    using t(1) free by (simp add: carray_push_store carray_full_def)
  moreover note carray_at_list [OF Suc.prems(1) i]
  ultimately show ?case by (simp add: add.commute)
qed

lemma carray_grow_spec:
  assumes inv: "carray_inv a" and room: "ca_size a * 2 \<le> 2 ^ 30"
  obtains a' where "carray_grow (carray_push (Suc d)) a = Some a'" "carray_inv a'"
    "carray_list a' = carray_list a" "ca_count a' = ca_count a" "ca_size a' = ca_size a * 2"
proof -
  have s: "0 < ca_size a * 2" using inv by (simp add: carray_inv_def)
  obtain t :: "'a carray" where t: "carray_new (ca_size a * 2) = Some t" "carray_inv t" "carray_list t = []"
    "ca_size t = ca_size a * 2" "ca_head t = 0" "ca_count t = 0"
    by (rule carray_new_inv [OF s room])
  have len: "int (length (carray_list a)) = ca_count a" "ca_count a \<le> ca_size a"
    using inv by (simp_all add: carray_list_length carray_inv_def)
  have "\<exists>t'. carray_copy (carray_push (Suc d)) a (nat (ca_count a)) t (int 0) = Some t' \<and> carray_inv t' \<and>
      carray_list t' = carray_list a \<and> ca_size t' = ca_size t \<and> ca_head t' = ca_head t"
    using len t s by (intro carray_copy_spec [OF inv t(2)]) auto
  then obtain t' where t': "carray_copy (carray_push (Suc d)) a (nat (ca_count a)) t 0 = Some t'"
    "carray_inv t'" "carray_list t' = carray_list a" "ca_size t' = ca_size a * 2" "ca_head t' = 0"
    using t(4,5) by auto
  have cnt: "ca_count t' = ca_count a"
    using len carray_list_length [OF t'(2)] t'(2,3) by (simp add: carray_inv_def)
  let ?a = "a\<lparr>ca_head := 0, ca_tail := ca_tail t', ca_size := ca_size t', ca_array := ca_array t'\<rparr>"
  have "carray_grow (carray_push (Suc d)) a = Some ?a"
    using room t(1) t'(1) by (simp add: carray_grow_def c_access)
  moreover have "carray_inv ?a" using t'(2,5) cnt by (simp add: carray_inv_def)
  moreover have "carray_list ?a = carray_list a"
    unfolding t'(3) [symmetric] by (simp add: carray_list_def t'(5) cnt)
  ultimately show thesis using t'(4) by (intro that [of ?a]) simp_all
qed

lemma carray_push_spec:
  assumes inv: "carray_inv a" and room: "carray_room a"
  obtains a' where "carray_push (Suc (Suc d)) a p = Some a'" "carray_inv a'"
    "carray_list a' = carray_list a @ [p]"
proof (cases "carray_full a")
  case True
  then have "ca_size a * 2 \<le> 2 ^ 30" using room by (simp add: carray_full_def carray_room_def)
  then obtain b where b: "carray_grow (carray_push (Suc d)) a = Some b" "carray_inv b"
    "carray_list b = carray_list a" "ca_count b = ca_count a" "ca_size b = ca_size a * 2"
    by (rule carray_grow_spec [OF inv])
  have "ca_count b < ca_size b" using True inv b(4,5) by (simp add: carray_full_def carray_inv_def)
  then obtain a' where "carray_store b p = Some a'" "carray_inv a'" "carray_list a' = carray_list b @ [p]"
    using carray_store_spec [OF b(2)] by metis
  then show thesis using that [of a'] True b(1,3) carray_push.simps(2) [of "Suc d" a p] by simp
next
  case False
  then have "ca_count a < ca_size a" using inv by (simp add: carray_full_def carray_inv_def)
  then obtain a' where "carray_store a p = Some a'" "carray_inv a'" "carray_list a' = carray_list a @ [p]"
    using carray_store_spec [OF inv] by metis
  then show thesis using that [of a'] False by (simp add: carray_push_store)
qed

text \<open>The recursion is never deeper than one call: more depth changes nothing.\<close>

lemma carray_push_depth:
  assumes "carray_inv a" "carray_room a"
  shows "\<exists>a'. carray_push_back a p = Some a' \<and> carray_inv a' \<and> carray_list a' = carray_list a @ [p]"
  using carray_push_spec [OF assms, of 0 p] by (auto simp: carray_push_back_def numeral_2_eq_2)

lemma carray_pop_spec:
  assumes inv: "carray_inv a" and ne: "carray_list a = x # xs"
  shows "\<exists>a'. carray_pop_front a = Some (Some x, a') \<and> carray_inv a' \<and> carray_list a' = xs"
proof -
  obtain c where c: "nat (ca_count a) = Suc c"
    using carray_list_length [OF inv] ne by (metis length_Cons)
  then have c': "ca_count a = 1 + int c" by linarith
  let ?h = "ca_head a" and ?s = "ca_size a"
  let ?a = "a\<lparr>ca_head := (?h + 1) mod ?s, ca_count := ca_count a - 1\<rparr>"
  have s: "0 < ?s" "0 \<le> ?h" "?h < ?s" "length (ca_array a) = nat ?s" using inv by (auto simp: carray_inv_def)
  have nz: "ca_array a ! nat ((?h + int i) mod ?s) \<noteq> None" if "i < Suc c" for i
    using inv that unfolding carray_inv_def c by blast
  have l: "carray_list a = map (\<lambda>i. the (ca_array a ! nat ((?h + int i) mod ?s))) [0..<Suc c]"
    unfolding carray_list_def c ..
  have shift: "((?h + 1) mod ?s + int i) mod ?s = (?h + int (Suc i)) mod ?s" for i
    by (simp add: mod_simps ac_simps)
  have "the (ca_array a ! nat ?h) = x"
    using ne s unfolding l by (simp add: upt_conv_Cons del: upt_Suc)
  then have hd: "ca_array a ! nat ?h = Some x"
    using nz [of 0] s by auto
  have tl: "xs = map (\<lambda>i. the (ca_array a ! nat ((?h + int (Suc i)) mod ?s))) [0..<c]"
    using ne unfolding l by (auto simp: upt_conv_Cons map_Suc_upt [symmetric] simp del: upt_Suc)
  have "carray_pop_front a = Some (Some x, ?a)"
    using s c' hd by (simp add: carray_pop_front_def carray_empty_def c_access smod_nonneg nat_less_iff)
  moreover have "carray_inv ?a"
  proof -
    have "ca_tail a = ((?h + 1) mod ?s + int c) mod ?s"
      using inv unfolding carray_inv_def shift c' by (simp add: ac_simps)
    moreover have "ca_array a ! nat (((?h + 1) mod ?s + int i) mod ?s) \<noteq> None" if "i < c" for i
      using nz [of "Suc i"] that unfolding shift by simp
    ultimately show ?thesis using inv s c' by (simp add: carray_inv_def)
  qed
  moreover have "carray_list ?a = xs"
    unfolding tl by (simp add: carray_list_def shift c')
  ultimately show ?thesis by blast
qed

lemma carray_pop_empty: "carray_inv a \<Longrightarrow> carray_list a = [] \<Longrightarrow> carray_pop_front a = Some (None, a)"
  using carray_list_length [of a] by (simp add: carray_pop_front_def carray_empty_def carray_inv_def)

lemma carray_empty_list: "carray_inv a \<Longrightarrow> carray_empty a \<longleftrightarrow> carray_list a = []"
  using carray_list_length [of a] by (auto simp: carray_empty_def carray_inv_def)

lemma carray_foreach_loop_spec:
  assumes "carray_inv a" "i + n = length (carray_list a)"
  shows "carray_foreach_loop cb a n (int i) s = Some (fold cb (drop i (carray_list a)) s)"
  using assms(2)
proof (induction n arbitrary: i s)
  case 0
  then show ?case by simp
next
  case (Suc n)
  then have i: "i < length (carray_list a)" by simp
  then show ?case
    using Suc.IH [of "Suc i" "cb (carray_list a ! i) s"] Suc.prems carray_at_list [OF assms(1) i]
    by (simp add: add.commute Cons_nth_drop_Suc [OF i, symmetric])
qed

lemma carray_foreach_spec:
  "carray_inv a \<Longrightarrow> carray_foreach cb a s = Some (fold cb (carray_list a) s)"
  using carray_foreach_loop_spec [of a 0 "nat (ca_count a)" cb s] carray_list_length [of a]
  by (simp add: carray_foreach_def)

section \<open>The contract of a queue of pointers\<close>

locale ptr_queue =
  fixes invar :: "'q \<Rightarrow> bool"
    and elems :: "'q \<Rightarrow> 'a list"
    and room :: "'q \<Rightarrow> bool"
    and push :: "'q \<Rightarrow> 'a \<Rightarrow> 'q option"
    and pop :: "'q \<Rightarrow> ('a option \<times> 'q) option"
  assumes push_room: "invar q \<Longrightarrow> room q \<Longrightarrow>
      \<exists>q'. push q p = Some q' \<and> invar q' \<and> elems q' = elems q @ [p]"
    and pop_empty: "invar q \<Longrightarrow> elems q = [] \<Longrightarrow> pop q = Some (None, q)"
    and pop_front: "invar q \<Longrightarrow> elems q = x # xs \<Longrightarrow>
      \<exists>q'. pop q = Some (Some x, q') \<and> invar q' \<and> elems q' = xs"
begin

lemma pop_cases:
  assumes "invar q"
  obtains (empty) "elems q = []" "pop q = Some (None, q)"
  | (front) x xs q' where "elems q = x # xs" "pop q = Some (Some x, q')" "invar q'" "elems q' = xs"
  using assms pop_empty pop_front by (metis neq_Nil_conv)

lemma push_obtain:
  assumes "invar q" "room q"
  obtains q' where "push q p = Some q'" "invar q'" "elems q' = elems q @ [p]"
  using push_room [OF assms] by blast

text \<open>First in, first out: a pushed element leaves after those that were there.\<close>

lemma push_pop_fifo:
  assumes "invar q" "room q"
  shows "\<exists>q' q'' x. push q p = Some q' \<and> pop q' = Some (Some x, q'') \<and> invar q'' \<and>
    x # elems q'' = elems q @ [p]"
proof -
  obtain q' where q': "push q p = Some q'" "invar q'" "elems q' = elems q @ [p]"
    using assms by (rule push_obtain)
  from q'(2) show ?thesis
  proof (cases rule: pop_cases)
    case empty
    then show ?thesis using q'(3) by simp
  next
    case (front x xs q'')
    then show ?thesis using q' by auto
  qed
qed

end

interpretation cq: ptr_queue carray_inv carray_list carray_room carray_push_back carray_pop_front
  by unfold_locales (fact carray_push_depth carray_pop_empty carray_pop_spec)+

end
