(* ===== verification/Quorum.thy ===== *)
theory Quorum
  imports Paxos_Types
begin

text \<open>
  The vote counter of \<open>paxos/quorum.c\<close>: one flag per acceptor and a running count, so that a
  second answer of the same acceptor is not counted. The \<open>int\<close> array has no bounds check in
  the code; an identifier outside it is a fault.
\<close>

record quorum =
  q_count :: int
  q_quorum :: int
  q_acceptors :: int
  q_acceptor_ids :: "int list"

definition quorum_clear :: "quorum \<Rightarrow> quorum" where
  "quorum_clear q = q\<lparr>q_count := 0, q_acceptor_ids := replicate (nat (q_acceptors q)) 0\<rparr>"

definition quorum_init :: "int \<Rightarrow> quorum" where
  "quorum_init acceptors =
    quorum_clear \<lparr>q_count = 0, q_quorum = paxos_quorum acceptors, q_acceptors = acceptors,
      q_acceptor_ids = []\<rparr>"

definition quorum_add :: "quorum \<Rightarrow> int \<Rightarrow> (quorum \<times> int) option" where
  "quorum_add q i = do {
     seen \<leftarrow> array_read_int (q_acceptor_ids q) i;
     if seen = 0 then do {
       ids \<leftarrow> array_write_int (q_acceptor_ids q) i 1;
       Some (q\<lparr>q_count := q_count q + 1, q_acceptor_ids := ids\<rparr>, 1)
     } else Some (q, 0)
   }"

definition quorum_reached :: "quorum \<Rightarrow> bool" where
  "quorum_reached q \<longleftrightarrow> q_count q \<ge> q_quorum q"

section \<open>The set of acceptors counted\<close>

definition quorum_set :: "quorum \<Rightarrow> nat set" where
  "quorum_set q = {i. i < length (q_acceptor_ids q) \<and> q_acceptor_ids q ! i \<noteq> 0}"

definition quorum_inv :: "nat \<Rightarrow> quorum \<Rightarrow> bool" where
  "quorum_inv n q \<longleftrightarrow> q_acceptors q = int n \<and> q_quorum q = paxos_quorum (int n) \<and>
     length (q_acceptor_ids q) = n \<and> q_count q = int (card (quorum_set q))"

lemma quorum_set_finite [simp]: "finite (quorum_set q)"
  by (simp add: quorum_set_def)

lemma quorum_set_bound: "quorum_inv n q \<Longrightarrow> quorum_set q \<subseteq> {..<n}"
  by (auto simp: quorum_set_def quorum_inv_def)

lemma quorum_set_clear [simp]: "quorum_set (quorum_clear q) = {}"
  by (simp add: quorum_set_def quorum_clear_def)

lemma quorum_clear_inv: "quorum_inv n q \<Longrightarrow> quorum_inv n (quorum_clear q)"
  by (simp add: quorum_inv_def) (simp add: quorum_clear_def)

lemma quorum_init_inv [simp]: "quorum_inv n (quorum_init (int n))"
  by (simp add: quorum_inv_def quorum_init_def) (simp add: quorum_clear_def)

lemma quorum_init_set [simp]: "quorum_set (quorum_init n) = {}"
  by (simp add: quorum_init_def)

lemma quorum_set_insert:
  "i < length (q_acceptor_ids q) \<Longrightarrow>
    quorum_set (q\<lparr>q_count := c, q_acceptor_ids := (q_acceptor_ids q)[i := 1]\<rparr>) =
    insert i (quorum_set q)"
  by (auto simp: quorum_set_def nth_list_update)

lemma quorum_add_spec:
  assumes "quorum_inv n q" "i < n"
  obtains q' where "quorum_add q (int i) = Some (q', if i \<in> quorum_set q then 0 else 1)"
    "quorum_inv n q'" "quorum_set q' = insert i (quorum_set q)" "i \<in> quorum_set q \<Longrightarrow> q' = q"
proof (cases "i \<in> quorum_set q")
  case True
  then show thesis
    using assms by (intro that [of q]) (auto simp: quorum_add_def quorum_inv_def quorum_set_def c_access)
next
  case False
  let ?q = "q\<lparr>q_count := q_count q + 1, q_acceptor_ids := (q_acceptor_ids q)[i := 1]\<rparr>"
  have s: "quorum_set ?q = insert i (quorum_set q)"
    using assms by (intro quorum_set_insert) (simp add: quorum_inv_def)
  have "quorum_add q (int i) = Some (?q, 1)"
    using assms False by (simp add: quorum_add_def quorum_inv_def quorum_set_def c_access)
  moreover have "quorum_inv n ?q"
    using assms False s by (simp add: quorum_inv_def)
  ultimately show thesis using False s by (intro that [of ?q]) auto
qed

lemma quorum_add_fault: "quorum_add q i = None \<longleftrightarrow> i < 0 \<or> int (length (q_acceptor_ids q)) \<le> i"
  by (auto simp: quorum_add_def c_access nat_less_iff)

lemma quorum_reached_iff:
  "quorum_inv n q \<Longrightarrow> quorum_reached q \<longleftrightarrow> paxos_quorum (int n) \<le> int (card (quorum_set q))"
  by (simp add: quorum_reached_def quorum_inv_def)

text \<open>Two counters that both reached a quorum counted a common acceptor.\<close>

lemma quorums_intersect:
  assumes "quorum_inv n q" "quorum_inv n r" "quorum_reached q" "quorum_reached r"
  shows "\<exists>a < n. a \<in> quorum_set q \<and> a \<in> quorum_set r"
  using majorities_meet [of "{..<n}" "quorum_set q" "quorum_set r"] assms
    quorum_set_bound [OF assms(1)] quorum_set_bound [OF assms(2)]
  by (auto simp: quorum_reached_iff)

section \<open>Counting a sequence of answers\<close>

text \<open>
  The callers feed the identifiers of the answering acceptors to one counter, in the order in which
  the answers come in.
\<close>

fun quorum_run :: "quorum \<Rightarrow> int list \<Rightarrow> quorum option" where
  "quorum_run q [] = Some q" |
  "quorum_run q (i # is) = do { (q', _) \<leftarrow> quorum_add q i; quorum_run q' is }"

lemma quorum_run_some:
  assumes "quorum_inv n q" "set is \<subseteq> {0..<int n}"
  shows "\<exists>q'. quorum_run q is = Some q' \<and> quorum_inv n q' \<and> int ` quorum_set q' = int ` quorum_set q \<union> set is"
  using assms
proof (induction "is" arbitrary: q)
  case (Cons i "is")
  then have i: "nat i < n" "int (nat i) = i" by auto
  obtain q1 where q1: "quorum_add q (int (nat i)) = Some (q1, if nat i \<in> quorum_set q then 0 else 1)"
    "quorum_inv n q1" "quorum_set q1 = insert (nat i) (quorum_set q)"
    by (rule quorum_add_spec [OF Cons.prems(1) i(1)])
  have "set is \<subseteq> {0..<int n}" using Cons.prems(2) by auto
  from Cons.IH [OF q1(2) this] show ?case using q1(1,3) i(2) by auto
qed simp

lemma quorum_run_none:
  assumes "quorum_inv n q" "\<not> set is \<subseteq> {0..<int n}"
  shows "quorum_run q is = None"
  using assms
proof (induction "is" arbitrary: q)
  case (Cons i "is")
  show ?case
  proof (cases "0 \<le> i \<and> i < int n")
    case True
    then have i: "nat i < n" "int (nat i) = i" by auto
    obtain q1 where q1: "quorum_add q (int (nat i)) = Some (q1, if nat i \<in> quorum_set q then 0 else 1)"
      "quorum_inv n q1"
      by (rule quorum_add_spec [OF Cons.prems(1) i(1)])
    have "\<not> set is \<subseteq> {0..<int n}" using Cons.prems(2) True by auto
    from Cons.IH [OF q1(2) this] show ?thesis using q1(1) i(2) by simp
  next
    case False
    then have "quorum_add q i = None"
      using Cons.prems(1) by (auto simp: quorum_add_fault quorum_inv_def)
    then show ?thesis by simp
  qed
qed simp

lemma quorum_run_init:
  "quorum_run (quorum_init (int n)) is = Some q \<Longrightarrow>
    set is \<subseteq> {0..<int n} \<and> quorum_inv n q \<and> int ` quorum_set q = set is"
  using quorum_run_some [OF quorum_init_inv, of "is" n] quorum_run_none [OF quorum_init_inv, of "is" n] by auto

lemma quorum_run_init_none:
  "quorum_run (quorum_init (int n)) is = None \<longleftrightarrow> (\<exists>i \<in> set is. i < 0 \<or> int n \<le> i)"
proof -
  have "(\<exists>i \<in> set is. i < 0 \<or> int n \<le> i) \<longleftrightarrow> \<not> set is \<subseteq> {0..<int n}" by (auto simp: not_le not_less)
  then show ?thesis
    using quorum_run_some [OF quorum_init_inv, of "is" n] quorum_run_none [OF quorum_init_inv, of "is" n]
    by (cases "set is \<subseteq> {0..<int n}") auto
qed

lemma quorum_run_count:
  assumes "quorum_run (quorum_init (int n)) is = Some q"
  shows "q_count q = int (card (set is))"
proof -
  have "card (quorum_set q) = card (int ` quorum_set q)" by (simp add: card_image)
  then show ?thesis using quorum_run_init [OF assms] by (simp add: quorum_inv_def)
qed

lemma quorum_run_reached:
  assumes "quorum_run (quorum_init (int n)) is = Some q"
  shows "quorum_reached q \<longleftrightarrow> n div 2 + 1 \<le> card (set is)"
  using quorum_run_count [OF assms] quorum_run_init [OF assms]
  by (auto simp: quorum_reached_def quorum_inv_def paxos_quorum_nat)

lemma quorum_run_add:
  assumes "quorum_run (quorum_init (int n)) is = Some q" "0 \<le> i" "i < int n"
  shows "\<exists>q'. quorum_add q i = Some (q', if i \<in> set is then 0 else 1)"
proof -
  have "nat i \<in> quorum_set q \<longleftrightarrow> i \<in> set is" using quorum_run_init [OF assms(1)] assms(2,3) by force
  moreover obtain q' where "quorum_add q (int (nat i)) = Some (q', if nat i \<in> quorum_set q then 0 else 1)"
    using quorum_run_init [OF assms(1)] assms(2,3) by (auto intro: quorum_add_spec [of n q "nat i"])
  ultimately show ?thesis using assms(2) by simp
qed

lemma quorum_runs_meet:
  assumes "quorum_run (quorum_init (int n)) xs = Some q" "quorum_run (quorum_init (int n)) ys = Some r"
    and "quorum_reached q" "quorum_reached r"
  shows "set xs \<inter> set ys \<noteq> {}"
proof -
  note q = quorum_run_init [OF assms(1)] and r = quorum_run_init [OF assms(2)]
  obtain a where "a \<in> quorum_set q" "a \<in> quorum_set r" using quorums_intersect [of n q r] q r assms(3,4) by blast
  then have "int a \<in> set xs" "int a \<in> set ys" using q r by blast+
  then show ?thesis by blast
qed

end
