(* ===== verification/Proposer.thy ===== *)
theory Proposer
  imports Khash_Map Carray Quorum
begin

text \<open>
  The proposer (\<open>paxos/proposer.c\<close>): two hash tables of instances, one waiting for promises
  and one waiting for accepts, and a queue of client values. A pointer to an instance in a
  table is the iterator of its bucket, and an assignment through it writes the bucket. The
  results of \<open>gettimeofday\<close> are the arguments \<open>now\<close>. A handler returns the message it writes to
  \<open>out\<close>, or none where the C function returns 0.
\<close>

section \<open>State\<close>

record timeval =
  tv_sec :: int
  tv_usec :: int

record pinstance =
  i_iid :: iid_t
  i_ballot :: ballot_t
  i_value :: "paxos_value option"
  i_promised_value :: "paxos_value option"
  i_value_ballot :: ballot_t
  i_quorum :: quorum
  i_created_at :: timeval

record proposer =
  p_id :: int
  p_acceptors :: int
  p_values :: "paxos_value carray"
  p_max_trim_iid :: iid_t
  p_next_prepare_iid :: iid_t
  p_prepare_instances :: "pinstance khash"
  p_accept_instances :: "pinstance khash"

record timeout_iterator =
  it_pi :: nat
  it_ai :: nat
  it_timeout :: timeval

section \<open>Instances\<close>

definition instance_new :: "iid_t \<Rightarrow> ballot_t \<Rightarrow> int \<Rightarrow> timeval \<Rightarrow> pinstance option" where
  "instance_new i bal acceptors now = do {
     c_assert (i > 0);
     Some \<lparr>i_iid = i, i_ballot = bal, i_value = None, i_promised_value = None, i_value_ballot = 0,
           i_quorum = quorum_init acceptors, i_created_at = now\<rparr>
   }"

definition instance_has_value :: "pinstance \<Rightarrow> bool" where
  "instance_has_value inst \<longleftrightarrow> i_value inst \<noteq> None"

definition instance_has_promised_value :: "pinstance \<Rightarrow> bool" where
  "instance_has_promised_value inst \<longleftrightarrow> i_promised_value inst \<noteq> None"

text \<open>The difference of two \<open>time_t\<close> is stored in an \<open>int\<close>.\<close>

definition instance_has_timedout :: "paxos_config \<Rightarrow> pinstance \<Rightarrow> timeval \<Rightarrow> bool" where
  "instance_has_timedout cfg inst now \<longleftrightarrow>
    signed_take_bit 31 (tv_sec now - tv_sec (i_created_at inst)) \<ge> proposer_timeout cfg"

text \<open>Dereferencing a null value is a fault. The ballot is cut to the 16 bits of the message.\<close>

definition instance_to_accept :: "pinstance \<Rightarrow> paxos_accept option" where
  "instance_to_accept inst = do {
     v \<leftarrow> (if instance_has_promised_value inst then i_promised_value inst else i_value inst);
     Some \<lparr>iid = i_iid inst, ballot = ucast (i_ballot inst), value_ballot = ucast (i_ballot inst),
           aid = 0, pvalue = \<lparr>paxos_value_len = paxos_value_len v, paxos_value_val = paxos_value_val v\<rparr>\<rparr>
   }"

definition instance_to_prepare :: "pinstance \<Rightarrow> paxos_prepare" where
  "instance_to_prepare inst = zero_record\<lparr>iid := i_iid inst, ballot := ucast (i_ballot inst)\<rparr>"

fun memcmp :: "byte list \<Rightarrow> byte list \<Rightarrow> int" where
  "memcmp (x # xs) (y # ys) = (if x = y then memcmp xs ys else if x < y then -1 else 1)"
| "memcmp _ _ = 0"

definition paxos_value_cmp :: "paxos_value \<Rightarrow> paxos_value \<Rightarrow> int option" where
  "paxos_value_cmp v1 v2 =
    (if paxos_value_len v1 \<noteq> paxos_value_len v2 then Some (-1)
     else do {
       c_assert (0 \<le> paxos_value_len v1);
       b1 \<leftarrow> mem_read (paxos_value_val v1) (nat (paxos_value_len v1));
       b2 \<leftarrow> mem_read (paxos_value_val v2) (nat (paxos_value_len v1));
       Some (memcmp b1 b2)
     })"

section \<open>Operations\<close>

definition proposer_next_ballot :: "proposer \<Rightarrow> ballot_t \<Rightarrow> ballot_t" where
  "proposer_next_ballot p b =
    (if b > 0 then of_nat MAX_N_OF_PROPOSERS + b
     else word_of_int (int MAX_N_OF_PROPOSERS + p_id p))"

definition proposer_preempt :: "proposer \<Rightarrow> pinstance \<Rightarrow> timeval \<Rightarrow> pinstance \<times> paxos_prepare" where
  "proposer_preempt p inst now =
    (let inst = inst\<lparr>i_ballot := proposer_next_ballot p (i_ballot inst), i_value_ballot := 0,
           i_promised_value := None, i_quorum := quorum_clear (i_quorum inst)\<rparr>
     in (inst\<lparr>i_created_at := now\<rparr>, instance_to_prepare inst))"

text \<open>The third component is the instance's bucket in \<open>t\<close>.\<close>

definition proposer_move_instance ::
  "pinstance khash \<Rightarrow> pinstance khash \<Rightarrow> pinstance \<Rightarrow>
    (pinstance khash \<times> pinstance khash \<times> nat \<times> pinstance) option" where
  "proposer_move_instance f t inst = do {
     k \<leftarrow> kh_get f (i_iid inst);
     c_assert (k \<noteq> kh_end f);
     let f = kh_del f k;
     (t, k, rv) \<leftarrow> kh_put t (i_iid inst);
     c_assert (rv > 0);
     let inst = inst\<lparr>i_quorum := quorum_clear (i_quorum inst)\<rparr>;
     Some (f, kh_set_value t k inst, k, inst)
   }"

primrec proposer_trim_loop ::
  "iid_t \<Rightarrow> nat list \<Rightarrow> paxos_value carray \<Rightarrow> pinstance khash \<Rightarrow>
    (paxos_value carray \<times> pinstance khash) option" where
  "proposer_trim_loop i [] vs h = Some (vs, h)"
| "proposer_trim_loop i (k # ks) vs h =
    (if \<not> kh_exist h k then proposer_trim_loop i ks vs h
     else do {
       inst \<leftarrow> kh_value h k;
       if i_iid inst \<le> i then do {
         vs \<leftarrow> (case i_value inst of Some v \<Rightarrow> carray_push_back vs v | None \<Rightarrow> Some vs);
         proposer_trim_loop i ks vs (kh_del h k)
       }
       else proposer_trim_loop i ks vs h
     })"

definition proposer_trim_instances ::
  "proposer \<Rightarrow> pinstance khash \<Rightarrow> iid_t \<Rightarrow> (paxos_value carray \<times> pinstance khash) option" where
  "proposer_trim_instances p h i = proposer_trim_loop i [0..<kh_end h] (p_values p) h"

definition proposer_new :: "int \<Rightarrow> int \<Rightarrow> proposer option" where
  "proposer_new i acceptors = do {
     vs \<leftarrow> carray_new 128;
     Some \<lparr>p_id = i, p_acceptors = acceptors, p_values = vs, p_max_trim_iid = 0,
           p_next_prepare_iid = 0, p_prepare_instances = kh_init, p_accept_instances = kh_init\<rparr>
   }"

definition proposer_propose :: "proposer \<Rightarrow> cbuf \<Rightarrow> nat \<Rightarrow> proposer option" where
  "proposer_propose p v n = do {
     v \<leftarrow> paxos_value_new v n;
     vs \<leftarrow> carray_push_back (p_values p) v;
     Some (p\<lparr>p_values := vs\<rparr>)
   }"

definition proposer_prepared_count :: "proposer \<Rightarrow> int" where
  "proposer_prepared_count p = int (kh_size (p_prepare_instances p))"

definition proposer_set_instance_id :: "proposer \<Rightarrow> iid_t \<Rightarrow> proposer option" where
  "proposer_set_instance_id p i =
    (if i > p_next_prepare_iid p then do {
       let p = p\<lparr>p_next_prepare_iid := i\<rparr>;
       (vs, h) \<leftarrow> proposer_trim_instances p (p_prepare_instances p) i;
       let p = p\<lparr>p_values := vs, p_prepare_instances := h\<rparr>;
       (vs, h) \<leftarrow> proposer_trim_instances p (p_accept_instances p) i;
       Some (p\<lparr>p_values := vs, p_accept_instances := h\<rparr>)
     } else Some p)"

definition proposer_prepare :: "proposer \<Rightarrow> timeval \<Rightarrow> (proposer \<times> paxos_prepare) option" where
  "proposer_prepare p now = do {
     let i = p_next_prepare_iid p + 1;
     let p = p\<lparr>p_next_prepare_iid := i\<rparr>;
     inst \<leftarrow> instance_new i (proposer_next_ballot p 0) (p_acceptors p) now;
     (h, k, rv) \<leftarrow> kh_put (p_prepare_instances p) i;
     c_assert (rv > 0);
     Some (p\<lparr>p_prepare_instances := kh_set_value h k inst\<rparr>, instance_to_prepare inst)
   }"

definition proposer_prepare_instance ::
  "proposer \<Rightarrow> iid_t \<Rightarrow> timeval \<Rightarrow> (proposer \<times> paxos_prepare) option" where
  "proposer_prepare_instance p i now = do {
     k \<leftarrow> kh_get (p_prepare_instances p) i;
     if k = kh_end (p_prepare_instances p) then do {
       inst \<leftarrow> instance_new i (proposer_next_ballot p 0) (p_acceptors p) now;
       (h, k, rv) \<leftarrow> kh_put (p_prepare_instances p) i;
       c_assert (rv > 0);
       Some (p\<lparr>p_prepare_instances := kh_set_value h k inst\<rparr>, instance_to_prepare inst)
     }
     else do {
       inst \<leftarrow> kh_value (p_prepare_instances p) k;
       let (inst, out) = proposer_preempt p inst now;
       Some (p\<lparr>p_prepare_instances := kh_set_value (p_prepare_instances p) k inst\<rparr>, out)
     }
   }"

definition proposer_receive_promise ::
  "proposer \<Rightarrow> paxos_promise \<Rightarrow> timeval \<Rightarrow> (proposer \<times> paxos_prepare option) option" where
  "proposer_receive_promise p ack now = do {
     let h = p_prepare_instances p;
     k \<leftarrow> kh_get h (iid ack);
     if k = kh_end h then Some (p, None)
     else do {
       inst \<leftarrow> kh_value h k;
       if ucast (ballot ack) < i_ballot inst then Some (p, None)
       else if ucast (ballot ack) > i_ballot inst then do {
         let (inst, out) = proposer_preempt p inst now;
         Some (p\<lparr>p_prepare_instances := kh_set_value h k inst\<rparr>, Some out)
       }
       else do {
         (q, added) \<leftarrow> quorum_add (i_quorum inst) (uint (aid ack));
         let inst = inst\<lparr>i_quorum := q\<rparr>;
         if added = 0 then Some (p\<lparr>p_prepare_instances := kh_set_value h k inst\<rparr>, None)
         else do {
           inst \<leftarrow> (if paxos_value_len (pvalue ack) > 0 \<and> ucast (value_ballot ack) > i_value_ballot inst
             then do {
               v \<leftarrow> paxos_value_new (paxos_value_val (pvalue ack)) (nat (paxos_value_len (pvalue ack)));
               Some (inst\<lparr>i_value_ballot := ucast (value_ballot ack), i_promised_value := Some v\<rparr>)
             }
             else Some inst);
           Some (p\<lparr>p_prepare_instances := kh_set_value h k inst\<rparr>, None)
         }
       }
     }
   }"

text \<open>The loop that looks for the instance with the smallest identifier; it keeps its bucket.\<close>

primrec find_smallest ::
  "pinstance khash \<Rightarrow> nat list \<Rightarrow> (nat \<times> pinstance) option \<Rightarrow> (nat \<times> pinstance) option option" where
  "find_smallest h [] best = Some best"
| "find_smallest h (k # ks) best =
    (if \<not> kh_exist h k then find_smallest h ks best
     else do {
       inst \<leftarrow> kh_value h k;
       find_smallest h ks (case best of
           None \<Rightarrow> Some (k, inst)
         | Some (j, b) \<Rightarrow> if i_iid b > i_iid inst then Some (k, inst) else best)
     })"

definition proposer_accept :: "proposer \<Rightarrow> (proposer \<times> paxos_accept option) option" where
  "proposer_accept p = do {
     let h = p_prepare_instances p;
     best \<leftarrow> find_smallest h [0..<kh_end h] None;
     case best of
       None \<Rightarrow> Some (p, None)
     | Some (k, inst) \<Rightarrow>
         if \<not> quorum_reached (i_quorum inst) then Some (p, None)
         else do {
           (inst, p) \<leftarrow> (if \<not> instance_has_value inst then do {
               (v, vs) \<leftarrow> carray_pop_front (p_values p);
               let inst = inst\<lparr>i_value := v\<rparr>;
               Some (inst, p\<lparr>p_values := vs, p_prepare_instances := kh_set_value h k inst\<rparr>)
             } else Some (inst, p));
           if \<not> instance_has_value inst \<and> \<not> instance_has_promised_value inst then Some (p, None)
           else do {
             (f, t, k, inst) \<leftarrow>
               proposer_move_instance (p_prepare_instances p) (p_accept_instances p) inst;
             out \<leftarrow> instance_to_accept inst;
             Some (p\<lparr>p_prepare_instances := f, p_accept_instances := t\<rparr>, Some out)
           }
         }
   }"

definition proposer_receive_accepted :: "proposer \<Rightarrow> paxos_accepted \<Rightarrow> (proposer \<times> int) option" where
  "proposer_receive_accepted p ack = do {
     let h = p_accept_instances p;
     k \<leftarrow> kh_get h (iid ack);
     if k = kh_end h then Some (p, 0)
     else do {
       inst \<leftarrow> kh_value h k;
       if ucast (ballot ack) = i_ballot inst then do {
         (q, added) \<leftarrow> quorum_add (i_quorum inst) (uint (aid ack));
         let inst = inst\<lparr>i_quorum := q\<rparr>;
         if added = 0 then Some (p\<lparr>p_accept_instances := kh_set_value h k inst\<rparr>, 0)
         else if quorum_reached q then do {
           vs \<leftarrow> (case (i_promised_value inst, i_value inst) of
               (Some pv, Some v) \<Rightarrow> do {
                 c \<leftarrow> paxos_value_cmp v pv;
                 if c \<noteq> 0 then carray_push_back (p_values p) v else Some (p_values p)
               }
             | _ \<Rightarrow> Some (p_values p));
           Some (p\<lparr>p_values := vs, p_accept_instances := kh_del h k\<rparr>, 2)
         }
         else Some (p\<lparr>p_accept_instances := kh_set_value h k inst\<rparr>, 1)
       }
       else Some (p, 0)
     }
   }"

definition proposer_receive_preempted ::
  "proposer \<Rightarrow> paxos_preempted \<Rightarrow> timeval \<Rightarrow> (proposer \<times> paxos_prepare option) option" where
  "proposer_receive_preempted p ack now = do {
     let h = p_accept_instances p;
     k \<leftarrow> kh_get h (iid ack);
     if k = kh_end h then Some (p, None)
     else do {
       inst \<leftarrow> kh_value h k;
       if ucast (ballot ack) > i_ballot inst then do {
         (f, t, k, inst) \<leftarrow> proposer_move_instance h (p_prepare_instances p) inst;
         let (inst, out) = proposer_preempt p inst now;
         Some (p\<lparr>p_accept_instances := f, p_prepare_instances := kh_set_value t k inst\<rparr>, Some out)
       }
       else Some (p, None)
     }
   }"

definition proposer_receive_acceptor_state :: "proposer \<Rightarrow> paxos_acceptor_state \<Rightarrow> proposer option" where
  "proposer_receive_acceptor_state p state =
    (if p_max_trim_iid p < state_trim_iid state then
       proposer_set_instance_id (p\<lparr>p_max_trim_iid := state_trim_iid state\<rparr>) (state_trim_iid state)
     else Some p)"

section \<open>Timeouts\<close>

definition proposer_timeout_iterator :: "proposer \<Rightarrow> timeval \<Rightarrow> timeout_iterator" where
  "proposer_timeout_iterator p now = \<lparr>it_pi = 0, it_ai = 0, it_timeout = now\<rparr>"

function next_timedout ::
  "paxos_config \<Rightarrow> pinstance khash \<Rightarrow> nat \<Rightarrow> timeval \<Rightarrow> (nat \<times> pinstance option) option" where
  "next_timedout cfg h k t =
    (if k = kh_end h then Some (k, None)
     else if k > kh_end h then None
     else if \<not> kh_exist h k then next_timedout cfg h (k + 1) t
     else do {
       inst \<leftarrow> kh_value h k;
       if quorum_reached (i_quorum inst) then next_timedout cfg h (k + 1) t
       else if instance_has_timedout cfg inst t then Some (k, Some inst)
       else next_timedout cfg h (k + 1) t
     })"
  by pat_completeness auto
termination
  by (relation "measure (\<lambda>(cfg, h, k, t). kh_end h - k)") auto

declare next_timedout.simps [simp del]

definition timeout_iterator_prepare ::
  "paxos_config \<Rightarrow> timeout_iterator \<Rightarrow> proposer \<Rightarrow>
    (timeout_iterator \<times> proposer \<times> paxos_prepare option) option" where
  "timeout_iterator_prepare cfg iter p = do {
     (k, found) \<leftarrow> next_timedout cfg (p_prepare_instances p) (it_pi iter) (it_timeout iter);
     let iter = iter\<lparr>it_pi := k\<rparr>;
     case found of
       None \<Rightarrow> Some (iter, p, None)
     | Some inst \<Rightarrow>
         Some (iter,
           p\<lparr>p_prepare_instances := kh_set_value (p_prepare_instances p) k
               (inst\<lparr>i_created_at := it_timeout iter\<rparr>)\<rparr>,
           Some (instance_to_prepare inst))
   }"

definition timeout_iterator_accept ::
  "paxos_config \<Rightarrow> timeout_iterator \<Rightarrow> proposer \<Rightarrow>
    (timeout_iterator \<times> proposer \<times> paxos_accept option) option" where
  "timeout_iterator_accept cfg iter p = do {
     (k, found) \<leftarrow> next_timedout cfg (p_accept_instances p) (it_ai iter) (it_timeout iter);
     let iter = iter\<lparr>it_ai := k\<rparr>;
     case found of
       None \<Rightarrow> Some (iter, p, None)
     | Some inst \<Rightarrow> do {
         out \<leftarrow> instance_to_accept inst;
         Some (iter,
           p\<lparr>p_accept_instances := kh_set_value (p_accept_instances p) k
               (inst\<lparr>i_created_at := it_timeout iter\<rparr>)\<rparr>,
           Some out)
       }
   }"

end
