(* ===== verification/Learner.thy ===== *)
theory Learner
  imports Khash_Map Paxos_Types
begin

text \<open>
  The learner (\<open>paxos/learner.c\<close>): a hash table of instances that collect the acknowledgements
  of the acceptors, and a hash table of gaps, for which a learner runs both phases of the
  protocol itself. A pointer to an instance is its bucket; \<open>final_value\<close>, a pointer to one of
  the acknowledgements, is a copy of it, since a closed instance is not updated any more. 
  \<open>learner_deliver_next\<close> reads the identifier of the instance it has just released. What it finds
  there is not determined by the code: it is the argument \<open>freed\<close>, a function of the
  identifier the instance had, and the lemmas hold for every such function.
\<close>

section \<open>State\<close>

record linstance =
  li_iid :: iid_t
  li_last_update_ballot :: ballot_t
  li_acks :: "paxos_accepted option list"
  li_final_value :: "paxos_accepted option"

record gap =
  g_iid :: iid_t
  g_ballot :: ballot_t
  g_highest_accepted_ballot :: ballot_t
  g_highest_accepted_value :: "paxos_value option"
  g_acceptor_bitmap :: byte
  g_majority :: int
  g_reached_majority :: bool

record learner =
  l_acceptors :: int
  l_late_start :: bool
  l_current_iid :: iid_t
  l_highest_iid_closed :: iid_t
  l_instances :: "linstance khash"
  l_gaps :: "gap khash"

section \<open>Values and instances\<close>

definition paxos_value_copy :: "paxos_value \<Rightarrow> paxos_value \<Rightarrow> paxos_value option" where
  "paxos_value_copy dst src =
    (case paxos_value_val src of
       None \<Rightarrow> Some (dst\<lparr>paxos_value_len := paxos_value_len src\<rparr>)
     | Some _ \<Rightarrow> do {
         c_assert (0 \<le> paxos_value_len src);
         bs \<leftarrow> mem_read (paxos_value_val src) (nat (paxos_value_len src));
         Some \<lparr>paxos_value_len = paxos_value_len src, paxos_value_val = Some bs\<rparr>
       })"

definition paxos_accepted_dup :: "paxos_accepted \<Rightarrow> paxos_accepted option" where
  "paxos_accepted_dup ack = do {
     v \<leftarrow> paxos_value_copy (pvalue ack) (pvalue ack);
     Some (ack\<lparr>pvalue := v\<rparr>)
   }"

definition linstance_new :: "int \<Rightarrow> linstance" where
  "linstance_new acceptors = \<lparr>li_iid = 0, li_last_update_ballot = 0,
     li_acks = replicate (nat acceptors) None, li_final_value = None\<rparr>"

text \<open>The counting loop: the number of acknowledgements with ballot \<open>b\<close> and the last of them.\<close>

primrec count_acks ::
  "paxos_accepted option list \<Rightarrow> ballot_t \<Rightarrow> nat \<Rightarrow> int \<Rightarrow> int \<Rightarrow> int \<Rightarrow> (int \<times> int) option" where
  "count_acks acks b 0 i valid count = Some (valid, count)"
| "count_acks acks b (Suc n) i valid count = do {
     ack \<leftarrow> array_read_int acks i;
     case ack of
       Some r \<Rightarrow>
         if ucast (ballot r) = b then count_acks acks b n (i + 1) i (count + 1)
         else count_acks acks b n (i + 1) valid count
     | None \<Rightarrow> count_acks acks b n (i + 1) valid count
   }"

definition instance_has_quorum :: "linstance \<Rightarrow> int \<Rightarrow> (linstance \<times> bool) option" where
  "instance_has_quorum inst acceptors =
    (if li_final_value inst \<noteq> None then Some (inst, True)
     else do {
       (valid, count) \<leftarrow> count_acks (li_acks inst) (li_last_update_ballot inst) (nat acceptors) 0 (-1) 0;
       if count \<ge> paxos_quorum acceptors then do {
         final \<leftarrow> array_read_int (li_acks inst) valid;
         Some (inst\<lparr>li_final_value := final\<rparr>, True)
       }
       else Some (inst, False)
     })"

definition instance_add_accept :: "linstance \<Rightarrow> paxos_accepted \<Rightarrow> linstance option" where
  "instance_add_accept inst accepted = do {
     old \<leftarrow> array_read (li_acks inst) (unat (aid accepted));
     r \<leftarrow> paxos_accepted_dup accepted;
     acks \<leftarrow> array_write (li_acks inst) (unat (aid accepted)) (Some r);
     Some (inst\<lparr>li_acks := acks, li_last_update_ballot := ucast (ballot accepted)\<rparr>)
   }"

definition instance_update :: "linstance \<Rightarrow> paxos_accepted \<Rightarrow> int \<Rightarrow> linstance option" where
  "instance_update inst accepted acceptors = do {
     let inst = (if li_iid inst = 0
       then inst\<lparr>li_iid := iid accepted, li_last_update_ballot := ucast (ballot accepted)\<rparr> else inst);
     (inst, closed) \<leftarrow> instance_has_quorum inst acceptors;
     if closed then Some inst
     else if uint (aid accepted) > acceptors - 1 then Some inst
     else do {
       prev \<leftarrow> array_read (li_acks inst) (unat (aid accepted));
       case prev of
         Some r \<Rightarrow> if ballot r \<ge> ballot accepted then Some inst else instance_add_accept inst accepted
       | None \<Rightarrow> instance_add_accept inst accepted
     }
   }"

section \<open>Operations\<close>

definition learner_new :: "paxos_config \<Rightarrow> int \<Rightarrow> learner" where
  "learner_new cfg acceptors =
    \<lparr>l_acceptors = acceptors, l_late_start = (learner_catch_up cfg = 0), l_current_iid = 1,
     l_highest_iid_closed = 1, l_instances = kh_init, l_gaps = kh_init\<rparr>"

definition learner_set_instance_id :: "learner \<Rightarrow> iid_t \<Rightarrow> learner" where
  "learner_set_instance_id l i = l\<lparr>l_current_iid := i + 1, l_highest_iid_closed := i\<rparr>"

definition learner_get_instance_id :: "learner \<Rightarrow> iid_t" where
  "learner_get_instance_id l = l_current_iid l"

definition learner_get_highest_instance :: "learner \<Rightarrow> iid_t" where
  "learner_get_highest_instance l = l_highest_iid_closed l"

text \<open>A null result is no bucket.\<close>

definition learner_get_instance :: "learner \<Rightarrow> iid_t \<Rightarrow> (nat \<times> linstance) option option" where
  "learner_get_instance l i = do {
     k \<leftarrow> kh_get (l_instances l) i;
     if k = kh_end (l_instances l) then Some None
     else do { inst \<leftarrow> kh_value (l_instances l) k; Some (Some (k, inst)) }
   }"

definition learner_get_current_instance :: "learner \<Rightarrow> (nat \<times> linstance) option option" where
  "learner_get_current_instance l = learner_get_instance l (l_current_iid l)"

definition learner_create_instance :: "learner \<Rightarrow> iid_t \<Rightarrow> (learner \<times> nat \<times> linstance) option" where
  "learner_create_instance l i = do {
     (h, k, rv) \<leftarrow> kh_put (l_instances l) i;
     c_assert (rv \<noteq> -1);
     let inst = linstance_new (l_acceptors l);
     Some (l\<lparr>l_instances := kh_set_value h k inst\<rparr>, k, inst)
   }"

definition learner_get_instance_or_create ::
  "learner \<Rightarrow> iid_t \<Rightarrow> (learner \<times> nat \<times> linstance) option" where
  "learner_get_instance_or_create l i = do {
     found \<leftarrow> learner_get_instance l i;
     case found of
       Some (k, inst) \<Rightarrow> Some (l, k, inst)
     | None \<Rightarrow> learner_create_instance l i
   }"

definition learner_delete_instance :: "learner \<Rightarrow> linstance \<Rightarrow> learner option" where
  "learner_delete_instance l inst = do {
     k \<leftarrow> kh_get (l_instances l) (li_iid inst);
     Some (l\<lparr>l_instances := kh_del (l_instances l) k\<rparr>)
   }"

text \<open>The end of \<open>learner_receive_accepted\<close> and of \<open>learner_receive_chosen\<close>.\<close>

definition learner_close_instance :: "learner \<Rightarrow> nat \<Rightarrow> linstance \<Rightarrow> learner option" where
  "learner_close_instance l k inst = do {
     (inst, closed) \<leftarrow> instance_has_quorum inst (l_acceptors l);
     let l = l\<lparr>l_instances := kh_set_value (l_instances l) k inst\<rparr>;
     Some (if closed \<and> li_iid inst > l_highest_iid_closed l
           then l\<lparr>l_highest_iid_closed := li_iid inst\<rparr> else l)
   }"

definition learner_receive_accepted :: "learner \<Rightarrow> paxos_accepted \<Rightarrow> learner option" where
  "learner_receive_accepted l ack = do {
     let l = (if l_late_start l then l\<lparr>l_late_start := False, l_current_iid := iid ack\<rparr> else l);
     if iid ack < l_current_iid l then Some l
     else do {
       (l, k, inst) \<leftarrow> learner_get_instance_or_create l (iid ack);
       inst \<leftarrow> instance_update inst ack (l_acceptors l);
       learner_close_instance l k inst
     }
   }"

definition learner_receive_chosen :: "learner \<Rightarrow> paxos_accepted \<Rightarrow> learner option" where
  "learner_receive_chosen l ack =
    (if iid ack < l_current_iid l then Some l
     else do {
       (l, k, inst) \<leftarrow> learner_create_instance l (iid ack);
       let ack = ack\<lparr>aid := 1\<rparr>;
       inst \<leftarrow> instance_update inst ack (l_acceptors l);
       let ack = ack\<lparr>aid := 2\<rparr>;
       inst \<leftarrow> instance_update inst ack (l_acceptors l);
       learner_close_instance l k inst
     })"

definition learner_has_holes :: "learner \<Rightarrow> (iid_t \<times> iid_t) option" where
  "learner_has_holes l =
    (if l_highest_iid_closed l > l_current_iid l
     then Some (l_current_iid l, l_highest_iid_closed l) else None)"

section \<open>Gaps\<close>

definition gap_new :: "iid_t \<Rightarrow> int \<Rightarrow> gap" where
  "gap_new i acceptors = \<lparr>g_iid = i, g_ballot = 3, g_highest_accepted_ballot = 0,
     g_highest_accepted_value = None, g_acceptor_bitmap = 0, g_majority = paxos_quorum acceptors,
     g_reached_majority = False\<rparr>"

definition gap_reset :: "gap \<Rightarrow> gap" where
  "gap_reset g = g\<lparr>g_ballot := g_ballot g + 11, g_highest_accepted_value := None,
     g_highest_accepted_ballot := 0, g_acceptor_bitmap := 0\<rparr>"

definition learner_get_gap :: "learner \<Rightarrow> iid_t \<Rightarrow> (nat \<times> gap) option option" where
  "learner_get_gap l i = do {
     k \<leftarrow> kh_get (l_gaps l) i;
     if k = kh_end (l_gaps l) then Some None
     else do { g \<leftarrow> kh_value (l_gaps l) k; Some (Some (k, g)) }
   }"

definition learner_new_gap :: "learner \<Rightarrow> iid_t \<Rightarrow> (learner \<times> gap) option" where
  "learner_new_gap l i = do {
     (h, k, absent) \<leftarrow> kh_put (l_gaps l) i;
     c_assert (absent \<noteq> 0);
     let g = gap_new i (l_acceptors l);
     Some (l\<lparr>l_gaps := kh_set_value h k g\<rparr>, g)
   }"

definition get_gap_or_create :: "learner \<Rightarrow> iid_t \<Rightarrow> (learner \<times> gap) option" where
  "get_gap_or_create l i = do {
     found \<leftarrow> learner_get_gap l i;
     case found of
       None \<Rightarrow> learner_new_gap l i
     | Some (k, g) \<Rightarrow>
         let g = gap_reset g in Some (l\<lparr>l_gaps := kh_set_value (l_gaps l) k g\<rparr>, g)
   }"

definition learner_delete_gap :: "learner \<Rightarrow> gap \<Rightarrow> learner option" where
  "learner_delete_gap l g = do {
     k \<leftarrow> kh_get (l_gaps l) (g_iid g);
     Some (if k \<noteq> kh_end (l_gaps l) then l\<lparr>l_gaps := kh_del (l_gaps l) k\<rparr> else l)
   }"

text \<open>
  \<open>1 << id\<close> is an \<open>int\<close>: an identifier of 31 or more is a fault, and one of 8 or more leaves
  nothing in the 8 bits of the mask.
\<close>

definition is_duplicated :: "byte \<Rightarrow> int \<Rightarrow> (byte \<times> bool) option" where
  "is_duplicated bitmap acceptor_id = do {
     c_assert (0 \<le> acceptor_id \<and> acceptor_id < 31);
     let m = word_of_nat (2 ^ nat acceptor_id);
     Some (if and bitmap m \<noteq> 0 then (bitmap, True) else (or bitmap m, False))
   }"

definition popcount :: "byte \<Rightarrow> int" where
  "popcount w = int (length (filter (bit w) [0..<8]))"

definition is_majority_promised :: "gap \<Rightarrow> gap \<times> bool" where
  "is_majority_promised g =
    (if popcount (g_acceptor_bitmap g) \<ge> g_majority g
     then (g\<lparr>g_reached_majority := True\<rparr>, True) else (g, False))"

text \<open>
  The block for the first value of a gap has the size of a pointer, less than the structure
  \<open>paxos_value\<close> that is copied into it: a fault.
\<close>

definition sizeof_pointer :: nat where "sizeof_pointer = 8"

definition sizeof_paxos_value :: nat where "sizeof_paxos_value = 16"

definition update_accepted_value :: "gap \<Rightarrow> paxos_promise \<Rightarrow> gap option" where
  "update_accepted_value g promise =
    (if g_highest_accepted_ballot g < ucast (value_ballot promise) then do {
       let g = g\<lparr>g_highest_accepted_ballot := ucast (value_ballot promise)\<rparr>;
       if paxos_value_len (pvalue promise) \<noteq> 0 then do {
         old \<leftarrow> (case g_highest_accepted_value g of
             None \<Rightarrow> do { c_assert (sizeof_paxos_value \<le> sizeof_pointer); Some no_value }
           | Some v \<Rightarrow> Some v);
         v \<leftarrow> paxos_value_copy old (pvalue promise);
         Some (g\<lparr>g_highest_accepted_value := Some v\<rparr>)
       }
       else Some g
     }
     else Some g)"

definition update_gap :: "gap \<Rightarrow> paxos_promise \<Rightarrow> (gap \<times> bool) option" where
  "update_gap g promise = do {
     (bitmap, dup) \<leftarrow> is_duplicated (g_acceptor_bitmap g) (uint (aid promise));
     let g = g\<lparr>g_acceptor_bitmap := bitmap\<rparr>;
     if dup then Some (g, False)
     else do {
       g \<leftarrow> update_accepted_value g promise;
       Some (is_majority_promised g)
     }
   }"

definition learner_prepare :: "learner \<Rightarrow> iid_t \<Rightarrow> (learner \<times> paxos_prepare) option" where
  "learner_prepare l i = do {
     (l, g) \<leftarrow> get_gap_or_create l i;
     Some (l, zero_record\<lparr>iid := g_iid g, ballot := ucast (g_ballot g)\<rparr>)
   }"

text \<open>\<open>accept\<close> is the caller's message; its fields \<open>value_ballot\<close> and \<open>aid\<close> are left as they are.\<close>

definition learner_receive_promise ::
  "learner \<Rightarrow> paxos_promise \<Rightarrow> paxos_accept \<Rightarrow> (learner \<times> paxos_accept option) option" where
  "learner_receive_promise l promise accept = do {
     found \<leftarrow> learner_get_gap l (iid promise);
     case found of
       None \<Rightarrow> Some (l, None)
     | Some (k, g) \<Rightarrow>
         if g_reached_majority g then Some (l, None)
         else do {
           (g, reached) \<leftarrow> update_gap g promise;
           let l = l\<lparr>l_gaps := kh_set_value (l_gaps l) k g\<rparr>;
           if \<not> reached then Some (l, None)
           else do {
             v \<leftarrow> (case g_highest_accepted_value g of
                 Some v \<Rightarrow> paxos_value_copy (pvalue accept) v
               | None \<Rightarrow> Some no_value);
             Some (l, Some (accept\<lparr>iid := g_iid g, ballot := ucast (g_ballot g), pvalue := v\<rparr>))
           }
         }
   }"

definition learner_receive_preempted ::
  "learner \<Rightarrow> paxos_preempted \<Rightarrow> (learner \<times> paxos_prepare option) option" where
  "learner_receive_preempted l ack = do {
     found \<leftarrow> learner_get_gap l (iid ack);
     case found of
       None \<Rightarrow> Some (l, None)
     | Some (k, g) \<Rightarrow>
         let g = gap_reset (g\<lparr>g_ballot := ucast (ballot ack)\<rparr>)
         in Some (l\<lparr>l_gaps := kh_set_value (l_gaps l) k g\<rparr>,
              Some (zero_record\<lparr>iid := g_iid g, ballot := ucast (g_ballot g)\<rparr>))
   }"

section \<open>Delivery\<close>

definition learner_deliver_next ::
  "(iid_t \<Rightarrow> iid_t) \<Rightarrow> learner \<Rightarrow> (learner \<times> paxos_accepted option) option" where
  "learner_deliver_next freed l = do {
     found \<leftarrow> learner_get_current_instance l;
     case found of
       None \<Rightarrow> Some (l, None)
     | Some (k, inst) \<Rightarrow> do {
         (inst, closed) \<leftarrow> instance_has_quorum inst (l_acceptors l);
         let l = l\<lparr>l_instances := kh_set_value (l_instances l) k inst\<rparr>;
         if \<not> closed then Some (l, None)
         else do {
           final \<leftarrow> li_final_value inst;
           out \<leftarrow> paxos_accepted_dup final;
           l \<leftarrow> learner_delete_instance l inst;
           g \<leftarrow> learner_get_gap l (freed (li_iid inst));
           l \<leftarrow> (case g of Some (_, g) \<Rightarrow> learner_delete_gap l g | None \<Rightarrow> Some l);
           Some (l\<lparr>l_current_iid := l_current_iid l + 1\<rparr>, Some out)
         }
       }
   }"

end
