(* ===== verification/Evpaxos.thy ===== *)
theory Evpaxos
  imports Acceptor Proposer Learner
begin

text \<open>
  The event handlers of \<open>evpaxos\<close>: \<open>evacceptor.c\<close>, \<open>evproposer.c\<close> and
  \<open>evlearner.c\<close>. A handler takes the state and the message libevent hands it and returns the
  new state and the messages it sends, in order, each with its destination: the peer the
  message came from, all peers that connected to this process, or all acceptors. The timers
  themselves are not modelled, only what runs when they fire. A \<open>clock\<close> gives the successive
  results of \<open>gettimeofday\<close> during one handler.
\<close>

datatype dest = ToPeer | ToClients | ToAcceptors

type_synonym sends = "(dest \<times> paxos_message) list"
type_synonym clock = "nat \<Rightarrow> timeval"

section \<open>evacceptor.c\<close>

definition evacceptor_handle_prepare ::
  "'s acceptor \<Rightarrow> paxos_prepare \<Rightarrow> ('s acceptor \<times> sends) option" where
  "evacceptor_handle_prepare a prepare = do {
     (a, out) \<leftarrow> acceptor_receive_prepare a prepare;
     Some (a, case out of Some m \<Rightarrow> [(ToPeer, m)] | None \<Rightarrow> [])
   }"

definition evacceptor_handle_accept ::
  "'s acceptor \<Rightarrow> paxos_accept \<Rightarrow> ('s acceptor \<times> sends) option" where
  "evacceptor_handle_accept a accept = do {
     (a, out) \<leftarrow> acceptor_receive_accept a accept;
     Some (a, case out of
         Some (PAXOS_ACCEPTED r) \<Rightarrow> [(ToClients, PAXOS_ACCEPTED r)]
       | Some (PAXOS_PREEMPTED r) \<Rightarrow> [(ToPeer, PAXOS_PREEMPTED r)]
       | _ \<Rightarrow> [])
   }"

text \<open>
  The loop ends when the identifier is above \<open>to\<close>; with the largest \<open>to\<close> it never is, and the
  loop does not return.
\<close>

partial_function (option) evacceptor_repeat_loop ::
  "'s acceptor \<Rightarrow> iid_t \<Rightarrow> iid_t \<Rightarrow> sends \<Rightarrow> ('s acceptor \<times> sends) option" where
  "evacceptor_repeat_loop a i lst out =
    (if i \<le> lst then do {
       (a, acc) \<leftarrow> acceptor_receive_repeat a i;
       evacceptor_repeat_loop a (i + 1) lst
         (out @ (case acc of Some r \<Rightarrow> [(ToPeer, PAXOS_ACCEPTED r)] | None \<Rightarrow> []))
     }
     else Some (a, out))"

definition evacceptor_handle_repeat ::
  "'s acceptor \<Rightarrow> paxos_repeat \<Rightarrow> ('s acceptor \<times> sends) option" where
  "evacceptor_handle_repeat a repeat =
    evacceptor_repeat_loop a (repeat_from repeat) (repeat_to repeat) []"

definition evacceptor_handle_trim ::
  "'s acceptor \<Rightarrow> paxos_trim \<Rightarrow> ('s acceptor \<times> sends) option" where
  "evacceptor_handle_trim a trim = do {
     (a, _) \<leftarrow> acceptor_receive_trim a trim;
     Some (a, [])
   }"

definition send_acceptor_state :: "'s acceptor \<Rightarrow> 's acceptor \<times> sends" where
  "send_acceptor_state a =
    (a, [(ToClients, PAXOS_ACCEPTOR_STATE (acceptor_set_current_state a))])"

section \<open>evproposer.c\<close>

record evproposer =
  ep_id :: int
  ep_preexec_window :: int
  ep_state :: proposer

primrec proposer_preexecute_loop ::
  "nat \<Rightarrow> clock \<Rightarrow> proposer \<Rightarrow> sends \<Rightarrow> (proposer \<times> sends) option" where
  "proposer_preexecute_loop 0 now p out = Some (p, out)"
| "proposer_preexecute_loop (Suc n) now p out = do {
     (p, pr) \<leftarrow> proposer_prepare p (now 0);
     proposer_preexecute_loop n (\<lambda>i. now (Suc i)) p (out @ [(ToAcceptors, PAXOS_PREPARE pr)])
   }"

definition proposer_preexecute :: "clock \<Rightarrow> evproposer \<Rightarrow> (evproposer \<times> sends) option" where
  "proposer_preexecute now p = do {
     let count = ep_preexec_window p - proposer_prepared_count (ep_state p);
     if count \<le> 0 then Some (p, [])
     else do {
       (st, out) \<leftarrow> proposer_preexecute_loop (nat count) now (ep_state p) [];
       Some (p\<lparr>ep_state := st\<rparr>, out)
     }
   }"

partial_function (option) try_accept_loop :: "proposer \<Rightarrow> sends \<Rightarrow> (proposer \<times> sends) option" where
  "try_accept_loop p out = do {
     (p, acc) \<leftarrow> proposer_accept p;
     case acc of
       Some a \<Rightarrow> try_accept_loop p (out @ [(ToAcceptors, PAXOS_ACCEPT a)])
     | None \<Rightarrow> Some (p, out)
   }"

definition try_accept :: "clock \<Rightarrow> evproposer \<Rightarrow> (evproposer \<times> sends) option" where
  "try_accept now p = do {
     (st, out) \<leftarrow> try_accept_loop (ep_state p) [];
     (p, out') \<leftarrow> proposer_preexecute now (p\<lparr>ep_state := st\<rparr>);
     Some (p, out @ out')
   }"

text \<open>Sending a prepare that preemption asks for.\<close>

definition preempt_sends :: "paxos_prepare option \<Rightarrow> sends" where
  "preempt_sends pr = (case pr of Some r \<Rightarrow> [(ToAcceptors, PAXOS_PREPARE r)] | None \<Rightarrow> [])"

definition evproposer_handle_promise ::
  "clock \<Rightarrow> evproposer \<Rightarrow> paxos_promise \<Rightarrow> (evproposer \<times> sends) option" where
  "evproposer_handle_promise now p pro = do {
     (st, pr) \<leftarrow> proposer_receive_promise (ep_state p) pro (now 0);
     (p, out) \<leftarrow> try_accept (\<lambda>i. now (Suc i)) (p\<lparr>ep_state := st\<rparr>);
     Some (p, preempt_sends pr @ out)
   }"

definition evproposer_handle_accepted ::
  "clock \<Rightarrow> evproposer \<Rightarrow> paxos_accepted \<Rightarrow> (evproposer \<times> sends) option" where
  "evproposer_handle_accepted now p acc = do {
     (st, rv) \<leftarrow> proposer_receive_accepted (ep_state p) acc;
     let p = p\<lparr>ep_state := st\<rparr>;
     if rv \<noteq> 0 then try_accept now p else Some (p, [])
   }"

definition evproposer_handle_preempted ::
  "clock \<Rightarrow> evproposer \<Rightarrow> paxos_preempted \<Rightarrow> (evproposer \<times> sends) option" where
  "evproposer_handle_preempted now p ack = do {
     (st, pr) \<leftarrow> proposer_receive_preempted (ep_state p) ack (now 0);
     let p = p\<lparr>ep_state := st\<rparr>;
     if pr \<noteq> None then do {
       (p, out) \<leftarrow> try_accept (\<lambda>i. now (Suc i)) p;
       Some (p, preempt_sends pr @ out)
     }
     else Some (p, [])
   }"

definition evproposer_handle_client_value ::
  "clock \<Rightarrow> evproposer \<Rightarrow> paxos_client_value \<Rightarrow> (evproposer \<times> sends) option" where
  "evproposer_handle_client_value now p v = do {
     st \<leftarrow> proposer_propose (ep_state p) (paxos_value_val (client_value v))
       (size_of_int (paxos_value_len (client_value v)));
     try_accept now (p\<lparr>ep_state := st\<rparr>)
   }"

definition evproposer_handle_acceptor_state ::
  "evproposer \<Rightarrow> paxos_acceptor_state \<Rightarrow> (evproposer \<times> sends) option" where
  "evproposer_handle_acceptor_state p acc_state = do {
     st \<leftarrow> proposer_receive_acceptor_state (ep_state p) acc_state;
     Some (p\<lparr>ep_state := st\<rparr>, [])
   }"

partial_function (option) timeout_prepare_loop ::
  "paxos_config \<Rightarrow> timeout_iterator \<Rightarrow> proposer \<Rightarrow> sends \<Rightarrow> (timeout_iterator \<times> proposer \<times> sends) option" where
  "timeout_prepare_loop cfg iter p out = do {
     (iter, p, pr) \<leftarrow> timeout_iterator_prepare cfg iter p;
     case pr of
       Some r \<Rightarrow> timeout_prepare_loop cfg iter p (out @ [(ToAcceptors, PAXOS_PREPARE r)])
     | None \<Rightarrow> Some (iter, p, out)
   }"

partial_function (option) timeout_accept_loop ::
  "paxos_config \<Rightarrow> timeout_iterator \<Rightarrow> proposer \<Rightarrow> sends \<Rightarrow> (timeout_iterator \<times> proposer \<times> sends) option" where
  "timeout_accept_loop cfg iter p out = do {
     (iter, p, ar) \<leftarrow> timeout_iterator_accept cfg iter p;
     case ar of
       Some r \<Rightarrow> timeout_accept_loop cfg iter p (out @ [(ToAcceptors, PAXOS_ACCEPT r)])
     | None \<Rightarrow> Some (iter, p, out)
   }"

definition evproposer_check_timeouts ::
  "paxos_config \<Rightarrow> timeval \<Rightarrow> evproposer \<Rightarrow> (evproposer \<times> sends) option" where
  "evproposer_check_timeouts cfg now p = do {
     let iter = proposer_timeout_iterator (ep_state p) now;
     (iter, st, out) \<leftarrow> timeout_prepare_loop cfg iter (ep_state p) [];
     (iter, st, out) \<leftarrow> timeout_accept_loop cfg iter st out;
     Some (p\<lparr>ep_state := st\<rparr>, out)
   }"

definition evproposer_preexec_once :: "clock \<Rightarrow> evproposer \<Rightarrow> (evproposer \<times> sends) option" where
  "evproposer_preexec_once now p = proposer_preexecute now p"

definition evproposer_init_internal :: "paxos_config \<Rightarrow> int \<Rightarrow> int \<Rightarrow> evproposer option" where
  "evproposer_init_internal cfg i acceptor_count = do {
     st \<leftarrow> proposer_new i acceptor_count;
     Some \<lparr>ep_id = i, ep_preexec_window = proposer_preexec_window cfg, ep_state = st\<rparr>
   }"

definition evproposer_set_instance_id :: "evproposer \<Rightarrow> iid_t \<Rightarrow> evproposer option" where
  "evproposer_set_instance_id p i = do {
     st \<leftarrow> proposer_set_instance_id (ep_state p) i;
     Some (p\<lparr>ep_state := st\<rparr>)
   }"

section \<open>evlearner.c\<close>

text \<open>What the delivery callback is called with: instance, buffer and length.\<close>

type_synonym delivery = "iid_t \<times> cbuf \<times> int"

definition delivery_of :: "paxos_accepted \<Rightarrow> delivery" where
  "delivery_of r = (iid r, paxos_value_val (pvalue r), paxos_value_len (pvalue r))"

partial_function (option) evlearner_deliver_next_closed ::
  "(iid_t \<Rightarrow> iid_t) \<Rightarrow> learner \<Rightarrow> delivery list \<Rightarrow> (learner \<times> delivery list) option" where
  "evlearner_deliver_next_closed freed l ds = do {
     (l, deliver) \<leftarrow> learner_deliver_next freed l;
     case deliver of
       Some r \<Rightarrow> evlearner_deliver_next_closed freed l (ds @ [delivery_of r])
     | None \<Rightarrow> Some (l, ds)
   }"

definition evlearner_handle_accepted ::
  "(iid_t \<Rightarrow> iid_t) \<Rightarrow> learner \<Rightarrow> paxos_accepted \<Rightarrow> (learner \<times> delivery list) option" where
  "evlearner_handle_accepted freed l acc = do {
     l \<leftarrow> learner_receive_accepted l acc;
     evlearner_deliver_next_closed freed l []
   }"

text \<open>The difference is unsigned, and so is the comparison with \<open>chunks\<close>.\<close>

definition evlearner_check_holes :: "learner \<Rightarrow> sends" where
  "evlearner_check_holes l = (case learner_has_holes l of
     Some (f, t) \<Rightarrow>
       [(ToAcceptors, PAXOS_REPEAT \<lparr>repeat_from = f, repeat_to = (if t - f > 10 then f + 10 else t)\<rparr>)]
   | None \<Rightarrow> [])"

definition evlearner_set_instance_id :: "learner \<Rightarrow> iid_t \<Rightarrow> learner" where
  "evlearner_set_instance_id l i = learner_set_instance_id l i"

definition evlearner_send_trim :: "iid_t \<Rightarrow> sends" where
  "evlearner_send_trim i = [(ToAcceptors, PAXOS_TRIM \<lparr>trim_iid = i\<rparr>)]"

end
