(* ===== verification/Proposer_Spec.thy ===== *)
theory Proposer_Spec
  imports Proposer "HOL-Library.Multiset"
begin

text \<open>
  The abstract proposer: finite maps in place of the hash tables and a list in place of the
  circular array, with one operation for each operation of \<open>Proposer\<close>. The lemmas
  \<open>*_refines\<close> show that the code implements it and never faults, as long as the tables and the
  queue have room; the later proofs about the protocol use the abstract operations only.
\<close>

section \<open>The abstract state\<close>

record prop_spec =
  s_id :: int
  s_acceptors :: int
  s_values :: "paxos_value list"
  s_max_trim :: iid_t
  s_next :: iid_t
  s_prep :: "iid_t \<Rightarrow> pinstance option"
  s_acc :: "iid_t \<Rightarrow> pinstance option"

definition prop_abs :: "proposer \<Rightarrow> prop_spec" where
  "prop_abs p =
    \<lparr>s_id = p_id p, s_acceptors = p_acceptors p, s_values = carray_list (p_values p),
     s_max_trim = p_max_trim_iid p, s_next = p_next_prepare_iid p,
     s_prep = kh_map (p_prepare_instances p), s_acc = kh_map (p_accept_instances p)\<rparr>"

text \<open>
  The invariant of the containers. The load counts every value and instance a proposer holds;
  below the bound there is room for one more element in each container.
\<close>

definition prop_repr :: "proposer \<Rightarrow> bool" where
  "prop_repr p \<longleftrightarrow> carray_inv (p_values p) \<and> kh_inv (p_prepare_instances p) \<and>
     kh_inv (p_accept_instances p)"

definition prop_load :: "prop_spec \<Rightarrow> nat" where
  "prop_load s = length (s_values s) + card (dom (s_prep s)) + card (dom (s_acc s))"

definition prop_room :: "proposer \<Rightarrow> bool" where
  "prop_room p \<longleftrightarrow> prop_load (prop_abs p) < 2 ^ 29"

lemma carray_room_length: "carray_inv a \<Longrightarrow> length (carray_list a) < 2 ^ 29 \<Longrightarrow> carray_room a"
  by (auto simp: carray_list_length carray_inv_def carray_room_def)

lemma prop_roomD:
  assumes "prop_room p" "prop_repr p"
  shows "carray_room (p_values p)" "kh_room (p_prepare_instances p)" "kh_room (p_accept_instances p)"
  using assms carray_room_length [of "p_values p"]
  by (simp_all add: prop_room_def prop_load_def prop_repr_def kh_room_dom prop_abs_def)

text \<open>
  A value a proposer may hold: well formed, not empty, and one of the client values \<open>W\<close>.
\<close>

definition ok_value :: "byte list set \<Rightarrow> paxos_value \<Rightarrow> bool" where
  "ok_value W v \<longleftrightarrow> value_wf v \<and> 0 < paxos_value_len v \<and> value_bytes v \<in> W"

text \<open>
  The ballots a proposer uses: congruent to its identifier, and never more than one step above
  what the 16 bits of a message can carry.
\<close>

definition own_ballot :: "int \<Rightarrow> ballot_t \<Rightarrow> bool" where
  "own_ballot i b \<longleftrightarrow> 10 \<le> uint b \<and> uint b mod 10 = i \<and> uint b \<le> 65544"

definition inst_wf :: "nat \<Rightarrow> int \<Rightarrow> byte list set \<Rightarrow> pinstance \<Rightarrow> bool" where
  "inst_wf n i W inst \<longleftrightarrow> quorum_inv n (i_quorum inst) \<and> own_ballot i (i_ballot inst) \<and>
     (quorum_set (i_quorum inst) \<noteq> {} \<longrightarrow> uint (i_ballot inst) < 65536) \<and>
     (\<forall>v. i_value inst = Some v \<longrightarrow> ok_value W v) \<and>
     (\<forall>v. i_promised_value inst = Some v \<longrightarrow> ok_value W v)"

definition spec_inv :: "nat \<Rightarrow> byte list set \<Rightarrow> prop_spec \<Rightarrow> bool" where
  "spec_inv n W s \<longleftrightarrow> s_acceptors s = int n \<and> 0 \<le> s_id s \<and> s_id s < 10 \<and>
     (\<forall>v \<in> set (s_values s). ok_value W v) \<and>
     dom (s_prep s) \<inter> dom (s_acc s) = {} \<and>
     (\<forall>k inst. s_prep s k = Some inst \<longrightarrow> i_iid inst = k \<and> 0 < k \<and> k \<le> s_next s \<and>
        inst_wf n (s_id s) W inst) \<and>
     (\<forall>k inst. s_acc s k = Some inst \<longrightarrow> i_iid inst = k \<and> 0 < k \<and> k \<le> s_next s \<and>
        inst_wf n (s_id s) W inst \<and> uint (i_ballot inst) < 65536 \<and>
        (i_value inst \<noteq> None \<or> i_promised_value inst \<noteq> None))"

lemma spec_invD_prep:
  "spec_inv n W s \<Longrightarrow> s_prep s k = Some inst \<Longrightarrow>
    i_iid inst = k \<and> 0 < k \<and> k \<le> s_next s \<and> inst_wf n (s_id s) W inst \<and> s_acc s k = None"
  by (fastforce simp: spec_inv_def dom_def)

lemma spec_invD_acc:
  "spec_inv n W s \<Longrightarrow> s_acc s k = Some inst \<Longrightarrow>
    i_iid inst = k \<and> 0 < k \<and> k \<le> s_next s \<and> inst_wf n (s_id s) W inst \<and>
    uint (i_ballot inst) < 65536 \<and> (i_value inst \<noteq> None \<or> i_promised_value inst \<noteq> None) \<and>
    s_prep s k = None"
  by (fastforce simp: spec_inv_def dom_def)

section \<open>The abstract operations\<close>

definition preempt_inst :: "int \<Rightarrow> pinstance \<Rightarrow> timeval \<Rightarrow> pinstance" where
  "preempt_inst i inst now =
    inst\<lparr>i_ballot := (if i_ballot inst > 0 then 10 + i_ballot inst else word_of_int (10 + i)),
      i_value_ballot := 0, i_promised_value := None, i_quorum := quorum_clear (i_quorum inst),
      i_created_at := now\<rparr>"

definition fresh_inst :: "prop_spec \<Rightarrow> timeval \<Rightarrow> pinstance" where
  "fresh_inst s now = \<lparr>i_iid = s_next s + 1, i_ballot = word_of_int (10 + s_id s), i_value = None,
     i_promised_value = None, i_value_ballot = 0, i_quorum = quorum_init (s_acceptors s),
     i_created_at = now\<rparr>"

definition spec_fresh :: "prop_spec \<Rightarrow> timeval \<Rightarrow> prop_spec \<times> paxos_prepare" where
  "spec_fresh s now =
    (s\<lparr>s_next := s_next s + 1, s_prep := (s_prep s)(s_next s + 1 \<mapsto> fresh_inst s now)\<rparr>,
     instance_to_prepare (fresh_inst s now))"

definition quorum_with :: "quorum \<Rightarrow> nat \<Rightarrow> quorum" where
  "quorum_with q i = (case quorum_add q (int i) of Some (q', _) \<Rightarrow> q' | None \<Rightarrow> q)"

definition promise_inst :: "pinstance \<Rightarrow> paxos_promise \<Rightarrow> pinstance" where
  "promise_inst inst ack =
    (let inst = inst\<lparr>i_quorum := quorum_with (i_quorum inst) (unat (aid ack))\<rparr> in
     if paxos_value_len (pvalue ack) > 0 \<and> ucast (value_ballot ack) > i_value_ballot inst
     then inst\<lparr>i_value_ballot := ucast (value_ballot ack),
       i_promised_value := Some (value_of_bytes (value_bytes (pvalue ack)))\<rparr>
     else inst)"

definition spec_promise ::
  "prop_spec \<Rightarrow> paxos_promise \<Rightarrow> timeval \<Rightarrow> prop_spec \<times> paxos_prepare option" where
  "spec_promise s ack now = (case s_prep s (iid ack) of
     None \<Rightarrow> (s, None)
   | Some inst \<Rightarrow>
       if ucast (ballot ack) < i_ballot inst then (s, None)
       else if i_ballot inst < ucast (ballot ack) then
         (s\<lparr>s_prep := (s_prep s)(iid ack \<mapsto> preempt_inst (s_id s) inst now)\<rparr>,
          Some (instance_to_prepare (preempt_inst (s_id s) inst now)))
       else if unat (aid ack) \<in> quorum_set (i_quorum inst) then (s, None)
       else (s\<lparr>s_prep := (s_prep s)(iid ack \<mapsto> promise_inst inst ack)\<rparr>, None))"

definition take_value :: "prop_spec \<Rightarrow> pinstance \<Rightarrow> paxos_value option \<times> paxos_value list" where
  "take_value s inst = (case i_value inst of
     Some v \<Rightarrow> (Some v, s_values s)
   | None \<Rightarrow> (case s_values s of [] \<Rightarrow> (None, []) | v # vs \<Rightarrow> (Some v, vs)))"

definition accept_msg :: "pinstance \<Rightarrow> paxos_accept" where
  "accept_msg inst = the (instance_to_accept inst)"

definition spec_paccept :: "prop_spec \<Rightarrow> prop_spec \<times> paxos_accept option" where
  "spec_paccept s =
    (if dom (s_prep s) = {} then (s, None)
     else
       let k = Min (dom (s_prep s)); inst = the (s_prep s k); (v, vs) = take_value s inst;
         inst' = inst\<lparr>i_value := v, i_quorum := quorum_clear (i_quorum inst)\<rparr>
       in if \<not> quorum_reached (i_quorum inst) \<or> (v = None \<and> i_promised_value inst = None) then (s, None)
          else (s\<lparr>s_values := vs, s_prep := (s_prep s)(k := None), s_acc := (s_acc s)(k \<mapsto> inst')\<rparr>,
                Some (accept_msg inst')))"

text \<open>The client value that a proposer gets back when another value was chosen in its place.\<close>

definition returned_value :: "pinstance \<Rightarrow> paxos_value list" where
  "returned_value inst = (case (i_promised_value inst, i_value inst) of
     (Some pv, Some v) \<Rightarrow> if v \<noteq> pv then [v] else []
   | _ \<Rightarrow> [])"

definition spec_accepted :: "prop_spec \<Rightarrow> paxos_accepted \<Rightarrow> prop_spec \<times> int" where
  "spec_accepted s ack = (case s_acc s (iid ack) of
     None \<Rightarrow> (s, 0)
   | Some inst \<Rightarrow>
       if ucast (ballot ack) \<noteq> i_ballot inst \<or> unat (aid ack) \<in> quorum_set (i_quorum inst) then (s, 0)
       else let q = quorum_with (i_quorum inst) (unat (aid ack)) in
         if quorum_reached q then
           (s\<lparr>s_values := s_values s @ returned_value inst, s_acc := (s_acc s)(iid ack := None)\<rparr>, 2)
         else (s\<lparr>s_acc := (s_acc s)(iid ack \<mapsto> inst\<lparr>i_quorum := q\<rparr>)\<rparr>, 1))"

definition spec_preempted ::
  "prop_spec \<Rightarrow> paxos_preempted \<Rightarrow> timeval \<Rightarrow> prop_spec \<times> paxos_prepare option" where
  "spec_preempted s ack now = (case s_acc s (iid ack) of
     None \<Rightarrow> (s, None)
   | Some inst \<Rightarrow>
       if i_ballot inst < ucast (ballot ack) then
         (s\<lparr>s_acc := (s_acc s)(iid ack := None),
            s_prep := (s_prep s)(iid ack \<mapsto> preempt_inst (s_id s) inst now)\<rparr>,
          Some (instance_to_prepare (preempt_inst (s_id s) inst now)))
       else (s, None))"

section \<open>Refinement\<close>

lemma prop_abs_simps [simp]:
  "s_id (prop_abs p) = p_id p" "s_acceptors (prop_abs p) = p_acceptors p"
  "s_values (prop_abs p) = carray_list (p_values p)" "s_max_trim (prop_abs p) = p_max_trim_iid p"
  "s_next (prop_abs p) = p_next_prepare_iid p" "s_prep (prop_abs p) = kh_map (p_prepare_instances p)"
  "s_acc (prop_abs p) = kh_map (p_accept_instances p)"
  by (simp_all add: prop_abs_def)

lemma prop_abs_upd [simp]:
  "prop_abs (p\<lparr>p_prepare_instances := h\<rparr>) = (prop_abs p)\<lparr>s_prep := kh_map h\<rparr>"
  "prop_abs (p\<lparr>p_accept_instances := h\<rparr>) = (prop_abs p)\<lparr>s_acc := kh_map h\<rparr>"
  "prop_abs (p\<lparr>p_values := vs\<rparr>) = (prop_abs p)\<lparr>s_values := carray_list vs\<rparr>"
  "prop_abs (p\<lparr>p_next_prepare_iid := i\<rparr>) = (prop_abs p)\<lparr>s_next := i\<rparr>"
  "prop_abs (p\<lparr>p_max_trim_iid := i\<rparr>) = (prop_abs p)\<lparr>s_max_trim := i\<rparr>"
  by (simp_all add: prop_abs_def)

lemma prop_spec_idem [simp]:
  "(prop_abs p)\<lparr>s_prep := kh_map (p_prepare_instances p)\<rparr> = prop_abs p"
  "(prop_abs p)\<lparr>s_acc := kh_map (p_accept_instances p)\<rparr> = prop_abs p"
  "(prop_abs p)\<lparr>s_values := carray_list (p_values p)\<rparr> = prop_abs p"
  by (simp_all add: prop_abs_def)

lemma proposer_preempt_inst:
  "proposer_preempt p inst now =
    (preempt_inst (p_id p) inst now, instance_to_prepare (preempt_inst (p_id p) inst now))"
  by (simp add: proposer_preempt_def preempt_inst_def proposer_next_ballot_def MAX_N_OF_PROPOSERS_def
    instance_to_prepare_def Let_def)

lemma quorum_with_add:
  assumes "quorum_inv n q" "i < n"
  shows "quorum_add q (int i) = Some (quorum_with q i, if i \<in> quorum_set q then 0 else 1)"
    and "quorum_inv n (quorum_with q i)" and "quorum_set (quorum_with q i) = insert i (quorum_set q)"
    and "i \<in> quorum_set q \<Longrightarrow> quorum_with q i = q"
proof -
  obtain q' where q': "quorum_add q (int i) = Some (q', if i \<in> quorum_set q then 0 else 1)"
    "quorum_inv n q'" "quorum_set q' = insert i (quorum_set q)" "i \<in> quorum_set q \<Longrightarrow> q' = q"
    using assms by (rule quorum_add_spec) blast
  moreover from q'(1) have "quorum_with q i = q'" by (simp add: quorum_with_def)
  ultimately show "quorum_add q (int i) = Some (quorum_with q i, if i \<in> quorum_set q then 0 else 1)"
    "quorum_inv n (quorum_with q i)" "quorum_set (quorum_with q i) = insert i (quorum_set q)"
    "i \<in> quorum_set q \<Longrightarrow> quorum_with q i = q" by auto
qed

lemma memcmp_eq: "length xs = length ys \<Longrightarrow> memcmp xs ys = 0 \<longleftrightarrow> xs = ys"
  by (induction xs ys rule: memcmp.induct) auto

lemma ok_value_bytes: "ok_value W v \<Longrightarrow> value_of_bytes (value_bytes v) = v"
  by (cases v) (auto simp: ok_value_def value_wf_def value_of_bytes_def value_bytes_def buf_len_def
    split: option.splits)

lemma ok_value_cmp:
  assumes "ok_value W v" "ok_value W w"
  shows "\<exists>c. paxos_value_cmp v w = Some c \<and> (c = 0 \<longleftrightarrow> v = w)"
proof (cases "paxos_value_len v = paxos_value_len w")
  case True
  have wf: "value_wf v" "value_wf w" using assms by (simp_all add: ok_value_def)
  have "length (value_bytes v) = length (value_bytes w)" using True wf value_wf_len by simp
  moreover have "value_bytes v = value_bytes w \<longleftrightarrow> v = w" using assms ok_value_bytes by metis
  moreover have "paxos_value_cmp v w = Some (memcmp (value_bytes v) (value_bytes w))"
    using True value_wf_read [OF wf(1)] value_wf_read [OF wf(2)] wf(1)
    by (simp add: paxos_value_cmp_def value_wf_def)
  ultimately show ?thesis by (simp add: memcmp_eq)
next
  case False
  then show ?thesis by (auto simp: paxos_value_cmp_def)
qed

lemma proposer_prepare_refines:
  assumes "prop_repr p" "prop_room p" "spec_inv n W (prop_abs p)" "p_next_prepare_iid p \<noteq> - 1"
  shows "refines prop_abs prop_repr (proposer_prepare p now) (spec_fresh (prop_abs p) now)"
proof -
  let ?i = "p_next_prepare_iid p + 1" and ?h = "p_prepare_instances p"
  let ?inst = "fresh_inst (prop_abs p) now"
  have "p_next_prepare_iid p < ?i" using assms(4) by (rule word_less_plus_1)
  then have pos: "0 < ?i" "\<not> ?i \<le> p_next_prepare_iid p"
    by (auto intro: le_less_trans [OF word_zero_le])
  have fresh: "kh_map ?h ?i = None"
    using spec_invD_prep [OF assms(3), of ?i] pos(2) by (cases "kh_map ?h ?i") auto
  obtain h x rv where put: "kh_put ?h ?i = Some (h, x, rv)" "0 < rv"
    "kh_inv (kh_set_value h x ?inst)" "kh_map (kh_set_value h x ?inst) = (kh_map ?h)(?i \<mapsto> ?inst)"
    using kh.store_new [OF _ _ fresh] assms(1,2) prop_roomD(2) [OF assms(2,1)] unfolding prop_repr_def by metis
  have "proposer_prepare p now =
      Some (p\<lparr>p_next_prepare_iid := ?i, p_prepare_instances := kh_set_value h x ?inst\<rparr>,
        instance_to_prepare ?inst)"
    using put(1,2) pos(1)
    by (simp add: proposer_prepare_def instance_new_def fresh_inst_def proposer_next_ballot_def
      MAX_N_OF_PROPOSERS_def Let_def)
  then show ?thesis
    using put(3,4) assms(1) by (simp add: refines_def spec_fresh_def prop_repr_def)
qed

lemma proposer_propose_refines:
  assumes "prop_repr p" "carray_room (p_values p)" "value_wf v"
  obtains p' where "proposer_propose p (paxos_value_val v) (nat (paxos_value_len v)) = Some p'"
    "prop_repr p'"
    "prop_abs p' = (prop_abs p)\<lparr>s_values := s_values (prop_abs p) @ [value_of_bytes (value_bytes v)]\<rparr>"
proof -
  have "carray_inv (p_values p)" using assms(1) by (simp add: prop_repr_def)
  then obtain vs where "carray_push_back (p_values p) (value_of_bytes (value_bytes v)) = Some vs"
    "carray_inv vs" "carray_list vs = carray_list (p_values p) @ [value_of_bytes (value_bytes v)]"
    using assms(2) by (rule cq.push_obtain)
  then show thesis
    using assms(1) by (intro that [of "p\<lparr>p_values := vs\<rparr>"])
      (simp_all add: proposer_propose_def paxos_value_new_wf [OF assms(3)] prop_repr_def)
qed

lemma proposer_receive_promise_refines:
  assumes repr: "prop_repr p" and inv: "spec_inv n W (prop_abs p)"
    and aid: "unat (aid ack) < n" and val: "value_wf (pvalue ack)"
  shows "refines prop_abs prop_repr (proposer_receive_promise p ack now)
    (spec_promise (prop_abs p) ack now)"
proof -
  let ?h = "p_prepare_instances p"
  have h: "kh_inv ?h" using repr by (simp add: prop_repr_def)
  then show ?thesis
  proof (cases rule: kh.lookup_cases [where k = "iid ack"])
    case absent
    then show ?thesis using repr by (simp add: refines_def proposer_receive_promise_def spec_promise_def)
  next
    case (present k inst)
    have q: "quorum_inv n (i_quorum inst)"
      using spec_invD_prep [OF inv] present(1) by (simp add: inst_wf_def)
    have upd: "kh_inv (kh_set_value ?h k v)" "kh_map (kh_set_value ?h k v) = (kh_map ?h)(iid ack \<mapsto> v)" for v
      using kh.invar_set_val [OF h present(3)] kh.lookup_set_val [OF h present(3)] by simp_all
    have "uint (aid ack) = int (unat (aid ack))" by simp
    note add = quorum_with_add [OF q aid, folded this]
    have idem: "(prop_abs p)\<lparr>s_prep := (kh_map ?h)(iid ack \<mapsto> inst)\<rparr> = prop_abs p"
      using present(1) by (simp add: fun_upd_idem)
    consider "ucast (ballot ack) < i_ballot inst" | "i_ballot inst < ucast (ballot ack)"
      | "ucast (ballot ack) = i_ballot inst" by (rule linorder_cases) auto
    then show ?thesis
    proof cases
      case 1
      then show ?thesis using present repr
        by (simp add: refines_def proposer_receive_promise_def spec_promise_def)
    next
      case 2
      then have "\<not> ucast (ballot ack) < i_ballot inst" by simp
      then show ?thesis using 2 present repr upd
        by (simp add: refines_def proposer_receive_promise_def spec_promise_def proposer_preempt_inst
          prop_repr_def)
    next
      case 3
      show ?thesis
      proof (cases "unat (aid ack) \<in> quorum_set (i_quorum inst)")
        case True
        have "proposer_receive_promise p ack now = Some (p\<lparr>p_prepare_instances := kh_set_value ?h k inst\<rparr>, None)"
          using True 3 present(2,4,5) add(1) add(4) [OF True] by (simp add: proposer_receive_promise_def)
        then show ?thesis using True 3 present(1) repr upd [of inst] idem
          by (simp add: refines_def spec_promise_def prop_repr_def)
      next
        case False
        have "proposer_receive_promise p ack now =
            Some (p\<lparr>p_prepare_instances := kh_set_value ?h k (promise_inst inst ack)\<rparr>, None)"
          using False 3 present(2,4,5) add(1) paxos_value_new_wf [OF val]
          by (simp add: proposer_receive_promise_def promise_inst_def Let_def)
        then show ?thesis using False 3 present(1) repr upd [of "promise_inst inst ack"]
          by (simp add: refines_def spec_promise_def prop_repr_def)
      qed
    qed
  qed
qed

subsection \<open>The smallest prepared instance\<close>

definition bucket_of :: "pinstance khash \<Rightarrow> nat \<times> pinstance \<Rightarrow> bool" where
  "bucket_of h ki \<longleftrightarrow> kh_at h (i_iid (snd ki)) (fst ki) \<and> kh_map h (i_iid (snd ki)) = Some (snd ki)"

lemma find_smallest_spec:
  assumes h: "kh_inv h" and ids: "\<forall>k inst. kh_map h k = Some inst \<longrightarrow> i_iid inst = k"
    and "set ks \<subseteq> {..<n_buckets h}" and "\<forall>ki. best = Some ki \<longrightarrow> bucket_of h ki"
  shows "\<exists>res. find_smallest h ks best = Some res \<and> (\<forall>ki. res = Some ki \<longrightarrow> bucket_of h ki) \<and>
    (res = None \<longrightarrow> best = None \<and> (\<forall>x \<in> set ks. \<not> kh_exist h x)) \<and>
    (\<forall>ki. res = Some ki \<longrightarrow> (\<forall>b. best = Some b \<longrightarrow> i_iid (snd ki) \<le> i_iid (snd b)) \<and>
      (\<forall>x \<in> set ks. kh_exist h x \<longrightarrow> i_iid (snd ki) \<le> keys h ! x))"
  using assms(3,4)
proof (induction ks arbitrary: best)
  case Nil
  then show ?case by auto
next
  case (Cons x ks)
  show ?case
  proof (cases "kh_exist h x")
    case False
    then show ?thesis using Cons.IH [of best] Cons.prems by auto
  next
    case True
    then have at: "kh_at h (keys h ! x) x" using Cons.prems(1) by (simp add: kh_at_def)
    have ok: "kh_ok h" using h by (simp add: kh_inv_def)
    obtain inst where inst: "kh_value h x = Some inst" "kh_map h (keys h ! x) = Some inst"
      using kh.val_at [OF h at] kh_inv_at [OF h at] kh_map_at [OF ok at] by auto
    have key: "i_iid inst = keys h ! x" using ids inst(2) by blast
    let ?best = "case best of None \<Rightarrow> Some (x, inst)
      | Some (j, b) \<Rightarrow> if i_iid b > i_iid inst then Some (x, inst) else best"
    have "\<forall>ki. ?best = Some ki \<longrightarrow> bucket_of h ki"
      using Cons.prems(2) at inst(2) key by (auto simp: bucket_of_def split: option.splits if_splits)
    with Cons.IH [of ?best] Cons.prems(1)
    obtain res where res: "find_smallest h ks ?best = Some res" "\<forall>ki. res = Some ki \<longrightarrow> bucket_of h ki"
      "res = None \<longrightarrow> ?best = None"
      "\<forall>ki. res = Some ki \<longrightarrow> (\<forall>b. ?best = Some b \<longrightarrow> i_iid (snd ki) \<le> i_iid (snd b)) \<and>
        (\<forall>x \<in> set ks. kh_exist h x \<longrightarrow> i_iid (snd ki) \<le> keys h ! x)"
      by auto
    have "?best \<noteq> None" by (auto split: option.splits)
    then obtain b' where b': "?best = Some b'" by blast
    then have low: "i_iid (snd b') \<le> i_iid inst" "\<forall>b. best = Some b \<longrightarrow> i_iid (snd b') \<le> i_iid (snd b)"
      by (auto split: option.splits if_splits)
    have "find_smallest h (x # ks) best = Some res" using True inst(1) res(1) by simp
    moreover have "\<forall>ki. res = Some ki \<longrightarrow> i_iid (snd ki) \<le> i_iid (snd b')" using res(4) b' by blast
    ultimately show ?thesis
      using res(2,3,4) b' low key by (intro exI [of _ res]) (auto intro: order_trans)
  qed
qed

lemma find_smallest_Min:
  assumes h: "kh_inv h" and ids: "\<forall>k inst. kh_map h k = Some inst \<longrightarrow> i_iid inst = k"
  obtains (empty) "dom (kh_map h) = {}" "find_smallest h [0..<kh_end h] None = Some None"
  | (found) k inst where "dom (kh_map h) \<noteq> {}" "kh_map h (Min (dom (kh_map h))) = Some inst"
      "find_smallest h [0..<kh_end h] None = Some (Some (k, inst))"
      "kh_at h (Min (dom (kh_map h))) k"
proof -
  have ok: "kh_ok h" using h by (simp add: kh_inv_def)
  have "set [0..<kh_end h] \<subseteq> {..<n_buckets h}" by (auto simp: kh_end_def)
  from find_smallest_spec [OF h ids this, of None]
  obtain res where res: "find_smallest h [0..<kh_end h] None = Some res"
    "\<forall>ki. res = Some ki \<longrightarrow> bucket_of h ki" "res = None \<longrightarrow> (\<forall>x \<in> set [0..<kh_end h]. \<not> kh_exist h x)"
    "\<forall>ki. res = Some ki \<longrightarrow> (\<forall>x \<in> set [0..<kh_end h]. kh_exist h x \<longrightarrow> i_iid (snd ki) \<le> keys h ! x)"
    by auto
  have at: "\<exists>x \<in> set [0..<kh_end h]. kh_exist h x \<and> keys h ! x = k" if "k \<in> dom (kh_map h)" for k
    using that kh_map_at_bucket [OF ok] by (auto simp: kh_at_def)
  show thesis
  proof (cases res)
    case None
    then have "dom (kh_map h) = {}" using res(3) at by fastforce
    then show thesis using empty res(1) None by blast
  next
    case (Some ki)
    then have b: "bucket_of h ki" using res(2) by blast
    have "Min (dom (kh_map h)) = i_iid (snd ki)"
    proof (rule Min_eqI)
      show "finite (dom (kh_map h))" by (rule finite_dom_kh_map)
      show "i_iid (snd ki) \<in> dom (kh_map h)" using b by (auto simp: bucket_of_def)
      show "i_iid (snd ki) \<le> k" if "k \<in> dom (kh_map h)" for k
        using at [OF that] res(4) Some by blast
    qed
    then show thesis
      using b res(1) Some by (intro found [of "snd ki" "fst ki"]) (auto simp: bucket_of_def)
  qed
qed

subsection \<open>Moving an instance between the tables\<close>

lemma proposer_move_instance_spec:
  assumes f: "kh_inv f" and t: "kh_inv t" "kh_room t"
    and dom: "kh_map f (i_iid inst) \<noteq> None" "kh_map t (i_iid inst) = None"
  obtains f' t' k where
    "proposer_move_instance f t inst = Some (f', t', k, inst\<lparr>i_quorum := quorum_clear (i_quorum inst)\<rparr>)"
    "kh_inv f'" "kh_map f' = (kh_map f)(i_iid inst := None)" "kh_inv t'"
    "kh_map t' = (kh_map t)(i_iid inst \<mapsto> inst\<lparr>i_quorum := quorum_clear (i_quorum inst)\<rparr>)"
    "\<And>v. kh_inv (kh_set_value t' k v)" "\<And>v. kh_map (kh_set_value t' k v) = (kh_map t)(i_iid inst \<mapsto> v)"
proof -
  let ?inst = "inst\<lparr>i_quorum := quorum_clear (i_quorum inst)\<rparr>"
  obtain x v where x: "kh_get f (i_iid inst) = Some x" "kh_at f (i_iid inst) x" "x \<noteq> kh_end f"
    using f dom(1) by (cases rule: kh.lookup_cases [where k = "i_iid inst"]) auto
  obtain t1 k rv where put: "kh_put t (i_iid inst) = Some (t1, k, rv)" "0 \<le> rv"
    "rv = 0 \<longleftrightarrow> kh_map t (i_iid inst) \<noteq> None"
    "\<And>v. kh_inv (kh_set_value t1 k v)" "\<And>v. kh_map (kh_set_value t1 k v) = (kh_map t)(i_iid inst \<mapsto> v)"
    using kh.put_set_val [OF t, of "i_iid inst"] by blast
  have "proposer_move_instance f t inst = Some (kh_del f x, kh_set_value t1 k ?inst, k, ?inst)"
    using x put(1-3) dom(2) by (simp add: proposer_move_instance_def c_access Let_def)
  moreover have "kh_set_value (kh_set_value t1 k ?inst) k v = kh_set_value t1 k v" for v
    by (simp add: kh_set_value_def)
  ultimately show thesis
    using put(4,5) kh.invar_del [OF f x(2)] kh.lookup_del [OF f x(2)]
    by (intro that [of "kh_del f x" "kh_set_value t1 k ?inst" k]) simp_all
qed

lemma proposer_receive_preempted_refines:
  assumes repr: "prop_repr p" and room: "prop_room p" and inv: "spec_inv n W (prop_abs p)"
  shows "refines prop_abs prop_repr (proposer_receive_preempted p ack now)
    (spec_preempted (prop_abs p) ack now)"
proof -
  let ?h = "p_accept_instances p"
  have h: "kh_inv ?h" "kh_inv (p_prepare_instances p)" "kh_room (p_prepare_instances p)"
    using repr prop_roomD [OF room repr] by (simp_all add: prop_repr_def)
  from h(1) show ?thesis
  proof (cases rule: kh.lookup_cases [where k = "iid ack"])
    case absent
    then show ?thesis using repr by (simp add: refines_def proposer_receive_preempted_def spec_preempted_def)
  next
    case (present k inst)
    have acc: "i_iid inst = iid ack" "kh_map (p_prepare_instances p) (iid ack) = None"
      using spec_invD_acc [OF inv, of "iid ack" inst] present(1) by simp_all
    show ?thesis
    proof (cases "i_ballot inst < ucast (ballot ack)")
      case False
      then show ?thesis using present repr
        by (simp add: refines_def proposer_receive_preempted_def spec_preempted_def)
    next
      case True
      obtain f' t' k' where m: "proposer_move_instance ?h (p_prepare_instances p) inst =
          Some (f', t', k', inst\<lparr>i_quorum := quorum_clear (i_quorum inst)\<rparr>)"
        "kh_inv f'" "kh_map f' = (kh_map ?h)(iid ack := None)"
        "\<And>v. kh_inv (kh_set_value t' k' v)"
        "\<And>v. kh_map (kh_set_value t' k' v) = (kh_map (p_prepare_instances p))(iid ack \<mapsto> v)"
        using proposer_move_instance_spec [OF h, of inst] present(1) acc by auto metis
      have same: "preempt_inst i (inst\<lparr>i_quorum := quorum_clear (i_quorum inst)\<rparr>) now = preempt_inst i inst now"
        for i by (simp add: preempt_inst_def quorum_clear_def)
      show ?thesis using True present m repr
        by (simp add: refines_def proposer_receive_preempted_def spec_preempted_def proposer_preempt_inst
          same prop_repr_def)
    qed
  qed
qed

lemma instance_to_accept_msg:
  "i_value inst \<noteq> None \<or> i_promised_value inst \<noteq> None \<Longrightarrow> instance_to_accept inst = Some (accept_msg inst)"
  by (auto simp: instance_to_accept_def accept_msg_def instance_has_promised_value_def)

lemma proposer_take_value:
  assumes "prop_repr p"
  obtains vs where "carray_inv vs" "carray_list vs = snd (take_value (prop_abs p) inst)"
    "\<not> instance_has_value inst \<Longrightarrow> carray_pop_front (p_values p) = Some (fst (take_value (prop_abs p) inst), vs)"
    "instance_has_value inst \<Longrightarrow> vs = p_values p"
proof (cases "i_value inst")
  case None
  have "carray_inv (p_values p)" using assms by (simp add: prop_repr_def)
  then show thesis
  proof (cases rule: cq.pop_cases)
    case empty
    then show thesis
      using \<open>carray_inv (p_values p)\<close> None
      by (intro that [of "p_values p"]) (simp_all add: take_value_def instance_has_value_def)
  next
    case (front x xs q')
    then show thesis
      using None by (intro that [of q']) (simp_all add: take_value_def instance_has_value_def)
  qed
next
  case (Some v)
  then show thesis
    using assms by (intro that [of "p_values p"])
      (simp_all add: take_value_def instance_has_value_def prop_repr_def)
qed

lemma proposer_accept_refines:
  assumes repr: "prop_repr p" and room: "prop_room p" and inv: "spec_inv n W (prop_abs p)"
  shows "refines prop_abs prop_repr (proposer_accept p) (spec_paccept (prop_abs p))"
proof -
  let ?h = "p_prepare_instances p" and ?a = "p_accept_instances p"
  have h: "kh_inv ?h" "kh_inv ?a" "kh_room ?a" using repr prop_roomD [OF room repr] by (simp_all add: prop_repr_def)
  have ids: "\<forall>k inst. kh_map ?h k = Some inst \<longrightarrow> i_iid inst = k"
    using spec_invD_prep [OF inv] by simp
  from h(1) ids show ?thesis
  proof (cases rule: find_smallest_Min)
    case empty
    then show ?thesis using repr by (simp add: refines_def proposer_accept_def spec_paccept_def)
  next
    case (found k inst)
    let ?k = "Min (dom (kh_map ?h))"
    have key: "i_iid inst = ?k" "kh_map ?a ?k = None"
      using spec_invD_prep [OF inv, of ?k inst] found(2) by simp_all
    obtain vs where vs: "carray_inv vs" "carray_list vs = snd (take_value (prop_abs p) inst)"
      "\<not> instance_has_value inst \<Longrightarrow>
        carray_pop_front (p_values p) = Some (fst (take_value (prop_abs p) inst), vs)"
      "instance_has_value inst \<Longrightarrow> vs = p_values p"
      using repr by (rule proposer_take_value [where inst = inst]) blast
    let ?v = "fst (take_value (prop_abs p) inst)"
    let ?inst = "inst\<lparr>i_value := ?v\<rparr>"
    define h1 where "h1 = (if instance_has_value inst then ?h else kh_set_value ?h k ?inst)"
    have same: "?inst = inst" if "instance_has_value inst"
      using that by (auto simp: take_value_def instance_has_value_def)
    have h1: "kh_inv h1" "kh_map h1 = (kh_map ?h)(?k \<mapsto> ?inst)"
      using h(1) found(2,4) same
      by (auto simp: h1_def kh.invar_set_val kh.lookup_set_val fun_upd_idem)
    define p1 where "p1 = p\<lparr>p_values := vs, p_prepare_instances := h1\<rparr>"
    have "proposer_accept p =
      (if \<not> quorum_reached (i_quorum inst) then Some (p, None)
       else if \<not> instance_has_value ?inst \<and> \<not> instance_has_promised_value ?inst then Some (p1, None)
       else do {
         (f, t, k, inst) \<leftarrow> proposer_move_instance h1 ?a ?inst;
         out \<leftarrow> instance_to_accept inst;
         Some (p1\<lparr>p_prepare_instances := f, p_accept_instances := t\<rparr>, Some out)
       })"
      using found(3) vs(3,4) same
      by (cases "instance_has_value inst") (simp_all add: proposer_accept_def p1_def h1_def Let_def)
    note eq = this
    have spec: "spec_paccept (prop_abs p) =
      (if \<not> quorum_reached (i_quorum inst) \<or> (?v = None \<and> i_promised_value inst = None)
       then (prop_abs p, None)
       else ((prop_abs p)\<lparr>s_values := carray_list vs, s_prep := (kh_map ?h)(?k := None),
           s_acc := (kh_map ?a)(?k \<mapsto> ?inst\<lparr>i_quorum := quorum_clear (i_quorum inst)\<rparr>)\<rparr>,
         Some (accept_msg (?inst\<lparr>i_quorum := quorum_clear (i_quorum inst)\<rparr>))))"
      using found(1,2) vs(2) by (simp add: spec_paccept_def Let_def split_beta)
    have p1: "prop_repr p1" using repr vs(1) h1(1) by (simp add: p1_def prop_repr_def)
    show ?thesis
    proof (cases "?v = None \<and> i_promised_value inst = None")
      case True
      then have "inst = ?inst" by (auto simp: take_value_def split: option.splits list.splits)
      moreover have "carray_list vs = carray_list (p_values p)"
        using True vs(2) by (auto simp: take_value_def split: option.splits list.splits)
      ultimately have "prop_abs p1 = prop_abs p"
        using h1(2) found(2) by (simp add: p1_def fun_upd_idem)
      then show ?thesis
        using True p1 repr unfolding eq spec
        by (simp add: refines_def instance_has_value_def instance_has_promised_value_def)
    next
      case False
      have "kh_map h1 (i_iid ?inst) \<noteq> None" "kh_map ?a (i_iid ?inst) = None"
        using key h1(2) by simp_all
      then obtain f' t' k' where m: "proposer_move_instance h1 ?a ?inst =
          Some (f', t', k', ?inst\<lparr>i_quorum := quorum_clear (i_quorum inst)\<rparr>)"
        "kh_inv f'" "kh_map f' = (kh_map h1)(?k := None)" "kh_inv t'"
        "kh_map t' = (kh_map ?a)(?k \<mapsto> ?inst\<lparr>i_quorum := quorum_clear (i_quorum inst)\<rparr>)"
        using proposer_move_instance_spec [OF h1(1) h(2,3), of ?inst] key(1) by auto metis
      have "instance_to_accept (?inst\<lparr>i_quorum := quorum_clear (i_quorum inst)\<rparr>) =
          Some (accept_msg (?inst\<lparr>i_quorum := quorum_clear (i_quorum inst)\<rparr>))"
        using False by (intro instance_to_accept_msg) auto
      then show ?thesis
        using False p1 repr m h1(2) unfolding eq spec
        by (auto simp: refines_def instance_has_value_def instance_has_promised_value_def prop_repr_def p1_def)
    qed
  qed
qed

lemma proposer_requeue:
  assumes repr: "prop_repr p" and room: "prop_room p" and wf: "inst_wf n i W inst"
  shows "\<exists>vs. (case (i_promised_value inst, i_value inst) of
        (Some pv, Some v) \<Rightarrow> do {
          c \<leftarrow> paxos_value_cmp v pv;
          if c \<noteq> 0 then carray_push_back (p_values p) v else Some (p_values p)
        }
      | _ \<Rightarrow> Some (p_values p)) = Some vs \<and> carray_inv vs \<and>
      carray_list vs = carray_list (p_values p) @ returned_value inst"
proof (cases "\<exists>pv v. i_promised_value inst = Some pv \<and> i_value inst = Some v")
  case True
  then obtain pv v where ab: "i_promised_value inst = Some pv" "i_value inst = Some v" by blast
  then obtain c where "paxos_value_cmp v pv = Some c" "c = 0 \<longleftrightarrow> v = pv"
    using wf ok_value_cmp [of W v pv] by (auto simp: inst_wf_def)
  moreover obtain vs where "carray_push_back (p_values p) v = Some vs" "carray_inv vs"
    "carray_list vs = carray_list (p_values p) @ [v]"
    using repr prop_roomD [OF room repr] by (auto simp: prop_repr_def elim: cq.push_obtain [where p = v])
  ultimately show ?thesis using ab repr by (auto simp: prop_repr_def returned_value_def)
next
  case False
  then show ?thesis
    using repr by (cases "i_promised_value inst"; cases "i_value inst")
      (auto simp: prop_repr_def returned_value_def)
qed

lemma proposer_receive_accepted_refines:
  assumes repr: "prop_repr p" and room: "prop_room p" and inv: "spec_inv n W (prop_abs p)"
    and aid: "unat (aid ack) < n"
  shows "refines prop_abs prop_repr (proposer_receive_accepted p ack) (spec_accepted (prop_abs p) ack)"
proof -
  let ?h = "p_accept_instances p"
  have h: "kh_inv ?h" using repr by (simp add: prop_repr_def)
  then show ?thesis
  proof (cases rule: kh.lookup_cases [where k = "iid ack"])
    case absent
    then show ?thesis using repr by (simp add: refines_def proposer_receive_accepted_def spec_accepted_def)
  next
    case (present k inst)
    have wf: "inst_wf n (p_id p) W inst" using spec_invD_acc [OF inv] present(1) by simp
    have "uint (aid ack) = int (unat (aid ack))" by simp
    note add = quorum_with_add [OF _ aid, of "i_quorum inst", folded this]
    have q: "quorum_inv n (i_quorum inst)" using wf by (simp add: inst_wf_def)
    let ?q = "quorum_with (i_quorum inst) (unat (aid ack))"
    have upd: "kh_inv (kh_set_value ?h k v)" "kh_map (kh_set_value ?h k v) = (kh_map ?h)(iid ack \<mapsto> v)" for v
      using kh.invar_set_val [OF h present(3)] kh.lookup_set_val [OF h present(3)] by simp_all
    have del: "kh_inv (kh_del ?h k)" "kh_map (kh_del ?h k) = (kh_map ?h)(iid ack := None)"
      using kh.invar_del [OF h present(3)] kh.lookup_del [OF h present(3)] by simp_all
    consider (other) "ucast (ballot ack) \<noteq> i_ballot inst"
      | (dup) "ucast (ballot ack) = i_ballot inst" "unat (aid ack) \<in> quorum_set (i_quorum inst)"
      | (fresh) "ucast (ballot ack) = i_ballot inst" "unat (aid ack) \<notin> quorum_set (i_quorum inst)"
      by blast
    then show ?thesis
    proof cases
      case other
      then show ?thesis using present repr
        by (simp add: refines_def proposer_receive_accepted_def spec_accepted_def)
    next
      case dup
      have "proposer_receive_accepted p ack = Some (p\<lparr>p_accept_instances := kh_set_value ?h k inst\<rparr>, 0)"
        using dup present(2,4,5) add(1) [OF q] add(4) [OF q dup(2)]
        by (simp add: proposer_receive_accepted_def)
      moreover have "(prop_abs p)\<lparr>s_acc := (kh_map ?h)(iid ack \<mapsto> inst)\<rparr> = prop_abs p"
        using present(1) by (simp add: fun_upd_idem)
      ultimately show ?thesis using dup present(1) repr upd [of inst]
        by (simp add: refines_def spec_accepted_def prop_repr_def)
    next
      case fresh
      show ?thesis
      proof (cases "quorum_reached ?q")
        case False
        have "proposer_receive_accepted p ack =
            Some (p\<lparr>p_accept_instances := kh_set_value ?h k (inst\<lparr>i_quorum := ?q\<rparr>)\<rparr>, 1)"
          using fresh False present(2,4,5) add(1) [OF q] by (simp add: proposer_receive_accepted_def)
        then show ?thesis using fresh False present(1) repr upd
          by (simp add: refines_def spec_accepted_def prop_repr_def Let_def)
      next
        case True
        obtain vs where "proposer_receive_accepted p ack =
            Some (p\<lparr>p_values := vs, p_accept_instances := kh_del ?h k\<rparr>, 2)" "carray_inv vs"
          "carray_list vs = carray_list (p_values p) @ returned_value inst"
          using fresh True present(2,4,5) add(1) [OF q] proposer_requeue [OF repr room wf]
          by (auto simp: proposer_receive_accepted_def Let_def)
        then show ?thesis using fresh True present(1) repr del
          by (simp add: refines_def spec_accepted_def prop_repr_def Let_def)
      qed
    qed
  qed
qed

subsection \<open>Trimming\<close>

text \<open>
  The instances up to \<open>i\<close> are dropped and their client values go back to the queue, in the
  order of the buckets.
\<close>

definition trimmed_keys :: "iid_t \<Rightarrow> (iid_t \<Rightarrow> pinstance option) \<Rightarrow> iid_t set" where
  "trimmed_keys i m = {k. k \<le> i \<and> (\<exists>inst. m k = Some inst \<and> i_value inst \<noteq> None)}"

definition trimmed_values :: "iid_t \<Rightarrow> (iid_t \<Rightarrow> pinstance option) \<Rightarrow> paxos_value multiset" where
  "trimmed_values i m = image_mset (\<lambda>k. the (i_value (the (m k)))) (mset_set (trimmed_keys i m))"

lemma trimmed_keys_finite [simp]: "finite (trimmed_keys i m)"
  by simp

lemma trimmed_values_set:
  "set_mset (trimmed_values i m) = {v. \<exists>k inst. k \<le> i \<and> m k = Some inst \<and> i_value inst = Some v}"
  unfolding trimmed_values_def by (force simp: trimmed_keys_def)

lemma trimmed_values_empty [simp]: "trimmed_values i Map.empty = {#}"
  by (simp add: trimmed_values_def trimmed_keys_def)

lemma trimmed_values_cong:
  assumes "\<And>k. k \<le> i \<Longrightarrow> m k = m' k"
  shows "trimmed_values i m = trimmed_values i m'"
proof -
  have "trimmed_keys i m = trimmed_keys i m'" using assms by (auto simp: trimmed_keys_def)
  then show ?thesis using assms by (auto simp: trimmed_values_def trimmed_keys_def intro!: image_mset_cong)
qed

lemma trimmed_values_remove:
  assumes "k \<le> i" "m k = Some inst"
  shows "trimmed_values i m = mset (case i_value inst of Some w \<Rightarrow> [w] | None \<Rightarrow> []) + trimmed_values i (m(k := None))"
proof -
  let ?m = "m(k := None)"
  have keys: "trimmed_keys i ?m = trimmed_keys i m - {k}" by (auto simp: trimmed_keys_def)
  have rest: "trimmed_values i ?m = image_mset (\<lambda>k. the (i_value (the (m k)))) (mset_set (trimmed_keys i m - {k}))"
    unfolding trimmed_values_def keys by (rule image_mset_cong) auto
  show ?thesis
  proof (cases "i_value inst")
    case None
    then have "trimmed_keys i m - {k} = trimmed_keys i m" using assms by (auto simp: trimmed_keys_def)
    then show ?thesis using None rest by (simp add: trimmed_values_def)
  next
    case (Some w)
    then have "trimmed_keys i m = insert k (trimmed_keys i m - {k})" using assms by (auto simp: trimmed_keys_def)
    then have "mset_set (trimmed_keys i m) = add_mset k (mset_set (trimmed_keys i m - {k}))"
      by (metis finite_Diff mset_set.insert trimmed_keys_finite Diff_iff insertI1)
    then show ?thesis using Some assms(2) rest by (simp add: trimmed_values_def)
  qed
qed

lemma trim_push_value:
  assumes "carray_inv vs" "length (carray_list vs) < 2 ^ 29"
  obtains vs' where "(case v of Some w \<Rightarrow> carray_push_back vs w | None \<Rightarrow> Some vs) = Some vs'"
    "carray_inv vs'" "carray_list vs' = carray_list vs @ (case v of Some w \<Rightarrow> [w] | None \<Rightarrow> [])"
proof (cases v)
  case None
  then show thesis using assms by (intro that [of vs]) simp_all
next
  case (Some w)
  then show thesis
    using that cq.push_obtain [OF assms(1) carray_room_length [OF assms], of w] by auto
qed

lemma proposer_trim_loop_spec:
  assumes "kh_inv h" "\<forall>k inst. kh_map h k = Some inst \<longrightarrow> i_iid inst = k" "set ks \<subseteq> {..<n_buckets h}"
    and "carray_inv vs" "length (carray_list vs) + card (dom (kh_map h)) < 2 ^ 29"
  shows "\<exists>vs' h' xs. proposer_trim_loop i ks vs h = Some (vs', h') \<and> kh_inv h' \<and> carray_inv vs' \<and>
    (\<forall>k. kh_map h' k = (if k \<le> i \<and> (\<exists>x \<in> set ks. kh_at h k x) then None else kh_map h k)) \<and>
    carray_list vs' = carray_list vs @ xs \<and>
    mset xs = trimmed_values i (kh_map h |` {k. \<exists>x \<in> set ks. kh_at h k x}) \<and>
    length xs + card (dom (kh_map h')) \<le> card (dom (kh_map h))"
  using assms
proof (induction ks arbitrary: h vs)
  case Nil
  then show ?case by simp
next
  case (Cons x ks)
  note h = Cons.prems(1)
  have ok: "kh_ok h" using h by (simp add: kh_inv_def)
  show ?case
  proof (cases "kh_exist h x")
    case False
    then have no: "\<not> kh_at h k x" for k by (simp add: kh_at_def)
    then show ?thesis using Cons.IH [OF h Cons.prems(2) _ Cons.prems(4,5)] Cons.prems(3) False by simp
  next
    case True
    then have at: "kh_at h (keys h ! x) x" using Cons.prems(3) by (simp add: kh_at_def)
    have wf: "kh_wf h" using h at by (rule kh_inv_wf)
    have only: "kh_at h k x \<longleftrightarrow> k = keys h ! x" for k using at by (auto simp: kh_at_def)
    obtain inst where inst: "kh_value h x = Some inst" "kh_map h (keys h ! x) = Some inst"
      using kh.val_at [OF h at] kh_inv_at [OF h at] kh_map_at [OF ok at] by auto
    have key: "i_iid inst = keys h ! x" using Cons.prems(2) inst(2) by blast
    show ?thesis
    proof (cases "i_iid inst \<le> i")
      case False
      have "trimmed_values i (kh_map h |` {k. \<exists>y \<in> set (x # ks). kh_at h k y}) =
          trimmed_values i (kh_map h |` {k. \<exists>y \<in> set ks. kh_at h k y})"
        using False key only by (intro trimmed_values_cong) (auto simp: restrict_map_def)
      then show ?thesis
        using Cons.IH [OF h Cons.prems(2) _ Cons.prems(4,5)] Cons.prems(3) True inst(1) False only key
        by auto
    next
      case le: True
      let ?h = "kh_del h x" and ?w = "case i_value inst of Some w \<Rightarrow> [w] | None \<Rightarrow> []"
      have m: "kh_map ?h = (kh_map h)(keys h ! x := None)" by (rule kh.lookup_del [OF h at])
      have card: "Suc (card (dom (kh_map ?h))) = card (dom (kh_map h))"
        using card_Suc_Diff1 [OF finite_dom_kh_map domI [of "kh_map h", OF inst(2)]] by (simp add: m)
      have "length (carray_list vs) < 2 ^ 29" using Cons.prems(5) by simp
      then obtain vs1 where vs1: "(case i_value inst of Some w \<Rightarrow> carray_push_back vs w | None \<Rightarrow> Some vs) = Some vs1"
        "carray_inv vs1" "carray_list vs1 = carray_list vs @ ?w"
        by (rule trim_push_value [OF Cons.prems(4)])
      have "length ?w \<le> 1" by (simp split: option.split)
      then have load: "length (carray_list vs1) + card (dom (kh_map ?h)) < 2 ^ 29"
        using Cons.prems(5) card vs1(3) by simp
      have ids: "\<forall>k inst. kh_map ?h k = Some inst \<longrightarrow> i_iid inst = k" using Cons.prems(2) by (simp add: m)
      from Cons.IH [OF kh.invar_del [OF h at] ids _ vs1(2) load] Cons.prems(3)
      obtain vs' h' xs where r: "proposer_trim_loop i ks vs1 ?h = Some (vs', h')" "kh_inv h'" "carray_inv vs'"
        "\<forall>k. kh_map h' k = (if k \<le> i \<and> (\<exists>y \<in> set ks. kh_at ?h k y) then None else kh_map ?h k)"
        "carray_list vs' = carray_list vs1 @ xs"
        "mset xs = trimmed_values i (kh_map ?h |` {k. \<exists>y \<in> set ks. kh_at ?h k y})"
        "length xs + card (dom (kh_map h')) \<le> card (dom (kh_map ?h))" by auto
      have at': "kh_at ?h k y \<longleftrightarrow> y \<noteq> x \<and> kh_at h k y" for k y by (rule kh_del_at [OF wf at])
      have "kh_map h' k = (if k \<le> i \<and> (\<exists>y \<in> set (x # ks). kh_at h k y) then None else kh_map h k)" for k
        using r(4) m at' only le key by (cases "k = keys h ! x") auto
      moreover have "mset (?w @ xs) = trimmed_values i (kh_map h |` {k. \<exists>y \<in> set (x # ks). kh_at h k y})"
      proof -
        let ?S = "{k. \<exists>y \<in> set (x # ks). kh_at h k y}"
        have "(kh_map h |` ?S) (keys h ! x) = Some inst" using inst(2) at by auto
        moreover have "(kh_map h |` ?S)(keys h ! x := None) = kh_map ?h |` {k. \<exists>y \<in> set ks. kh_at ?h k y}"
          unfolding fun_eq_iff restrict_map_def m using at' only by (auto simp: restrict_map_def)
        ultimately show ?thesis
          using trimmed_values_remove [of "keys h ! x" i "kh_map h |` ?S" inst] le key r(6) by simp
      qed
      moreover have "length (?w @ xs) + card (dom (kh_map h')) \<le> card (dom (kh_map h))"
        using r(7) card \<open>length ?w \<le> 1\<close> by simp
      moreover have "proposer_trim_loop i (x # ks) vs h = Some (vs', h')"
        using True inst(1) le vs1(1) r(1) by simp
      moreover have "carray_list vs' = carray_list vs @ (?w @ xs)" using r(5) vs1(3) by simp
      ultimately show ?thesis using r(2,3) by blast
    qed
  qed
qed

lemma proposer_trim_instances_spec:
  assumes "kh_inv h" "\<forall>k inst. kh_map h k = Some inst \<longrightarrow> i_iid inst = k" "carray_inv (p_values p)"
    and "length (carray_list (p_values p)) + card (dom (kh_map h)) < 2 ^ 29"
  obtains vs h' xs where "proposer_trim_instances p h i = Some (vs, h')" "kh_inv h'" "carray_inv vs"
    "kh_map h' = kh_map h |` {k. i < k}" "carray_list vs = carray_list (p_values p) @ xs"
    "mset xs = trimmed_values i (kh_map h)" "length xs + card (dom (kh_map h')) \<le> card (dom (kh_map h))"
proof -
  have ok: "kh_ok h" using assms(1) by (simp add: kh_inv_def)
  have "set [0..<kh_end h] \<subseteq> {..<n_buckets h}" by (auto simp: kh_end_def)
  from proposer_trim_loop_spec [OF assms(1,2) this assms(3,4), of i]
  obtain vs h' xs where r: "proposer_trim_instances p h i = Some (vs, h')" "kh_inv h'" "carray_inv vs"
    "\<forall>k. kh_map h' k = (if k \<le> i \<and> (\<exists>x \<in> set [0..<kh_end h]. kh_at h k x) then None else kh_map h k)"
    "carray_list vs = carray_list (p_values p) @ xs"
    "mset xs = trimmed_values i (kh_map h |` {k. \<exists>x \<in> set [0..<kh_end h]. kh_at h k x})"
    "length xs + card (dom (kh_map h')) \<le> card (dom (kh_map h))"
    unfolding proposer_trim_instances_def by blast
  have at: "\<exists>x \<in> set [0..<kh_end h]. kh_at h k x" if "kh_map h k \<noteq> None" for k
    using that kh_map_at_bucket [OF ok] by auto
  have "kh_map h' k = (kh_map h |` {k. i < k}) k" for k
    using spec [OF r(4), of k] at [of k]
    by (cases "kh_map h k = None") (simp_all add: restrict_map_def linorder_not_less [symmetric])
  then have m: "kh_map h' = kh_map h |` {k. i < k}" ..
  have "(kh_map h |` {k. \<exists>x \<in> set [0..<kh_end h]. kh_at h k x}) k = kh_map h k" for k
    using at [of k] by (cases "kh_map h k = None") (simp_all add: restrict_map_def)
  then have "kh_map h |` {k. \<exists>x \<in> set [0..<kh_end h]. kh_at h k x} = kh_map h" ..
  then have "mset xs = trimmed_values i (kh_map h)" using r(6) by (simp only:)
  then show thesis by (rule that [OF r(1,2,3) m r(5) _ r(7)])
qed

text \<open>
  Moving to a later instance: both tables lose the instances up to \<open>i\<close>, and the client value of
  each dropped instance goes back to the queue once. Moving to an instance that is not later than
  the last prepared one does nothing.
\<close>

definition spec_set_id :: "prop_spec \<Rightarrow> iid_t \<Rightarrow> prop_spec \<Rightarrow> bool" where
  "spec_set_id s i s' \<longleftrightarrow>
    (if s_next s < i then
       \<exists>xs. mset xs = trimmed_values i (s_prep s) + trimmed_values i (s_acc s) \<and>
         s' = s\<lparr>s_next := i, s_values := s_values s @ xs, s_prep := s_prep s |` {k. i < k},
           s_acc := s_acc s |` {k. i < k}\<rparr>
     else s' = s)"

lemma proposer_set_instance_id_refines:
  assumes repr: "prop_repr p" and room: "prop_room p" and inv: "spec_inv n W (prop_abs p)"
  obtains p' where "proposer_set_instance_id p i = Some p'" "prop_repr p'"
    "spec_set_id (prop_abs p) i (prop_abs p')" "prop_load (prop_abs p') \<le> prop_load (prop_abs p)"
proof (cases "p_next_prepare_iid p < i")
  case False
  then show thesis using repr by (intro that [of p]) (simp_all add: proposer_set_instance_id_def spec_set_id_def)
next
  case True
  have c: "carray_inv (p_values p)" "kh_inv (p_prepare_instances p)" "kh_inv (p_accept_instances p)"
    using repr by (simp_all add: prop_repr_def)
  have load: "length (carray_list (p_values p)) + card (dom (kh_map (p_prepare_instances p))) +
      card (dom (kh_map (p_accept_instances p))) < 2 ^ 29"
    using room by (simp add: prop_room_def prop_load_def)
  let ?p = "p\<lparr>p_next_prepare_iid := i\<rparr>"
  have ids: "\<forall>k inst. kh_map (p_prepare_instances p) k = Some inst \<longrightarrow> i_iid inst = k"
    "\<forall>k inst. kh_map (p_accept_instances p) k = Some inst \<longrightarrow> i_iid inst = k"
    using spec_invD_prep [OF inv] spec_invD_acc [OF inv] by simp_all
  have l1: "length (carray_list (p_values ?p)) + card (dom (kh_map (p_prepare_instances p))) < 2 ^ 29"
    "carray_inv (p_values ?p)"
    using load c(1) by simp_all
  obtain vs1 h1 xs1 where t1: "proposer_trim_instances ?p (p_prepare_instances p) i = Some (vs1, h1)"
    "kh_inv h1" "carray_inv vs1" "kh_map h1 = kh_map (p_prepare_instances p) |` {k. i < k}"
    "carray_list vs1 = carray_list (p_values ?p) @ xs1"
    "mset xs1 = trimmed_values i (kh_map (p_prepare_instances p))"
    "length xs1 + card (dom (kh_map h1)) \<le> card (dom (kh_map (p_prepare_instances p)))"
    by (rule proposer_trim_instances_spec [OF c(2) ids(1) l1(2,1)])
  let ?q = "?p\<lparr>p_values := vs1, p_prepare_instances := h1\<rparr>"
  have l2: "length (carray_list (p_values ?q)) + card (dom (kh_map (p_accept_instances p))) < 2 ^ 29"
    "carray_inv (p_values ?q)"
    using load t1(3,5,7) by simp_all
  obtain vs2 h2 xs2 where t2: "proposer_trim_instances ?q (p_accept_instances p) i = Some (vs2, h2)"
    "kh_inv h2" "carray_inv vs2" "kh_map h2 = kh_map (p_accept_instances p) |` {k. i < k}"
    "carray_list vs2 = carray_list (p_values ?q) @ xs2"
    "mset xs2 = trimmed_values i (kh_map (p_accept_instances p))"
    "length xs2 + card (dom (kh_map h2)) \<le> card (dom (kh_map (p_accept_instances p)))"
    by (rule proposer_trim_instances_spec [OF c(3) ids(2) l2(2,1)])
  let ?r = "?q\<lparr>p_values := vs2, p_accept_instances := h2\<rparr>"
  have "proposer_set_instance_id p i = Some ?r"
    using True t1(1) t2(1) by (simp add: proposer_set_instance_id_def Let_def)
  moreover have "prop_repr ?r" using t1(2) t2(2,3) by (simp add: prop_repr_def)
  moreover have "spec_set_id (prop_abs p) i (prop_abs ?r)"
  proof -
    have "prop_abs ?r = (prop_abs p)\<lparr>s_next := i, s_values := s_values (prop_abs p) @ (xs1 @ xs2),
        s_prep := s_prep (prop_abs p) |` {k. i < k}, s_acc := s_acc (prop_abs p) |` {k. i < k}\<rparr>"
      using t1(4,5) t2(4,5) by (simp add: prop_abs_def)
    moreover have "mset (xs1 @ xs2) = trimmed_values i (s_prep (prop_abs p)) + trimmed_values i (s_acc (prop_abs p))"
      using t1(6) t2(6) by simp
    moreover have "s_next (prop_abs p) < i" using True by simp
    ultimately show ?thesis unfolding spec_set_id_def by metis
  qed
  moreover have "prop_load (prop_abs ?r) \<le> prop_load (prop_abs p)"
    using t1(4,5,7) t2(4,5,7) by (simp add: prop_load_def)
  ultimately show thesis by (rule that)
qed

lemma proposer_receive_acceptor_state_refines:
  assumes repr: "prop_repr p" and room: "prop_room p" and inv: "spec_inv n W (prop_abs p)"
  obtains p' s where "proposer_receive_acceptor_state p st = Some p'" "prop_repr p'"
    "prop_load (prop_abs p') \<le> prop_load (prop_abs p)"
    "spec_set_id ((prop_abs p)\<lparr>s_max_trim := max (s_max_trim (prop_abs p)) (state_trim_iid st)\<rparr>)
       (state_trim_iid st) (prop_abs p') \<or> prop_abs p' = prop_abs p"
proof (cases "p_max_trim_iid p < state_trim_iid st")
  case False
  then show thesis using repr by (intro that [of p]) (simp_all add: proposer_receive_acceptor_state_def)
next
  case True
  let ?p = "p\<lparr>p_max_trim_iid := state_trim_iid st\<rparr>"
  have "prop_repr ?p" "prop_room ?p" "spec_inv n W (prop_abs ?p)"
    "prop_load (prop_abs ?p) = prop_load (prop_abs p)"
    using assms by (simp_all add: prop_repr_def prop_room_def prop_load_def spec_inv_def)
  moreover from this(1-3) obtain p' where "proposer_set_instance_id ?p (state_trim_iid st) = Some p'"
    "prop_repr p'" "spec_set_id (prop_abs ?p) (state_trim_iid st) (prop_abs p')"
    "prop_load (prop_abs p') \<le> prop_load (prop_abs ?p)"
    by (rule proposer_set_instance_id_refines)
  ultimately show thesis
    using True by (intro that [of p']) (simp_all add: proposer_receive_acceptor_state_def max_def)
qed

subsection \<open>Timeouts\<close>

lemma next_timedout_spec:
  assumes h: "kh_inv h" and ids: "\<forall>k inst. kh_map h k = Some inst \<longrightarrow> i_iid inst = k"
  shows "k \<le> kh_end h \<Longrightarrow> \<exists>k' found. next_timedout cfg h k t = Some (k', found) \<and> k' \<le> kh_end h \<and> k \<le> k' \<and>
    (found = None \<longrightarrow> k' = kh_end h) \<and>
    (\<forall>inst. found = Some inst \<longrightarrow> kh_at h (i_iid inst) k' \<and> kh_map h (i_iid inst) = Some inst \<and>
      \<not> quorum_reached (i_quorum inst) \<and> instance_has_timedout cfg inst t)"
proof (induction "kh_end h - k" arbitrary: k rule: less_induct)
  case less
  have ok: "kh_ok h" using h by (simp add: kh_inv_def)
  show ?case
  proof (cases "k = kh_end h")
    case True
    then show ?thesis by (simp add: next_timedout.simps)
  next
    case False
    then have lt: "k < kh_end h" using less.prems by simp
    have "kh_end h - Suc k < kh_end h - k" "Suc k \<le> kh_end h" using lt by simp_all
    from less.hyps [OF this]
    obtain k' found where r: "next_timedout cfg h (Suc k) t = Some (k', found)" "k' \<le> kh_end h" "k \<le> k'"
      "found = None \<longrightarrow> k' = kh_end h"
      "\<forall>inst. found = Some inst \<longrightarrow> kh_at h (i_iid inst) k' \<and> kh_map h (i_iid inst) = Some inst \<and>
        \<not> quorum_reached (i_quorum inst) \<and> instance_has_timedout cfg inst t"
      by (auto dest: Suc_leD)
    show ?thesis
    proof (cases "kh_exist h k")
      case False
      then have "next_timedout cfg h k t = Some (k', found)"
        using lt r(1) by (simp add: next_timedout.simps [of cfg h k])
      then show ?thesis using r(2-5) by blast
    next
      case True
      then have at: "kh_at h (keys h ! k) k" using lt by (simp add: kh_at_def kh_end_def)
      obtain inst where inst: "kh_value h k = Some inst" "kh_map h (keys h ! k) = Some inst"
        using kh.val_at [OF h at] kh_inv_at [OF h at] kh_map_at [OF ok at] by auto
      have key: "i_iid inst = keys h ! k" using ids inst(2) by blast
      show ?thesis
      proof (cases "quorum_reached (i_quorum inst) \<or> \<not> instance_has_timedout cfg inst t")
        case True
        then have "next_timedout cfg h k t = Some (k', found)"
          using lt r(1) \<open>kh_exist h k\<close> inst(1) by (auto simp: next_timedout.simps [of cfg h k])
        then show ?thesis using r(2-5) by blast
      next
        case False
        then have "next_timedout cfg h k t = Some (k, Some inst)"
          using lt \<open>kh_exist h k\<close> inst(1) by (simp add: next_timedout.simps [of cfg h k])
        then show ?thesis using False lt inst(2) key at by auto
      qed
    qed
  qed
qed

text \<open>
  A timeout touches the time of one instance of the table and sends the message of that
  instance again.
\<close>

definition touch :: "timeval \<Rightarrow> pinstance \<Rightarrow> pinstance" where
  "touch t inst = inst\<lparr>i_created_at := t\<rparr>"

lemma timeout_iterator_prepare_refines:
  assumes repr: "prop_repr p" and inv: "spec_inv n W (prop_abs p)"
    and it: "it_pi it \<le> kh_end (p_prepare_instances p)"
  obtains (none) it' where "timeout_iterator_prepare cfg it p = Some (it', p, None)"
      "it_timeout it' = it_timeout it" "it_ai it' = it_ai it"
  | (some) it' p' inst where
      "timeout_iterator_prepare cfg it p = Some (it', p', Some (instance_to_prepare inst))"
      "prop_repr p'" "s_prep (prop_abs p) (i_iid inst) = Some inst"
      "prop_abs p' = (prop_abs p)\<lparr>s_prep := (s_prep (prop_abs p))(i_iid inst \<mapsto> touch (it_timeout it) inst)\<rparr>"
      "it_timeout it' = it_timeout it" "it_ai it' = it_ai it"
      "it_pi it' \<le> kh_end (p_prepare_instances p')" "p_accept_instances p' = p_accept_instances p"
      "kh_end (p_prepare_instances p') = kh_end (p_prepare_instances p)" "it_pi it \<le> it_pi it'"
      "instance_has_timedout cfg inst (it_timeout it)"
proof -
  let ?h = "p_prepare_instances p"
  have h: "kh_inv ?h" using repr by (simp add: prop_repr_def)
  have ids: "\<forall>k inst. kh_map ?h k = Some inst \<longrightarrow> i_iid inst = k" using spec_invD_prep [OF inv] by simp
  obtain k' found where n: "next_timedout cfg ?h (it_pi it) (it_timeout it) = Some (k', found)"
    "k' \<le> kh_end ?h" "it_pi it \<le> k'"
    "\<forall>inst. found = Some inst \<longrightarrow> kh_at ?h (i_iid inst) k' \<and> kh_map ?h (i_iid inst) = Some inst \<and>
      \<not> quorum_reached (i_quorum inst) \<and> instance_has_timedout cfg inst (it_timeout it)"
    using next_timedout_spec [OF h ids it, of cfg "it_timeout it"] by auto
  show thesis
  proof (cases found)
    case None
    then show thesis using n(1) by (intro none [of "it\<lparr>it_pi := k'\<rparr>"]) (simp_all add: timeout_iterator_prepare_def)
  next
    case (Some inst)
    then have at: "kh_at ?h (i_iid inst) k'" "kh_map ?h (i_iid inst) = Some inst"
      "instance_has_timedout cfg inst (it_timeout it)" using n(4) by auto
    let ?h' = "kh_set_value ?h k' (touch (it_timeout it) inst)"
    have "kh_end ?h' = kh_end ?h" by (simp add: kh_end_def kh_set_value_def)
    then show thesis
      using n(1-3) Some at repr kh.invar_set_val [OF h at(1)] kh.lookup_set_val [OF h at(1)]
      by (intro some [of "it\<lparr>it_pi := k'\<rparr>" "p\<lparr>p_prepare_instances := ?h'\<rparr>" inst])
        (simp_all add: timeout_iterator_prepare_def prop_repr_def touch_def)
  qed
qed

lemma timeout_iterator_accept_refines:
  assumes repr: "prop_repr p" and inv: "spec_inv n W (prop_abs p)"
    and it: "it_ai it \<le> kh_end (p_accept_instances p)"
  obtains (none) it' where "timeout_iterator_accept cfg it p = Some (it', p, None)"
      "it_timeout it' = it_timeout it"
  | (some) it' p' inst where
      "timeout_iterator_accept cfg it p = Some (it', p', Some (accept_msg inst))"
      "prop_repr p'" "s_acc (prop_abs p) (i_iid inst) = Some inst"
      "prop_abs p' = (prop_abs p)\<lparr>s_acc := (s_acc (prop_abs p))(i_iid inst \<mapsto> touch (it_timeout it) inst)\<rparr>"
      "it_timeout it' = it_timeout it" "it_ai it' \<le> kh_end (p_accept_instances p')"
      "kh_end (p_accept_instances p') = kh_end (p_accept_instances p)" "it_ai it \<le> it_ai it'"
      "instance_has_timedout cfg inst (it_timeout it)"
proof -
  let ?h = "p_accept_instances p"
  have h: "kh_inv ?h" using repr by (simp add: prop_repr_def)
  have ids: "\<forall>k inst. kh_map ?h k = Some inst \<longrightarrow> i_iid inst = k" using spec_invD_acc [OF inv] by simp
  obtain k' found where n: "next_timedout cfg ?h (it_ai it) (it_timeout it) = Some (k', found)"
    "k' \<le> kh_end ?h" "it_ai it \<le> k'"
    "\<forall>inst. found = Some inst \<longrightarrow> kh_at ?h (i_iid inst) k' \<and> kh_map ?h (i_iid inst) = Some inst \<and>
      \<not> quorum_reached (i_quorum inst) \<and> instance_has_timedout cfg inst (it_timeout it)"
    using next_timedout_spec [OF h ids it, of cfg "it_timeout it"] by auto
  show thesis
  proof (cases found)
    case None
    then show thesis using n(1) by (intro none [of "it\<lparr>it_ai := k'\<rparr>"]) (simp_all add: timeout_iterator_accept_def)
  next
    case (Some inst)
    then have at: "kh_at ?h (i_iid inst) k'" "kh_map ?h (i_iid inst) = Some inst"
      "instance_has_timedout cfg inst (it_timeout it)" using n(4) by auto
    have "instance_to_accept inst = Some (accept_msg inst)"
      using spec_invD_acc [OF inv] at(2) by (intro instance_to_accept_msg) auto
    moreover let ?h' = "kh_set_value ?h k' (touch (it_timeout it) inst)"
    have "kh_end ?h' = kh_end ?h" by (simp add: kh_end_def kh_set_value_def)
    ultimately show thesis
      using n(1-3) Some at repr kh.invar_set_val [OF h at(1)] kh.lookup_set_val [OF h at(1)]
      by (intro some [of "it\<lparr>it_ai := k'\<rparr>" "p\<lparr>p_accept_instances := ?h'\<rparr>" inst])
        (simp_all add: timeout_iterator_accept_def prop_repr_def touch_def)
  qed
qed

end
