(* ===== verification/Learner_Spec.thy ===== *)
theory Learner_Spec
  imports Learner
begin

text \<open>
  What the learner keeps and delivers. The acknowledgements it holds all satisfy a predicate
  \<open>P\<close>, which the protocol instantiates with the votes sent so far; an instance is closed only by
  a quorum of acknowledgements of distinct acceptors with one ballot, and what is delivered is
  one of them.
\<close>

section \<open>Counting acknowledgements\<close>

definition acks_for :: "paxos_accepted option list \<Rightarrow> ballot_t \<Rightarrow> nat set" where
  "acks_for acks b = {i. i < length acks \<and> (\<exists>r. acks ! i = Some r \<and> ucast (ballot r) = b)}"

lemma acks_for_finite [simp]: "finite (acks_for acks b)"
  by (simp add: acks_for_def)

lemma acks_for_from:
  "i < length acks \<Longrightarrow> {j \<in> acks_for acks b. i \<le> j} =
    (if i \<in> acks_for acks b then insert i {j \<in> acks_for acks b. Suc i \<le> j}
     else {j \<in> acks_for acks b. Suc i \<le> j})"
  by (auto simp: Suc_le_eq le_less)

lemma count_acks_spec:
  "i + n = length acks \<Longrightarrow> \<exists>valid'. count_acks acks b n (int i) valid count =
      Some (valid', count + int (card {j \<in> acks_for acks b. i \<le> j})) \<and>
    (if {j \<in> acks_for acks b. i \<le> j} = {} then valid' = valid
     else \<exists>j \<in> acks_for acks b. i \<le> j \<and> valid' = int j)"
proof (induction n arbitrary: i valid count)
  case 0
  then have "{j \<in> acks_for acks b. i \<le> j} = {}" by (auto simp: acks_for_def)
  then show ?case by simp
next
  case (Suc n)
  then have i: "i < length acks" and i': "Suc i + n = length acks" by simp_all
  let ?S = "\<lambda>i. {j \<in> acks_for acks b. i \<le> j}"
  have read: "array_read_int acks (int i) = Some (acks ! i)" using i by (simp add: c_access)
  show ?case
  proof (cases "i \<in> acks_for acks b")
    case True
    then have "count_acks acks b (Suc n) (int i) valid count = count_acks acks b n (int (Suc i)) (int i) (count + 1)"
      using read by (auto simp: acks_for_def add.commute)
    moreover have "?S i = insert i (?S (Suc i))" "i \<notin> ?S (Suc i)" using acks_for_from [OF i] True by auto
    moreover from this have "int (card (?S i)) = 1 + int (card (?S (Suc i)))" by simp
    ultimately show ?thesis
      using Suc.IH [OF i', of "int i" "count + 1"] True
      by (auto simp: add.assoc split: if_splits)
  next
    case False
    then have "count_acks acks b (Suc n) (int i) valid count = count_acks acks b n (int (Suc i)) valid count"
      using read i by (auto simp: acks_for_def add.commute split: option.split)
    moreover have "?S i = ?S (Suc i)" using acks_for_from [OF i] False by simp
    ultimately show ?thesis
      using Suc.IH [OF i', of valid count] by (auto split: if_splits)
  qed
qed

section \<open>Instances\<close>

definition linst_body :: "(paxos_accepted \<Rightarrow> bool) \<Rightarrow> nat \<Rightarrow> iid_t \<Rightarrow> linstance \<Rightarrow> bool" where
  "linst_body P n k inst \<longleftrightarrow> length (li_acks inst) = n \<and>
     (\<forall>a < n. \<forall>r. li_acks inst ! a = Some r \<longrightarrow> P r \<and> iid r = k \<and> unat (aid r) = a \<and> value_wf (pvalue r)) \<and>
     (\<forall>r. li_final_value inst = Some r \<longrightarrow> (\<exists>b. \<exists>j \<in> acks_for (li_acks inst) b.
        li_acks inst ! j = Some r \<and> paxos_quorum (int n) \<le> int (card (acks_for (li_acks inst) b))))"

definition linst_inv :: "(paxos_accepted \<Rightarrow> bool) \<Rightarrow> nat \<Rightarrow> iid_t \<Rightarrow> linstance \<Rightarrow> bool" where
  "linst_inv P n k inst \<longleftrightarrow> li_iid inst = k \<and> linst_body P n k inst"

text \<open>
  A record that closes its instance: a quorum of distinct acceptors acknowledged its ballot.
\<close>

definition closes :: "(paxos_accepted \<Rightarrow> bool) \<Rightarrow> nat \<Rightarrow> paxos_accepted \<Rightarrow> bool" where
  "closes P n r \<longleftrightarrow> P r \<and> (\<exists>S \<subseteq> {..<n}. paxos_quorum (int n) \<le> int (card S) \<and>
     (\<forall>a \<in> S. \<exists>r'. P r' \<and> iid r' = iid r \<and> unat (aid r') = a \<and> ballot r' = ballot r))"

lemma linst_body_new: "linst_body P n k (linstance_new (int n))"
  by (simp add: linst_body_def linstance_new_def)

lemma linst_body_closes:
  assumes "linst_body P n k inst" "li_final_value inst = Some r"
  shows "closes P n r" "iid r = k" "value_wf (pvalue r)"
proof -
  obtain b j where j: "j \<in> acks_for (li_acks inst) b" "li_acks inst ! j = Some r"
    "paxos_quorum (int n) \<le> int (card (acks_for (li_acks inst) b))"
    using assms by (auto simp: linst_body_def)
  have acks: "P r' \<and> iid r' = k \<and> unat (aid r') = a \<and> value_wf (pvalue r')"
    if "a < n" "li_acks inst ! a = Some r'" for a r'
    using assms(1) that by (simp add: linst_body_def)
  have len: "length (li_acks inst) = n" using assms(1) by (simp add: linst_body_def)
  have jn: "j < n" "b = ucast (ballot r)" using j len by (auto simp: acks_for_def)
  then show r: "iid r = k" "value_wf (pvalue r)" using acks j(2) by auto
  have "\<exists>r'. P r' \<and> iid r' = iid r \<and> unat (aid r') = a \<and> ballot r' = ballot r"
    if a: "a \<in> acks_for (li_acks inst) b" for a
  proof -
    obtain r' where "a < n" "li_acks inst ! a = Some r'" "ucast (ballot r') = (ucast (ballot r) :: ballot_t)"
      using a len jn(2) by (auto simp: acks_for_def)
    then show ?thesis using acks r(1) by auto
  qed
  moreover have "acks_for (li_acks inst) b \<subseteq> {..<n}" using len by (auto simp: acks_for_def)
  ultimately show "closes P n r" using j(3) acks [OF jn(1) j(2)] unfolding closes_def by blast
qed

lemma instance_has_quorum_spec:
  assumes body: "linst_body P n k inst"
  obtains inst' where
    "instance_has_quorum inst (int n) = Some (inst', li_final_value inst' \<noteq> None)"
    "linst_body P n k inst'" "li_iid inst' = li_iid inst" "li_acks inst' = li_acks inst"
    "li_last_update_ballot inst' = li_last_update_ballot inst"
    "li_final_value inst \<noteq> None \<Longrightarrow> inst' = inst"
    "paxos_quorum (int n) \<le> int (card (acks_for (li_acks inst) (li_last_update_ballot inst))) \<Longrightarrow>
      li_final_value inst' \<noteq> None"
proof (cases "li_final_value inst = None")
  case False
  then show thesis using body by (intro that [of inst]) (auto simp: instance_has_quorum_def)
next
  case True
  let ?b = "li_last_update_ballot inst"
  let ?S = "acks_for (li_acks inst) ?b"
  have len: "0 + n = length (li_acks inst)" using body by (simp add: linst_body_def)
  obtain valid where v: "count_acks (li_acks inst) ?b n 0 (-1) 0 = Some (valid, int (card ?S))"
    "?S \<noteq> {} \<Longrightarrow> \<exists>j \<in> ?S. valid = int j"
    using count_acks_spec [OF len, of ?b "-1" 0] by (auto split: if_splits)
  show thesis
  proof (cases "paxos_quorum (int n) \<le> int (card ?S)")
    case False
    then show thesis
      using True body v(1) by (intro that [of inst]) (auto simp: instance_has_quorum_def)
  next
    case q: True
    then have "?S \<noteq> {}" by (auto simp: paxos_quorum_nat)
    then obtain j where j: "j \<in> ?S" "valid = int j" using v(2) by blast
    then obtain r where r: "li_acks inst ! j = Some r" "j < length (li_acks inst)"
      by (auto simp: acks_for_def)
    let ?inst = "inst\<lparr>li_final_value := Some r\<rparr>"
    have "instance_has_quorum inst (int n) = Some (?inst, True)"
      using True q v(1) j(2) r by (simp add: instance_has_quorum_def c_access)
    moreover have "linst_body P n k ?inst"
      using body q j(1) r(1) by (auto simp: linst_body_def)
    ultimately show thesis using True by (intro that [of ?inst]) auto
  qed
qed

lemma paxos_accepted_dup_wf: "value_wf (pvalue r) \<Longrightarrow> paxos_accepted_dup r = Some r"
  by (cases "pvalue r") (auto simp: paxos_accepted_dup_def paxos_value_copy_def value_wf_def buf_len_def
    mem_read_def split: option.splits)

lemma instance_add_accept_spec:
  assumes body: "linst_body P n k inst" and open_inst: "li_final_value inst = None"
    and ack: "P ack" "iid ack = k" "value_wf (pvalue ack)" "unat (aid ack) < n"
  shows "instance_add_accept inst ack = Some (inst\<lparr>li_acks := (li_acks inst)[unat (aid ack) := Some ack],
      li_last_update_ballot := ucast (ballot ack)\<rparr>)"
    and "linst_body P n k (inst\<lparr>li_acks := (li_acks inst)[unat (aid ack) := Some ack],
      li_last_update_ballot := ucast (ballot ack)\<rparr>)"
  using assms
  by (auto simp: instance_add_accept_def linst_body_def c_access paxos_accepted_dup_wf nth_list_update)

lemma instance_update_spec:
  assumes body: "linst_body P n k inst" and id: "li_iid inst = k \<or> li_iid inst = 0"
    and ack: "P ack" "iid ack = k" "value_wf (pvalue ack)"
  obtains inst' where "instance_update inst ack (int n) = Some inst'" "linst_inv P n k inst'"
proof -
  define i0 where "i0 = (if li_iid inst = 0
    then inst\<lparr>li_iid := iid ack, li_last_update_ballot := ucast (ballot ack)\<rparr> else inst)"
  have b0: "linst_body P n k i0" "li_iid i0 = k"
    using body id ack(2) by (auto simp: i0_def linst_body_def)
  obtain i1 where i1: "instance_has_quorum i0 (int n) = Some (i1, li_final_value i1 \<noteq> None)"
    "linst_body P n k i1" "li_iid i1 = k"
    using instance_has_quorum_spec [OF b0(1)] b0(2) by metis
  have inv1: "linst_inv P n k i1" using i1 by (simp add: linst_inv_def)
  have eq: "instance_update inst ack (int n) =
      (if li_final_value i1 \<noteq> None then Some i1
       else if uint (aid ack) > int n - 1 then Some i1
       else do {
         prev \<leftarrow> array_read (li_acks i1) (unat (aid ack));
         case prev of
           Some r \<Rightarrow> if ballot r \<ge> ballot ack then Some i1 else instance_add_accept i1 ack
         | None \<Rightarrow> instance_add_accept i1 ack
       })"
    using i1(1) unfolding i0_def by (simp add: instance_update_def Let_def)
  show thesis
  proof (cases "li_final_value i1 \<noteq> None \<or> uint (aid ack) > int n - 1")
    case True
    then show thesis using inv1 eq by (intro that [of i1]) auto
  next
    case False
    have "uint (aid ack) = int (unat (aid ack))" by simp
    then have aid: "unat (aid ack) < n" using False by linarith
    then have read: "array_read (li_acks i1) (unat (aid ack)) = Some (li_acks i1 ! unat (aid ack))"
      using i1(2) by (simp add: linst_body_def c_access)
    let ?i = "i1\<lparr>li_acks := (li_acks i1)[unat (aid ack) := Some ack], li_last_update_ballot := ucast (ballot ack)\<rparr>"
    have "li_final_value i1 = None" using False by simp
    note add = instance_add_accept_spec [OF i1(2) this ack aid]
    have "linst_inv P n k ?i" using add(2) i1(3) by (simp add: linst_inv_def)
    then show thesis
      using inv1 eq False read add(1) that by (auto split: option.splits if_splits)
  qed
qed

section \<open>The learner\<close>

definition learner_inv :: "(paxos_accepted \<Rightarrow> bool) \<Rightarrow> nat \<Rightarrow> learner \<Rightarrow> bool" where
  "learner_inv P n l \<longleftrightarrow> l_acceptors l = int n \<and> kh_inv (l_instances l) \<and> kh_inv (l_gaps l) \<and>
     (\<forall>k inst. kh_map (l_instances l) k = Some inst \<longrightarrow> linst_inv P n k inst) \<and>
     (\<forall>k g. kh_map (l_gaps l) k = Some g \<longrightarrow> g_iid g = k)"

lemma linst_inv_mono: "linst_inv P n k inst \<Longrightarrow> (\<And>r. P r \<Longrightarrow> Q r) \<Longrightarrow> linst_inv Q n k inst"
  by (auto simp: linst_inv_def linst_body_def)

lemma learner_inv_mono: "learner_inv P n l \<Longrightarrow> (\<And>r. P r \<Longrightarrow> Q r) \<Longrightarrow> learner_inv Q n l"
  unfolding learner_inv_def using linst_inv_mono by blast

lemma learner_new_inv: "learner_inv P n (learner_new cfg (int n))"
  by (simp add: learner_inv_def learner_new_def)

lemma learner_inv_updI:
  assumes "learner_inv P n l" "kh_inv h" "kh_map h = (kh_map (l_instances l))(k \<mapsto> inst)" "linst_inv P n k inst"
  shows "learner_inv P n (l\<lparr>l_instances := h\<rparr>)"
  using assms by (simp add: learner_inv_def)

lemma learner_get_instance_spec:
  assumes "learner_inv P n l"
  obtains (absent) "kh_map (l_instances l) k = None" "learner_get_instance l k = Some None"
  | (present) x inst where "kh_map (l_instances l) k = Some inst" "kh_at (l_instances l) k x"
      "learner_get_instance l k = Some (Some (x, inst))" "linst_inv P n k inst"
proof -
  have "kh_inv (l_instances l)" using assms by (simp add: learner_inv_def)
  then show thesis
  proof (cases rule: kh.lookup_cases [where k = k])
    case absent
    then show thesis using that(1) by (simp add: learner_get_instance_def)
  next
    case (present x v)
    moreover have "linst_inv P n k v" using assms present(1) by (simp add: learner_inv_def)
    ultimately show thesis using that(2) [of v x] by (simp add: learner_get_instance_def)
  qed
qed

lemma learner_create_instance_spec:
  assumes inv: "learner_inv P n l" and room: "kh_room (l_instances l)"
  obtains l' x where "learner_create_instance l k = Some (l', x, linstance_new (int n))"
    "\<And>i. linst_inv P n k i \<Longrightarrow> learner_inv P n (l'\<lparr>l_instances := kh_set_value (l_instances l') x i\<rparr>)"
    "\<And>i. kh_map (kh_set_value (l_instances l') x i) = (kh_map (l_instances l))(k \<mapsto> i)"
    "l_acceptors l' = int n" "l_highest_iid_closed l' = l_highest_iid_closed l"
    "l_current_iid l' = l_current_iid l" "l_late_start l' = l_late_start l"
proof -
  have h: "kh_inv (l_instances l)" "l_acceptors l = int n" using inv by (simp_all add: learner_inv_def)
  obtain h' x rv where put: "kh_put (l_instances l) k = Some (h', x, rv)" "0 \<le> rv"
    "\<And>v. kh_inv (kh_set_value h' x v)" "\<And>v. kh_map (kh_set_value h' x v) = (kh_map (l_instances l))(k \<mapsto> v)"
    using kh.put_set_val [OF h(1) room, of k] by blast
  let ?l = "l\<lparr>l_instances := kh_set_value h' x (linstance_new (int n))\<rparr>"
  have "learner_create_instance l k = Some (?l, x, linstance_new (int n))"
    using put(1,2) h(2) by (simp add: learner_create_instance_def c_access Let_def)
  moreover have twice: "kh_set_value (kh_set_value h' x v) x i = kh_set_value h' x i" for v i
    by (simp add: kh_set_value_def)
  moreover have "learner_inv P n (?l\<lparr>l_instances := kh_set_value (l_instances ?l) x i\<rparr>)"
    if "linst_inv P n k i" for i
    using learner_inv_updI [OF inv put(3,4) that] by (simp add: twice)
  ultimately show thesis using put(4) h(2) by (intro that [of ?l x]) simp_all
qed

lemma learner_slot:
  assumes inv: "learner_inv P n l" and room: "kh_room (l_instances l)"
  obtains l' x inst where "learner_get_instance_or_create l k = Some (l', x, inst)"
    "linst_body P n k inst" "li_iid inst = k \<or> li_iid inst = 0"
    "\<And>i. linst_inv P n k i \<Longrightarrow> learner_inv P n (l'\<lparr>l_instances := kh_set_value (l_instances l') x i\<rparr>)"
    "\<And>i. kh_map (kh_set_value (l_instances l') x i) = (kh_map (l_instances l))(k \<mapsto> i)"
    "l_acceptors l' = int n" "l_highest_iid_closed l' = l_highest_iid_closed l"
    "l_current_iid l' = l_current_iid l" "l_late_start l' = l_late_start l"
  using inv
proof (cases rule: learner_get_instance_spec [where k = k])
  case absent
  obtain l' x where c: "learner_create_instance l k = Some (l', x, linstance_new (int n))"
    "\<And>i. linst_inv P n k i \<Longrightarrow> learner_inv P n (l'\<lparr>l_instances := kh_set_value (l_instances l') x i\<rparr>)"
    "\<And>i. kh_map (kh_set_value (l_instances l') x i) = (kh_map (l_instances l))(k \<mapsto> i)"
    "l_acceptors l' = int n" "l_highest_iid_closed l' = l_highest_iid_closed l"
    "l_current_iid l' = l_current_iid l" "l_late_start l' = l_late_start l"
    using inv room by (rule learner_create_instance_spec [where k = k]) blast
  have "learner_get_instance_or_create l k = Some (l', x, linstance_new (int n))"
    using absent(2) c(1) by (simp add: learner_get_instance_or_create_def)
  then show thesis
    using that [OF _ linst_body_new _ c(2-7)] by (simp add: linstance_new_def)
next
  case (present x inst)
  have h: "kh_inv (l_instances l)" "l_acceptors l = int n" using inv by (simp_all add: learner_inv_def)
  have "learner_get_instance_or_create l k = Some (l, x, inst)"
    using present(3) by (simp add: learner_get_instance_or_create_def)
  moreover have "linst_body P n k inst" "li_iid inst = k" using present(4) by (simp_all add: linst_inv_def)
  moreover note upd = kh.invar_set_val [OF h(1) present(2)] kh.lookup_set_val [OF h(1) present(2)]
  ultimately show thesis
    using that [of l x inst] learner_inv_updI [OF inv upd] h(2) upd(2) by simp
qed

lemma learner_close_instance_spec:
  assumes body: "linst_inv P n k inst" and acc: "l_acceptors l = int n"
    and upd: "\<And>i. linst_inv P n k i \<Longrightarrow> learner_inv P n (l\<lparr>l_instances := kh_set_value (l_instances l) x i\<rparr>)"
  obtains l' inst' where "learner_close_instance l x inst = Some l'" "learner_inv P n l'"
    "l_current_iid l' = l_current_iid l" "l_late_start l' = l_late_start l"
    "l_instances l' = kh_set_value (l_instances l) x inst'"
proof -
  obtain inst' where i: "instance_has_quorum inst (int n) = Some (inst', li_final_value inst' \<noteq> None)"
    "linst_body P n k inst'" "li_iid inst' = li_iid inst"
    using body instance_has_quorum_spec unfolding linst_inv_def by metis
  then have "linst_inv P n k inst'" using body by (simp add: linst_inv_def)
  note inv' = upd [OF this]
  define l1 where "l1 = l\<lparr>l_instances := kh_set_value (l_instances l) x inst'\<rparr>"
  define l2 where "l2 = (if li_final_value inst' \<noteq> None \<and> li_iid inst' > l_highest_iid_closed l
    then l1\<lparr>l_highest_iid_closed := li_iid inst'\<rparr> else l1)"
  have "learner_close_instance l x inst = Some l2"
    using i(1) acc by (simp add: learner_close_instance_def Let_def l1_def l2_def)
  moreover have "learner_inv P n l2" using inv' by (auto simp: l1_def l2_def learner_inv_def)
  ultimately show thesis by (intro that [of l2 inst']) (auto simp: l1_def l2_def)
qed

lemma learner_receive_accepted_spec:
  assumes inv: "learner_inv P n l" and room: "kh_room (l_instances l)"
    and ack: "P ack" "value_wf (pvalue ack)"
  obtains l' where "learner_receive_accepted l ack = Some l'" "learner_inv P n l'"
    "l_current_iid l' = (if l_late_start l then iid ack else l_current_iid l)"
    "dom (kh_map (l_instances l')) \<subseteq> insert (iid ack) (dom (kh_map (l_instances l)))"
    "\<not> l_late_start l'"
proof -
  define l0 where "l0 = (if l_late_start l then l\<lparr>l_late_start := False, l_current_iid := iid ack\<rparr> else l)"
  have l0: "learner_inv P n l0" "kh_room (l_instances l0)" "l_instances l0 = l_instances l"
    "l_current_iid l0 = (if l_late_start l then iid ack else l_current_iid l)" "\<not> l_late_start l0"
    using inv room by (auto simp: l0_def learner_inv_def)
  have eq: "learner_receive_accepted l ack =
      (if iid ack < l_current_iid l0 then Some l0
       else do {
         (l, k, inst) \<leftarrow> learner_get_instance_or_create l0 (iid ack);
         inst \<leftarrow> instance_update inst ack (l_acceptors l);
         learner_close_instance l k inst
       })"
    by (simp add: learner_receive_accepted_def l0_def Let_def)
  show thesis
  proof (cases "iid ack < l_current_iid l0")
    case True
    then show thesis using l0 eq by (intro that [of l0]) auto
  next
    case False
    obtain l1 x inst where s: "learner_get_instance_or_create l0 (iid ack) = Some (l1, x, inst)"
      "linst_body P n (iid ack) inst" "li_iid inst = iid ack \<or> li_iid inst = 0"
      "\<And>i. linst_inv P n (iid ack) i \<Longrightarrow> learner_inv P n (l1\<lparr>l_instances := kh_set_value (l_instances l1) x i\<rparr>)"
      "\<And>i. kh_map (kh_set_value (l_instances l1) x i) = (kh_map (l_instances l0))(iid ack \<mapsto> i)"
      "l_acceptors l1 = int n" "l_current_iid l1 = l_current_iid l0" "l_late_start l1 = l_late_start l0"
      using l0(1,2) by (rule learner_slot [where k = "iid ack"]) blast
    obtain inst1 where u: "instance_update inst ack (int n) = Some inst1" "linst_inv P n (iid ack) inst1"
      using s(2,3) ack(1) refl ack(2) by (rule instance_update_spec)
    obtain l2 inst2 where c: "learner_close_instance l1 x inst1 = Some l2" "learner_inv P n l2"
      "l_current_iid l2 = l_current_iid l1" "l_instances l2 = kh_set_value (l_instances l1) x inst2"
      "l_late_start l2 = l_late_start l1"
      using u(2) s(6) s(4) by (rule learner_close_instance_spec) blast
    have "learner_receive_accepted l ack = Some l2"
      using eq False s(1,6) u(1) c(1) by simp
    then show thesis using c s(5,7,8) l0(3,4,5) by (intro that [of l2]) auto
  qed
qed

lemma learner_get_gap_spec:
  assumes "kh_inv (l_gaps l)"
  obtains (absent) "kh_map (l_gaps l) k = None" "learner_get_gap l k = Some None"
  | (present) x g where "kh_map (l_gaps l) k = Some g" "kh_at (l_gaps l) k x" "x \<noteq> kh_end (l_gaps l)"
      "kh_get (l_gaps l) k = Some x" "learner_get_gap l k = Some (Some (x, g))"
  using assms
proof (cases rule: kh.lookup_cases [where k = k])
  case absent
  then show thesis using that(1) by (simp add: learner_get_gap_def)
next
  case (present x v)
  then show thesis using that(2) [of v x] by (simp add: learner_get_gap_def)
qed

text \<open>Dropping the gap of a delivered instance.\<close>

lemma learner_drop_gap:
  assumes inv: "learner_inv P n l"
  obtains l' where "do {
       g \<leftarrow> learner_get_gap l k;
       case g of Some (_, g) \<Rightarrow> learner_delete_gap l g | None \<Rightarrow> Some l
     } = Some l'" "learner_inv P n l'" "l_instances l' = l_instances l" "l_current_iid l' = l_current_iid l"
    "kh_map (l_gaps l') = (kh_map (l_gaps l))(k := None)" "l_late_start l' = l_late_start l"
proof -
  have h: "kh_inv (l_gaps l)" using inv by (simp add: learner_inv_def)
  then show thesis
  proof (cases rule: learner_get_gap_spec [where k = k])
    case absent
    then show thesis using inv by (intro that [of l]) (simp_all add: fun_upd_idem)
  next
    case (present x g)
    have "g_iid g = k" using inv present(1) by (simp add: learner_inv_def)
    then show thesis
      using inv present kh.invar_del [OF h present(2)] kh.lookup_del [OF h present(2)]
      by (intro that [of "l\<lparr>l_gaps := kh_del (l_gaps l) x\<rparr>"])
        (simp_all add: learner_delete_gap_def learner_inv_def)
  qed
qed

lemma learner_deliver_next_spec:
  assumes inv: "learner_inv P n l"
  obtains (idle) l' where "learner_deliver_next freed l = Some (l', None)" "learner_inv P n l'"
      "l_current_iid l' = l_current_iid l" "dom (kh_map (l_instances l')) = dom (kh_map (l_instances l))"
      "l_late_start l' = l_late_start l"
  | (deliver) l' r where "learner_deliver_next freed l = Some (l', Some r)" "learner_inv P n l'"
      "l_current_iid l' = l_current_iid l + 1" "iid r = l_current_iid l" "closes P n r" "value_wf (pvalue r)"
      "dom (kh_map (l_instances l')) = dom (kh_map (l_instances l)) - {l_current_iid l}"
      "l_current_iid l \<in> dom (kh_map (l_instances l))" "l_late_start l' = l_late_start l"
  using inv
proof (cases rule: learner_get_instance_spec [where k = "l_current_iid l"])
  case absent
  then have "learner_deliver_next freed l = Some (l, None)"
    by (simp add: learner_deliver_next_def learner_get_current_instance_def)
  then show thesis using inv refl refl refl by (rule idle)
next
  case (present x inst)
  let ?k = "l_current_iid l"
  have h: "kh_inv (l_instances l)" "l_acceptors l = int n" using inv by (simp_all add: learner_inv_def)
  have body: "linst_body P n ?k inst" "li_iid inst = ?k" using present(4) by (simp_all add: linst_inv_def)
  obtain inst' where q: "instance_has_quorum inst (int n) = Some (inst', li_final_value inst' \<noteq> None)"
    "linst_body P n ?k inst'" "li_iid inst' = ?k"
    using instance_has_quorum_spec [OF body(1)] body(2) by metis
  define l1 where "l1 = l\<lparr>l_instances := kh_set_value (l_instances l) x inst'\<rparr>"
  note upd = kh.invar_set_val [OF h(1) present(2)] kh.lookup_set_val [OF h(1) present(2)]
  have inv1: "learner_inv P n l1"
    using learner_inv_updI [OF inv upd] q(2,3) by (simp add: l1_def linst_inv_def)
  have m1: "kh_map (l_instances l1) = (kh_map (l_instances l))(?k \<mapsto> inst')" by (simp add: l1_def upd(2))
  show thesis
  proof (cases "li_final_value inst'")
    case None
    then have d: "learner_deliver_next freed l = Some (l1, None)"
      using present(3) q(1) h(2) by (simp add: learner_deliver_next_def learner_get_current_instance_def l1_def)
    have c: "l_current_iid l1 = ?k" by (simp add: l1_def)
    have "dom (kh_map (l_instances l1)) = dom (kh_map (l_instances l))"
      using m1 present(1) by auto
    then show thesis by (rule idle [OF d inv1 c]) (simp add: l1_def)
  next
    case (Some r)
    note r = linst_body_closes [OF q(2) Some]
    have h1: "kh_inv (l_instances l1)" using inv1 by (simp add: learner_inv_def)
    then obtain y where y: "kh_get (l_instances l1) ?k = Some y" "kh_at (l_instances l1) ?k y"
      using kh.get_present [of "l_instances l1" ?k inst'] m1 by auto
    define l2 where "l2 = l1\<lparr>l_instances := kh_del (l_instances l1) y\<rparr>"
    have m2: "kh_map (l_instances l2) = (kh_map (l_instances l))(?k := None)"
      using kh.lookup_del [OF h1 y(2)] m1 by (simp add: l2_def)
    have inv2: "learner_inv P n l2"
      using inv inv1 kh.invar_del [OF h1 y(2)] m2 by (auto simp: learner_inv_def l2_def split: if_splits)
    obtain l3 where l3: "do {
         g \<leftarrow> learner_get_gap l2 (freed ?k);
         case g of Some (_, g) \<Rightarrow> learner_delete_gap l2 g | None \<Rightarrow> Some l2
       } = Some l3" "learner_inv P n l3" "l_instances l3 = l_instances l2" "l_current_iid l3 = l_current_iid l2"
      "l_late_start l3 = l_late_start l2"
      using inv2 by (rule learner_drop_gap [where k = "freed ?k"]) blast
    have "learner_delete_instance l1 inst' = Some l2"
      using y(1) q(3) by (simp add: learner_delete_instance_def l2_def)
    then have "learner_deliver_next freed l = Some (l3\<lparr>l_current_iid := l_current_iid l3 + 1\<rparr>, Some r)"
      using present(3) q(1,3) h(2) Some l3(1) paxos_accepted_dup_wf [OF r(3)]
      by (simp add: learner_deliver_next_def learner_get_current_instance_def flip: l1_def)
        (auto simp: bind_eq_Some_conv l1_def)
    moreover have "learner_inv P n (l3\<lparr>l_current_iid := l_current_iid l3 + 1\<rparr>)"
      using l3(2) by (simp add: learner_inv_def)
    moreover have "l_current_iid (l3\<lparr>l_current_iid := l_current_iid l3 + 1\<rparr>) = ?k + 1"
      using l3(4) by (simp add: l2_def l1_def)
    moreover have "dom (kh_map (l_instances (l3\<lparr>l_current_iid := l_current_iid l3 + 1\<rparr>))) =
        dom (kh_map (l_instances l)) - {?k}"
      using l3(3) m2 by simp
    moreover have "?k \<in> dom (kh_map (l_instances l))" using present(1) by blast
    moreover have "l_late_start (l3\<lparr>l_current_iid := l_current_iid l3 + 1\<rparr>) = l_late_start l"
      using l3(5) by (simp add: l2_def l1_def)
    ultimately show thesis using r(2,1,3) by (metis deliver)
  qed
qed

end
