(* ===== verification/Paxos_Safety.thy ===== *)
theory Paxos_Safety
  imports Acceptor Proposer_Spec Learner_Spec
begin

text \<open>
  The invariant of the protocol. \<open>M\<close> is the set of all messages sent so far, \<open>W\<close> the set of
  client values submitted so far, \<open>n\<close> the number of acceptors. \<open>net_inv\<close> is about the messages
  alone; \<open>acc_safe\<close> relates them to one acceptor and \<open>prop_safe\<close> to one proposer, both given by
  their abstract states. Each operation of an agent keeps its own part and the part about the
  messages; a message of one agent does not touch the part of another.
\<close>

type_synonym net = "paxos_message set"

section \<open>Messages\<close>

definition chosen :: "nat \<Rightarrow> net \<Rightarrow> iid_t \<Rightarrow> u16 \<Rightarrow> paxos_value \<Rightarrow> bool" where
  "chosen n M k b v \<longleftrightarrow> (\<exists>S \<subseteq> {..<n}. paxos_quorum (int n) \<le> int (card S) \<and>
     (\<forall>a \<in> S. \<exists>r. PAXOS_ACCEPTED r \<in> M \<and> iid r = k \<and> unat (aid r) = a \<and> ballot r = b \<and> pvalue r = v))"

text \<open>
  An accept request \<open>q\<close> is safe: each acceptor \<open>a\<close> of a quorum \<open>Q\<close> sent a promise \<open>P a\<close> for its
  instance and ballot, and either none of these promises reports a vote, or \<open>q\<close> carries the value
  that one of them reports with the highest ballot of all.
\<close>

definition safe :: "nat \<Rightarrow> net \<Rightarrow> paxos_accept \<Rightarrow> bool" where
  "safe n M q \<longleftrightarrow> (\<exists>Q P. Q \<subseteq> {..<n} \<and> paxos_quorum (int n) \<le> int (card Q) \<and>
     (\<forall>a \<in> Q. PAXOS_PROMISE (P a) \<in> M \<and> iid (P a) = iid q \<and> ballot (P a) = ballot q \<and> unat (aid (P a)) = a) \<and>
     ((\<forall>a \<in> Q. value_ballot (P a) = 0) \<or>
      (\<exists>a \<in> Q. pvalue (P a) = pvalue q \<and> value_ballot (P a) < ballot q \<and>
         (\<forall>b \<in> Q. value_ballot (P b) \<le> value_ballot (P a)))))"

definition voted :: "net \<Rightarrow> paxos_record \<Rightarrow> bool" where
  "voted M p \<longleftrightarrow> (\<exists>r. PAXOS_ACCEPTED r \<in> M \<and> iid r = iid p \<and> aid r = aid p \<and>
     ballot r = value_ballot p \<and> pvalue r = pvalue p)"

text \<open>What a record of an acceptor reports: no vote, or one that was sent.\<close>

definition reports :: "net \<Rightarrow> paxos_record \<Rightarrow> bool" where
  "reports M p \<longleftrightarrow> value_wf (pvalue p) \<and> value_ballot p \<le> ballot p \<and>
     (value_ballot p = 0 \<and> pvalue p = no_value \<or> voted M p)"

definition votes_inv :: "nat \<Rightarrow> net \<Rightarrow> bool" where
  "votes_inv n M \<longleftrightarrow> (\<forall>r. PAXOS_ACCEPTED r \<in> M \<longrightarrow> unat (aid r) < n \<and>
     (\<exists>q. PAXOS_ACCEPT q \<in> M \<and> iid q = iid r \<and> ballot q = ballot r \<and> pvalue q = pvalue r))"

definition one_value :: "net \<Rightarrow> bool" where
  "one_value M \<longleftrightarrow> (\<forall>q q'. PAXOS_ACCEPT q \<in> M \<longrightarrow> PAXOS_ACCEPT q' \<in> M \<longrightarrow> iid q = iid q' \<longrightarrow>
     ballot q = ballot q' \<longrightarrow> pvalue q = pvalue q')"

definition accepts_inv :: "nat \<Rightarrow> byte list set \<Rightarrow> net \<Rightarrow> bool" where
  "accepts_inv n W M \<longleftrightarrow>
     (\<forall>q. PAXOS_ACCEPT q \<in> M \<longrightarrow> ok_value W (pvalue q) \<and> 0 < ballot q \<and> safe n M q)"

definition promises_inv :: "nat \<Rightarrow> net \<Rightarrow> bool" where
  "promises_inv n M \<longleftrightarrow> (\<forall>p. PAXOS_PROMISE p \<in> M \<longrightarrow> unat (aid p) < n \<and> reports M p \<and>
     (\<forall>r. PAXOS_ACCEPTED r \<in> M \<longrightarrow> iid r = iid p \<longrightarrow> aid r = aid p \<longrightarrow> ballot r < ballot p \<longrightarrow>
       ballot r \<le> value_ballot p))"

definition net_inv :: "nat \<Rightarrow> byte list set \<Rightarrow> net \<Rightarrow> bool" where
  "net_inv n W M \<longleftrightarrow> votes_inv n M \<and> one_value M \<and> accepts_inv n W M \<and> promises_inv n M"

lemma net_inv_accepted:
  assumes "net_inv n W M" "PAXOS_ACCEPTED r \<in> M"
  obtains q where "unat (aid r) < n" "PAXOS_ACCEPT q \<in> M" "iid q = iid r" "ballot q = ballot r" "pvalue q = pvalue r"
  using assms by (auto simp: net_inv_def votes_inv_def)

lemma net_inv_accept:
  "net_inv n W M \<Longrightarrow> PAXOS_ACCEPT q \<in> M \<Longrightarrow> ok_value W (pvalue q) \<and> 0 < ballot q \<and> safe n M q"
  by (simp add: net_inv_def accepts_inv_def)

lemma net_inv_accept_unique:
  "net_inv n W M \<Longrightarrow> PAXOS_ACCEPT q \<in> M \<Longrightarrow> PAXOS_ACCEPT q' \<in> M \<Longrightarrow> iid q = iid q' \<Longrightarrow>
    ballot q = ballot q' \<Longrightarrow> pvalue q = pvalue q'"
  unfolding net_inv_def one_value_def by iprover

lemma net_inv_promise:
  "net_inv n W M \<Longrightarrow> PAXOS_PROMISE p \<in> M \<Longrightarrow> unat (aid p) < n \<and> reports M p"
  by (simp add: net_inv_def promises_inv_def)

lemma net_inv_promise_vote:
  "net_inv n W M \<Longrightarrow> PAXOS_PROMISE p \<in> M \<Longrightarrow> PAXOS_ACCEPTED r \<in> M \<Longrightarrow> iid r = iid p \<Longrightarrow> aid r = aid p \<Longrightarrow>
    ballot r < ballot p \<Longrightarrow> ballot r \<le> value_ballot p"
  by (simp add: net_inv_def promises_inv_def)

text \<open>All votes of one ballot are for one value.\<close>

lemma votes_agree:
  assumes inv: "net_inv n W M" and r: "PAXOS_ACCEPTED r \<in> M" and r': "PAXOS_ACCEPTED r' \<in> M"
    and eq: "iid r = iid r'" "ballot r = ballot r'"
  shows "pvalue r = pvalue r'"
proof -
  obtain q where q: "PAXOS_ACCEPT q \<in> M" "iid q = iid r" "ballot q = ballot r" "pvalue q = pvalue r"
    using inv r by (rule net_inv_accepted)
  obtain q' where q': "PAXOS_ACCEPT q' \<in> M" "iid q' = iid r'" "ballot q' = ballot r'" "pvalue q' = pvalue r'"
    using inv r' by (rule net_inv_accepted)
  show ?thesis using net_inv_accept_unique [OF inv q(1) q'(1)] q q' eq by simp
qed

section \<open>Agreement\<close>

text \<open>
  The heart of the argument: a value chosen at a lower ballot is the value of every accept
  request at a higher one.
\<close>

lemma chosen_below:
  assumes inv: "net_inv n W M"
  shows "PAXOS_ACCEPT q \<in> M \<Longrightarrow> chosen n M (iid q) c w \<Longrightarrow> c < ballot q \<Longrightarrow> pvalue q = w"
proof (induction "unat (ballot q)" arbitrary: q rule: less_induct)
  case less
  obtain Q P where Q: "Q \<subseteq> {..<n}" "paxos_quorum (int n) \<le> int (card Q)"
    "\<And>a. a \<in> Q \<Longrightarrow> PAXOS_PROMISE (P a) \<in> M \<and> iid (P a) = iid q \<and> ballot (P a) = ballot q \<and> unat (aid (P a)) = a"
    "(\<forall>a \<in> Q. value_ballot (P a) = 0) \<or> (\<exists>a \<in> Q. pvalue (P a) = pvalue q \<and> value_ballot (P a) < ballot q \<and>
      (\<forall>b \<in> Q. value_ballot (P b) \<le> value_ballot (P a)))"
    using net_inv_accept [OF inv less.prems(1)] unfolding safe_def by blast
  obtain S where S: "S \<subseteq> {..<n}" "paxos_quorum (int n) \<le> int (card S)"
    "\<And>a. a \<in> S \<Longrightarrow> \<exists>r. PAXOS_ACCEPTED r \<in> M \<and> iid r = iid q \<and> unat (aid r) = a \<and> ballot r = c \<and> pvalue r = w"
    using less.prems(2) unfolding chosen_def by blast
  obtain a where a: "a \<in> Q" "a \<in> S" using majorities_meet [of "{..<n}" Q S] Q(1,2) S(1,2) by auto
  note p = Q(3) [OF a(1)]
  obtain r where r: "PAXOS_ACCEPTED r \<in> M" "iid r = iid q" "unat (aid r) = a" "ballot r = c" "pvalue r = w"
    using S(3) [OF a(2)] by blast
  have "aid r = aid (P a)" unfolding word_unat_eq_iff using p r(3) by simp
  then have ca: "c \<le> value_ballot (P a)"
    using net_inv_promise_vote [OF inv _ r(1), of "P a"] p r less.prems(3) by auto
  obtain q0 where "PAXOS_ACCEPT q0 \<in> M" "ballot q0 = ballot r"
    using inv r(1) by (rule net_inv_accepted)
  then have "0 < c" using net_inv_accept [OF inv, of q0] r(4) by simp
  then have "value_ballot (P a) \<noteq> 0" using ca by auto
  then obtain a' where a': "a' \<in> Q" "pvalue (P a') = pvalue q" "value_ballot (P a') < ballot q"
    "value_ballot (P a) \<le> value_ballot (P a')" using Q(4) a(1) by blast
  define m where "m = value_ballot (P a')"
  define p' where "p' = P a'"
  have cm: "c \<le> m" using ca a'(4) by (simp add: m_def)
  then have "m \<noteq> 0" using \<open>0 < c\<close> by auto
  have p': "PAXOS_PROMISE p' \<in> M" "iid p' = iid q" "value_ballot p' = m" "m < ballot q" "pvalue p' = pvalue q"
    using Q(3) [OF a'(1)] a' by (simp_all add: p'_def m_def)
  then have "voted M p'" using net_inv_promise [OF inv p'(1)] \<open>m \<noteq> 0\<close> by (auto simp: reports_def)
  then obtain r' where r': "PAXOS_ACCEPTED r' \<in> M" "iid r' = iid q" "ballot r' = m" "pvalue r' = pvalue q"
    using p' by (auto simp: voted_def)
  show ?case
  proof (cases "c = m")
    case True
    then show ?thesis using votes_agree [OF inv r(1) r'(1)] r r' by simp
  next
    case False
    obtain q' where q': "PAXOS_ACCEPT q' \<in> M" "iid q' = iid r'" "ballot q' = ballot r'" "pvalue q' = pvalue r'"
      using inv r'(1) by (rule net_inv_accepted)
    then have "unat (ballot q') < unat (ballot q)" using r'(3) p'(4) by (simp add: word_less_nat_alt)
    from less.hyps [OF this q'(1)] show ?thesis using less.prems(2) q' r' False cm by simp
  qed
qed

lemma chosen_accept:
  assumes "net_inv n W M" "chosen n M k b v"
  obtains q where "PAXOS_ACCEPT q \<in> M" "iid q = k" "ballot q = b" "pvalue q = v"
proof -
  obtain S where S: "S \<subseteq> {..<n}" "paxos_quorum (int n) \<le> int (card S)"
    "\<And>a. a \<in> S \<Longrightarrow> \<exists>r. PAXOS_ACCEPTED r \<in> M \<and> iid r = k \<and> ballot r = b \<and> pvalue r = v"
    using assms(2) unfolding chosen_def by blast
  then have "S \<noteq> {}" by (auto simp: paxos_quorum_nat)
  then obtain r where r: "PAXOS_ACCEPTED r \<in> M" "iid r = k" "ballot r = b" "pvalue r = v" using S(3) by blast
  obtain q where "PAXOS_ACCEPT q \<in> M" "iid q = iid r" "ballot q = ballot r" "pvalue q = pvalue r"
    using assms(1) r(1) by (rule net_inv_accepted)
  then show thesis using r by (intro that [of q]) simp_all
qed

lemma chosen_unique:
  assumes inv: "net_inv n W M" and c: "chosen n M k b v" "chosen n M k b' v'"
  shows "v = v'"
proof -
  obtain q where q: "PAXOS_ACCEPT q \<in> M" "iid q = k" "ballot q = b" "pvalue q = v"
    using inv c(1) by (rule chosen_accept)
  obtain q' where q': "PAXOS_ACCEPT q' \<in> M" "iid q' = k" "ballot q' = b'" "pvalue q' = v'"
    using inv c(2) by (rule chosen_accept)
  show ?thesis
    using chosen_below [OF inv q(1), of b' v'] chosen_below [OF inv q'(1), of b v]
      net_inv_accept_unique [OF inv q(1) q'(1)] q q' c by (cases b b' rule: linorder_cases) auto
qed

lemma closes_chosen:
  assumes inv: "net_inv n W M" and c: "closes (\<lambda>r. PAXOS_ACCEPTED r \<in> M) n r"
  shows "chosen n M (iid r) (ballot r) (pvalue r)"
proof -
  have r: "PAXOS_ACCEPTED r \<in> M" using c by (simp add: closes_def)
  obtain S where S: "S \<subseteq> {..<n}" "paxos_quorum (int n) \<le> int (card S)"
    "\<And>a. a \<in> S \<Longrightarrow> \<exists>r'. PAXOS_ACCEPTED r' \<in> M \<and> iid r' = iid r \<and> unat (aid r') = a \<and> ballot r' = ballot r"
    using c unfolding closes_def by blast
  have "\<exists>r'. PAXOS_ACCEPTED r' \<in> M \<and> iid r' = iid r \<and> unat (aid r') = a \<and> ballot r' = ballot r \<and> pvalue r' = pvalue r"
    if "a \<in> S" for a
    using S(3) [OF that] votes_agree [OF inv _ r] by blast
  then show ?thesis unfolding chosen_def using S(1,2) by blast
qed

section \<open>Growing sets of messages\<close>

lemma voted_mono: "voted M p \<Longrightarrow> M \<subseteq> M' \<Longrightarrow> voted M' p"
  by (auto simp: voted_def)

lemma reports_mono: "reports M p \<Longrightarrow> M \<subseteq> M' \<Longrightarrow> reports M' p"
  by (auto simp: reports_def dest: voted_mono)

lemma safe_mono:
  assumes "safe n M q" "M \<subseteq> M'"
  shows "safe n M' q"
proof -
  from assms(1) obtain Q P where Q: "Q \<subseteq> {..<n}" "paxos_quorum (int n) \<le> int (card Q)"
    "\<forall>a \<in> Q. PAXOS_PROMISE (P a) \<in> M \<and> iid (P a) = iid q \<and> ballot (P a) = ballot q \<and> unat (aid (P a)) = a"
    "(\<forall>a \<in> Q. value_ballot (P a) = 0) \<or> (\<exists>a \<in> Q. pvalue (P a) = pvalue q \<and> value_ballot (P a) < ballot q \<and>
      (\<forall>b \<in> Q. value_ballot (P b) \<le> value_ballot (P a)))"
    unfolding safe_def by blast
  moreover have "\<forall>a \<in> Q. PAXOS_PROMISE (P a) \<in> M'" using Q(3) assms(2) by blast
  ultimately show ?thesis unfolding safe_def by (intro exI [of _ Q] exI [of _ P]) simp
qed

lemma ok_value_mono: "ok_value W v \<Longrightarrow> W \<subseteq> W' \<Longrightarrow> ok_value W' v"
  by (auto simp: ok_value_def)

text \<open>
  A message that is neither an accept request, a promise nor a vote changes nothing.
\<close>

fun inert :: "paxos_message \<Rightarrow> bool" where
  "inert (PAXOS_PROMISE _) \<longleftrightarrow> False"
| "inert (PAXOS_ACCEPT _) \<longleftrightarrow> False"
| "inert (PAXOS_ACCEPTED _) \<longleftrightarrow> False"
| "inert _ \<longleftrightarrow> True"

lemma inert_neq: "inert m \<Longrightarrow> PAXOS_PROMISE p \<noteq> m \<and> PAXOS_ACCEPT q \<noteq> m \<and> PAXOS_ACCEPTED r \<noteq> m"
  by auto

lemma net_inv_mono_values: "net_inv n W M \<Longrightarrow> W \<subseteq> W' \<Longrightarrow> net_inv n W' M"
  by (auto simp: net_inv_def accepts_inv_def dest: ok_value_mono)

lemma net_inv_inert:
  assumes "net_inv n W M" "inert m"
  shows "net_inv n W (insert m M)"
proof -
  have sub: "M \<subseteq> insert m M" by blast
  have "votes_inv n (insert m M)" "one_value (insert m M)"
    using assms inert_neq [OF assms(2)] unfolding net_inv_def votes_inv_def one_value_def by blast+
  moreover have "accepts_inv n W (insert m M)"
    using assms(1) inert_neq [OF assms(2)] safe_mono [OF _ sub]
    unfolding net_inv_def accepts_inv_def by blast
  moreover have "promises_inv n (insert m M)"
    using assms(1) inert_neq [OF assms(2)] reports_mono [OF _ sub]
    unfolding net_inv_def promises_inv_def by blast
  ultimately show ?thesis by (simp add: net_inv_def)
qed

section \<open>Acceptors\<close>

definition acc_safe :: "net \<Rightarrow> u16 \<Rightarrow> acc_spec \<Rightarrow> bool" where
  "acc_safe M a s \<longleftrightarrow>
     (\<forall>p. PAXOS_PROMISE p \<in> M \<longrightarrow> aid p = a \<longrightarrow> iid p \<le> snd s \<or>
        (\<exists>r. fst s (iid p) = Some r \<and> ballot p \<le> ballot r)) \<and>
     (\<forall>v. PAXOS_ACCEPTED v \<in> M \<longrightarrow> aid v = a \<longrightarrow> iid v \<le> snd s \<or>
        (\<exists>r. fst s (iid v) = Some r \<and> ballot v \<le> value_ballot r)) \<and>
     (\<forall>k r. fst s k = Some r \<longrightarrow> iid r = k \<and> aid r = a \<and> reports M r)"

lemma acc_safe_promise:
  "acc_safe M a s \<Longrightarrow> PAXOS_PROMISE p \<in> M \<Longrightarrow> aid p = a \<Longrightarrow> \<not> iid p \<le> snd s \<Longrightarrow>
    \<exists>r. fst s (iid p) = Some r \<and> ballot p \<le> ballot r"
  unfolding acc_safe_def by blast

lemma acc_safe_vote:
  "acc_safe M a s \<Longrightarrow> PAXOS_ACCEPTED v \<in> M \<Longrightarrow> aid v = a \<Longrightarrow> \<not> iid v \<le> snd s \<Longrightarrow>
    \<exists>r. fst s (iid v) = Some r \<and> ballot v \<le> value_ballot r"
  unfolding acc_safe_def by blast

lemma acc_safe_record: "acc_safe M a s \<Longrightarrow> fst s k = Some r \<Longrightarrow> iid r = k \<and> aid r = a \<and> reports M r"
  unfolding acc_safe_def by blast

lemma acc_safe_mono:
  assumes "acc_safe M a s" "M \<subseteq> M'"
    and "\<And>p. PAXOS_PROMISE p \<in> M' \<Longrightarrow> aid p = a \<Longrightarrow> PAXOS_PROMISE p \<in> M"
    and "\<And>v. PAXOS_ACCEPTED v \<in> M' \<Longrightarrow> aid v = a \<Longrightarrow> PAXOS_ACCEPTED v \<in> M"
  shows "acc_safe M' a s"
  using assms reports_mono [OF _ assms(2)] unfolding acc_safe_def by blast

lemma prepared_reports:
  assumes safe: "acc_safe M a s" and a: "a = aid_of i"
  shows "reports M (prepared i req (fst s (iid req)))" "aid (prepared i req (fst s (iid req))) = a"
    "iid (prepared i req (fst s (iid req))) = iid req"
proof -
  have "reports M (prepared i req (fst s (iid req))) \<and> aid (prepared i req (fst s (iid req))) = a \<and>
      iid (prepared i req (fst s (iid req))) = iid req"
  proof (cases "fst s (iid req)")
    case None
    then show ?thesis using a by (simp add: prepared_def reports_def zero_record_def)
  next
    case (Some r)
    note r = acc_safe_record [OF safe Some]
    then show ?thesis
      using a Some by (auto simp: prepared_def reports_def voted_def intro: order_trans)
  qed
  then show "reports M (prepared i req (fst s (iid req)))" "aid (prepared i req (fst s (iid req))) = a"
    "iid (prepared i req (fst s (iid req))) = iid req" by auto
qed

lemma prepared_old_ballot: "fst s k = Some r \<Longrightarrow> ballot r \<le> ballot (prepared i req (fst s k))"
  by (auto simp: prepared_def)

lemma prepare_safe:
  assumes inv: "net_inv n W M" and safe: "acc_safe M a s" and a: "a = aid_of i" "unat a < n"
    and trim: "\<not> iid req \<le> snd s"
  defines "r \<equiv> prepared i req (fst s (iid req))"
  shows "net_inv n W (insert (PAXOS_PROMISE r) M)"
    and "acc_safe (insert (PAXOS_PROMISE r) M) a ((fst s)(iid req \<mapsto> r), snd s)"
proof -
  let ?M = "insert (PAXOS_PROMISE r) M"
  have sub: "M \<subseteq> ?M" by blast
  note r = prepared_reports [OF safe a(1), of req, folded r_def]
  have votes: "ballot v \<le> value_ballot r" if "PAXOS_ACCEPTED v \<in> M" "iid v = iid r" "aid v = aid r" for v
  proof -
    note v = that
    obtain r0 where "fst s (iid req) = Some r0" "ballot v \<le> value_ballot r0"
      using acc_safe_vote [OF safe v(1)] v(2,3) r(2,3) trim by auto
    then show ?thesis by (simp add: r_def)
  qed
  have "promises_inv n ?M"
    using inv reports_mono [OF _ sub] r(1,2) a(2) votes
    unfolding net_inv_def promises_inv_def by auto
  moreover have "accepts_inv n W ?M"
    using inv safe_mono [OF _ sub] unfolding net_inv_def accepts_inv_def by blast
  moreover have "votes_inv n ?M" "one_value ?M"
    using inv unfolding net_inv_def votes_inv_def one_value_def by blast+
  ultimately show "net_inv n W ?M" by (simp add: net_inv_def)
  let ?s = "((fst s)(iid req \<mapsto> r), snd s)"
  have old: "\<exists>r'. fst ?s (iid p) = Some r' \<and> ballot p \<le> ballot r'"
    if "fst s (iid p) = Some r0" "ballot p \<le> ballot r0" for p r0
    using that prepared_old_ballot [of s "iid req" r0 i req] by (auto simp: r_def)
  have "iid p \<le> snd ?s \<or> (\<exists>r'. fst ?s (iid p) = Some r' \<and> ballot p \<le> ballot r')"
    if "PAXOS_PROMISE p \<in> ?M" "aid p = a" for p
  proof (cases "p = r \<or> iid p \<le> snd s")
    case True
    then show ?thesis using r(3) by auto
  next
    case False
    then have "PAXOS_PROMISE p \<in> M" using that(1) by simp
    from acc_safe_promise [OF safe this that(2)] False
    obtain r0 where "fst s (iid p) = Some r0" "ballot p \<le> ballot r0" by blast
    then show ?thesis using old by blast
  qed
  moreover have "iid v \<le> snd ?s \<or> (\<exists>r'. fst ?s (iid v) = Some r' \<and> ballot v \<le> value_ballot r')"
    if "PAXOS_ACCEPTED v \<in> ?M" "aid v = a" for v
    using that acc_safe_vote [OF safe, of v] votes [of v] r(2,3) by auto
  moreover have "iid r' = k \<and> aid r' = a \<and> reports ?M r'" if "fst ?s k = Some r'" for k r'
    using that acc_safe_record [OF safe, of k r'] r reports_mono [OF _ sub] by (auto split: if_splits)
  ultimately show "acc_safe ?M a ?s" unfolding acc_safe_def by blast
qed

lemma vote_safe:
  assumes inv: "net_inv n W M" and safe: "acc_safe M a s" and a: "a = aid_of i" "unat a < n"
    and trim: "\<not> iid req \<le> snd s" and req: "PAXOS_ACCEPT req \<in> M" and may: "may_vote (fst s (iid req)) req"
  shows "net_inv n W (insert (PAXOS_ACCEPTED (vote i req)) M)"
    and "acc_safe (insert (PAXOS_ACCEPTED (vote i req)) M) a ((fst s)(iid req \<mapsto> vote i req), snd s)"
proof -
  let ?v = "vote i req" and ?M = "insert (PAXOS_ACCEPTED (vote i req)) M"
  have sub: "M \<subseteq> ?M" by blast
  have val: "ok_value W (pvalue req)" using net_inv_accept [OF inv req] by blast
  then have v: "iid ?v = iid req" "ballot ?v = ballot req" "value_ballot ?v = ballot req" "aid ?v = a"
    "pvalue ?v = pvalue req"
    using a(1) by (simp_all add: vote_def ok_value_def)
  have old: "ballot r \<le> ballot req" if "fst s (iid req) = Some r" for r
    using may that by (simp add: may_vote_def)
  have "promises_inv n ?M"
  proof -
    have "ballot req \<ge> ballot p" if "PAXOS_PROMISE p \<in> M" "iid p = iid req" "aid p = a" for p
      using acc_safe_promise [OF safe that(1,3)] that(2) trim old by (auto intro: order_trans)
    then show ?thesis
      using inv reports_mono [OF _ sub] v unfolding net_inv_def promises_inv_def
      by (auto simp: not_le [symmetric])
  qed
  moreover have "accepts_inv n W ?M"
    using inv safe_mono [OF _ sub] unfolding net_inv_def accepts_inv_def by blast
  moreover have "one_value ?M" using inv unfolding net_inv_def one_value_def by blast
  moreover have "votes_inv n ?M"
    using inv req v a(2) unfolding net_inv_def votes_inv_def by auto
  ultimately show "net_inv n W ?M" by (simp add: net_inv_def)
  let ?s = "((fst s)(iid req \<mapsto> ?v), snd s)"
  have "iid p \<le> snd ?s \<or> (\<exists>r'. fst ?s (iid p) = Some r' \<and> ballot p \<le> ballot r')"
    if "PAXOS_PROMISE p \<in> ?M" "aid p = a" for p
  proof (cases "iid p \<le> snd s")
    case False
    have "PAXOS_PROMISE p \<in> M" using that(1) by simp
    from acc_safe_promise [OF safe this that(2)] False
    obtain r0 where r0: "fst s (iid p) = Some r0" "ballot p \<le> ballot r0" by blast
    show ?thesis
    proof (cases "iid p = iid req")
      case True
      then have "ballot r0 \<le> ballot req" using old r0(1) by simp
      from order_trans [OF r0(2) this] show ?thesis using True v(2) by simp
    qed (use r0 in simp)
  qed simp
  moreover have "iid w \<le> snd ?s \<or> (\<exists>r'. fst ?s (iid w) = Some r' \<and> ballot w \<le> value_ballot r')"
    if "PAXOS_ACCEPTED w \<in> ?M" "aid w = a" for w
  proof (cases "w = ?v")
    case True
    then show ?thesis using v by simp
  next
    case False
    then have "PAXOS_ACCEPTED w \<in> M" using that(1) by simp
    note w = acc_safe_vote [OF safe this that(2)]
    show ?thesis
    proof (cases "iid w \<le> snd s")
      case False
      from w [OF this] obtain r where r: "fst s (iid w) = Some r" "ballot w \<le> value_ballot r" by blast
      have "value_ballot r \<le> ballot r" using acc_safe_record [OF safe r(1)] by (simp add: reports_def)
      then show ?thesis using r old v(3) by (auto intro: order_trans)
    qed simp
  qed
  moreover have "iid r' = k \<and> aid r' = a \<and> reports ?M r'" if "fst ?s k = Some r'" for k r'
  proof (cases "k = iid req")
    case True
    then have "r' = ?v" using that by simp
    moreover have "voted ?M ?v" using v(2,3) unfolding voted_def by (intro exI [of _ ?v]) simp
    ultimately show ?thesis using True v val by (auto simp: reports_def ok_value_def)
  next
    case False
    then show ?thesis using that acc_safe_record [OF safe, of k r'] reports_mono [OF _ sub] by auto
  qed
  ultimately show "acc_safe ?M a ?s" unfolding acc_safe_def by blast
qed

lemma trim_safe:
  assumes safe: "acc_safe M a s" and lt: "\<not> i \<le> snd s"
  shows "acc_safe M a (fst s |` {k. i < k}, i)"
proof -
  let ?s = "(fst s |` {k. i < k}, i)"
  have keep: "fst ?s k = fst s k" "\<not> k \<le> snd s" if "\<not> k \<le> snd ?s" for k
    using that lt by auto
  have "iid p \<le> snd ?s \<or> (\<exists>r. fst ?s (iid p) = Some r \<and> ballot p \<le> ballot r)"
    if "PAXOS_PROMISE p \<in> M" "aid p = a" for p
    using acc_safe_promise [OF safe that] keep [of "iid p"] by metis
  moreover have "iid v \<le> snd ?s \<or> (\<exists>r. fst ?s (iid v) = Some r \<and> ballot v \<le> value_ballot r)"
    if "PAXOS_ACCEPTED v \<in> M" "aid v = a" for v
    using acc_safe_vote [OF safe that] keep [of "iid v"] by metis
  moreover have "iid r = k \<and> aid r = a \<and> reports M r" if "fst ?s k = Some r" for k r
    using that acc_safe_record [OF safe, of k r] by (auto simp: restrict_map_def split: if_splits)
  ultimately show ?thesis unfolding acc_safe_def by blast
qed

section \<open>Proposers\<close>

text \<open>The proposer that owns a ballot is given by its last digit.\<close>

definition own_accept :: "net \<Rightarrow> int \<Rightarrow> paxos_accept \<Rightarrow> bool" where
  "own_accept M i q \<longleftrightarrow> PAXOS_ACCEPT q \<in> M \<and> uint (ballot q) mod 10 = i"

text \<open>
  The promises \<open>P\<close> an instance has counted, one for each acceptor of its counter, were all sent for
  its ballot and report no later vote than the one it adopted, which one of them reports.
\<close>

definition promised_ok :: "net \<Rightarrow> iid_t \<Rightarrow> pinstance \<Rightarrow> bool" where
  "promised_ok M k inst \<longleftrightarrow> (\<exists>P.
     (\<forall>a \<in> quorum_set (i_quorum inst). PAXOS_PROMISE (P a) \<in> M \<and> iid (P a) = k \<and>
        ucast (ballot (P a)) = i_ballot inst \<and> unat (aid (P a)) = a \<and>
        ucast (value_ballot (P a)) \<le> i_value_ballot inst) \<and>
     (case i_promised_value inst of
        None \<Rightarrow> i_value_ballot inst = 0
      | Some v \<Rightarrow> i_value_ballot inst < i_ballot inst \<and> (\<exists>a \<in> quorum_set (i_quorum inst).
          ucast (value_ballot (P a)) = i_value_ballot inst \<and> pvalue (P a) = v)))"

definition prop_safe :: "nat \<Rightarrow> byte list set \<Rightarrow> net \<Rightarrow> prop_spec \<Rightarrow> bool" where
  "prop_safe n W M s \<longleftrightarrow> spec_inv n W s \<and>
     (\<forall>q. own_accept M (s_id s) q \<longrightarrow> iid q \<le> s_next s) \<and>
     (\<forall>k inst. s_prep s k = Some inst \<longrightarrow> promised_ok M k inst \<and>
        (\<forall>q. own_accept M (s_id s) q \<longrightarrow> iid q = k \<longrightarrow> ucast (ballot q) < i_ballot inst)) \<and>
     (\<forall>k inst. s_acc s k = Some inst \<longrightarrow> PAXOS_ACCEPT (accept_msg inst) \<in> M \<and>
        (\<forall>q. own_accept M (s_id s) q \<longrightarrow> iid q = k \<longrightarrow> ucast (ballot q) \<le> i_ballot inst))"

lemma prop_safe_next: "prop_safe n W M s \<Longrightarrow> own_accept M (s_id s) q \<Longrightarrow> iid q \<le> s_next s"
  unfolding prop_safe_def by blast

lemma prop_safe_prep:
  "prop_safe n W M s \<Longrightarrow> s_prep s k = Some inst \<Longrightarrow> promised_ok M k inst"
  "prop_safe n W M s \<Longrightarrow> s_prep s k = Some inst \<Longrightarrow> own_accept M (s_id s) q \<Longrightarrow> iid q = k \<Longrightarrow>
    ucast (ballot q) < i_ballot inst"
  unfolding prop_safe_def by blast+

lemma prop_safe_acc:
  "prop_safe n W M s \<Longrightarrow> s_acc s k = Some inst \<Longrightarrow> PAXOS_ACCEPT (accept_msg inst) \<in> M"
  "prop_safe n W M s \<Longrightarrow> s_acc s k = Some inst \<Longrightarrow> own_accept M (s_id s) q \<Longrightarrow> iid q = k \<Longrightarrow>
    ucast (ballot q) \<le> i_ballot inst"
  unfolding prop_safe_def by blast+

lemma prop_safeI:
  assumes "spec_inv n W s" and "\<And>q. own_accept M (s_id s) q \<Longrightarrow> iid q \<le> s_next s"
    and "\<And>k inst. s_prep s k = Some inst \<Longrightarrow> promised_ok M k inst"
    and "\<And>k inst q. s_prep s k = Some inst \<Longrightarrow> own_accept M (s_id s) q \<Longrightarrow> iid q = k \<Longrightarrow>
      ucast (ballot q) < i_ballot inst"
    and "\<And>k inst. s_acc s k = Some inst \<Longrightarrow> PAXOS_ACCEPT (accept_msg inst) \<in> M"
    and "\<And>k inst q. s_acc s k = Some inst \<Longrightarrow> own_accept M (s_id s) q \<Longrightarrow> iid q = k \<Longrightarrow>
      ucast (ballot q) \<le> i_ballot inst"
  shows "prop_safe n W M s"
  using assms unfolding prop_safe_def by blast

lemma promised_ok_mono:
  assumes "promised_ok M k inst" "M \<subseteq> M'"
  shows "promised_ok M' k inst"
proof -
  from assms(1) obtain P where P: "\<forall>a \<in> quorum_set (i_quorum inst). PAXOS_PROMISE (P a) \<in> M \<and> iid (P a) = k \<and>
      ucast (ballot (P a)) = i_ballot inst \<and> unat (aid (P a)) = a \<and> ucast (value_ballot (P a)) \<le> i_value_ballot inst"
    "case i_promised_value inst of None \<Rightarrow> i_value_ballot inst = 0
      | Some v \<Rightarrow> i_value_ballot inst < i_ballot inst \<and> (\<exists>a \<in> quorum_set (i_quorum inst).
          ucast (value_ballot (P a)) = i_value_ballot inst \<and> pvalue (P a) = v)"
    unfolding promised_ok_def by blast
  moreover have "\<forall>a \<in> quorum_set (i_quorum inst). PAXOS_PROMISE (P a) \<in> M'" using P(1) assms(2) by blast
  ultimately show ?thesis unfolding promised_ok_def by (intro exI [of _ P]) simp
qed

lemma inst_wf_mono: "inst_wf n i W inst \<Longrightarrow> W \<subseteq> W' \<Longrightarrow> inst_wf n i W' inst"
  by (auto simp: inst_wf_def dest: ok_value_mono)

lemma spec_inv_mono:
  assumes "spec_inv n W s" "W \<subseteq> W'"
  shows "spec_inv n W' s"
  using assms(1) inst_wf_mono [OF _ assms(2)] ok_value_mono [OF _ assms(2)]
  unfolding spec_inv_def by blast

lemma prop_safe_mono:
  assumes safe: "prop_safe n W M s" and sub: "M \<subseteq> M'" "W \<subseteq> W'"
    and own: "\<And>q. own_accept M' (s_id s) q \<Longrightarrow> own_accept M (s_id s) q"
  shows "prop_safe n W' M' s"
proof (rule prop_safeI)
  show "spec_inv n W' s" using safe spec_inv_mono [OF _ sub(2)] by (simp add: prop_safe_def)
qed (use own prop_safe_next [OF safe] prop_safe_prep [OF safe] prop_safe_acc [OF safe] sub(1)
  promised_ok_mono [OF _ sub(1)] in blast)+

end
