(* ===== verification/Proposer_Safety.thy ===== *)
theory Proposer_Safety
  imports Paxos_Safety
begin

text \<open>
  Each abstract operation of the proposer keeps the invariant of the protocol, with the message
  it sends added to the messages sent.
\<close>

section \<open>Ballots\<close>

lemma uint_ucast_16_32 [simp]: "uint (ucast (x :: u16) :: 32 word) = uint x"
proof -
  have "uint x < 2 ^ 16" using uint_lt2p [of x] by simp
  then have "uint x mod 2 ^ 32 = uint x" by (intro mod_pos_pos_trivial) simp_all
  then show ?thesis by (simp add: unsigned_ucast_eq take_bit_eq_mod)
qed

lemma uint_ucast_32_16: "uint (b :: 32 word) < 65536 \<Longrightarrow> uint (ucast b :: u16) = uint b"
  by (simp add: unsigned_ucast_eq take_bit_eq_mod)

lemma uint_16_bound: "uint (x :: u16) < 65536"
  using uint_lt2p [of x] by simp

lemma ucast_back: "uint (b :: 32 word) < 65536 \<Longrightarrow> ucast (ucast b :: u16) = b"
  by (simp add: word_uint_eq_iff uint_ucast_32_16)

lemma next_ballot:
  assumes "own_ballot i b" "b < ucast (x :: u16)"
  shows "own_ballot i (10 + b)" "b < 10 + b" "0 < b"
proof -
  have lt: "uint b < uint x" using assms(2) by (simp add: word_less_alt)
  then have bd: "uint b < 65535" using uint_16_bound [of x] by linarith
  then have "(10 + uint b) mod 2 ^ 32 = 10 + uint b"
    using uint_ge_0 [of b] by (intro mod_pos_pos_trivial) simp_all
  then have u: "uint (10 + b) = 10 + uint b" by (simp add: uint_word_ariths(1))
  show "own_ballot i (10 + b)" using assms(1) bd unfolding own_ballot_def u by auto
  show "b < 10 + b" by (simp add: word_less_alt u)
  show "0 < b" using assms(1) by (simp add: word_less_alt own_ballot_def)
qed

lemma first_ballot:
  assumes "0 \<le> i" "i < 10"
  shows "own_ballot i (word_of_int (10 + i))"
proof -
  have "(10 + i) mod 2 ^ 32 = 10 + i" using assms by (intro mod_pos_pos_trivial) simp_all
  then have "uint (word_of_int (10 + i) :: ballot_t) = 10 + i" unfolding uint_word_of_int by simp
  then show ?thesis using assms by (simp add: own_ballot_def)
qed

section \<open>Instances\<close>

lemma preempt_inst_fields [simp]:
  "i_iid (preempt_inst i inst now) = i_iid inst" "i_value (preempt_inst i inst now) = i_value inst"
  "i_promised_value (preempt_inst i inst now) = None" "i_value_ballot (preempt_inst i inst now) = 0"
  "i_quorum (preempt_inst i inst now) = quorum_clear (i_quorum inst)"
  by (simp_all add: preempt_inst_def)

lemma preempt_inst_wf:
  assumes wf: "inst_wf n i W inst" and lt: "i_ballot inst < ucast (x :: u16)"
  shows "inst_wf n i W (preempt_inst i inst now)" "i_ballot inst < i_ballot (preempt_inst i inst now)"
proof -
  have own: "own_ballot i (i_ballot inst)" using wf by (simp add: inst_wf_def)
  note b = next_ballot [OF own lt]
  then have "i_ballot (preempt_inst i inst now) = 10 + i_ballot inst" by (simp add: preempt_inst_def)
  then show "inst_wf n i W (preempt_inst i inst now)" "i_ballot inst < i_ballot (preempt_inst i inst now)"
    using wf b by (auto simp: inst_wf_def quorum_clear_inv)
qed

lemma promised_ok_empty:
  "quorum_set (i_quorum inst) = {} \<Longrightarrow> i_promised_value inst = None \<Longrightarrow> i_value_ballot inst = 0 \<Longrightarrow>
    promised_ok M k inst"
  by (simp add: promised_ok_def)

definition in_order :: "prop_spec \<Rightarrow> iid_t \<Rightarrow> pinstance \<Rightarrow> bool" where
  "in_order s k inst \<longleftrightarrow> i_iid inst = k \<and> 0 < k \<and> k \<le> s_next s"

lemma spec_invI:
  assumes "s_acceptors s = int n" "0 \<le> s_id s" "s_id s < 10" "\<And>v. v \<in> set (s_values s) \<Longrightarrow> ok_value W v"
    and "\<And>k inst. s_prep s k = Some inst \<Longrightarrow> s_acc s k = None"
    and "\<And>k inst. s_prep s k = Some inst \<Longrightarrow> in_order s k inst \<and> inst_wf n (s_id s) W inst"
    and "\<And>k inst. s_acc s k = Some inst \<Longrightarrow> in_order s k inst \<and> inst_wf n (s_id s) W inst \<and>
      uint (i_ballot inst) < 65536 \<and> (i_value inst \<noteq> None \<or> i_promised_value inst \<noteq> None)"
  shows "spec_inv n W s"
proof -
  have "dom (s_prep s) \<inter> dom (s_acc s) = {}" using assms(5) by fastforce
  moreover have "\<forall>k inst. s_prep s k = Some inst \<longrightarrow> i_iid inst = k \<and> 0 < k \<and> k \<le> s_next s \<and>
      inst_wf n (s_id s) W inst"
    using assms(6) by (simp add: in_order_def)
  moreover have "\<forall>k inst. s_acc s k = Some inst \<longrightarrow> i_iid inst = k \<and> 0 < k \<and> k \<le> s_next s \<and>
      inst_wf n (s_id s) W inst \<and> uint (i_ballot inst) < 65536 \<and>
      (i_value inst \<noteq> None \<or> i_promised_value inst \<noteq> None)"
    using assms(7) by (simp add: in_order_def)
  ultimately show ?thesis using assms(1-4) unfolding spec_inv_def by simp
qed

lemma spec_inv_base:
  assumes "spec_inv n W s"
  shows "s_acceptors s = int n" "0 \<le> s_id s" "s_id s < 10" "\<And>v. v \<in> set (s_values s) \<Longrightarrow> ok_value W v"
    "\<And>k inst. s_prep s k = Some inst \<Longrightarrow> in_order s k inst \<and> inst_wf n (s_id s) W inst \<and> s_acc s k = None"
    "\<And>k inst. s_acc s k = Some inst \<Longrightarrow> in_order s k inst \<and> inst_wf n (s_id s) W inst \<and>
      uint (i_ballot inst) < 65536 \<and> (i_value inst \<noteq> None \<or> i_promised_value inst \<noteq> None) \<and> s_prep s k = None"
proof -
  show "in_order s k inst \<and> inst_wf n (s_id s) W inst \<and> s_acc s k = None" if "s_prep s k = Some inst" for k inst
    using spec_invD_prep [OF assms that] by (simp add: in_order_def)
  show "in_order s k inst \<and> inst_wf n (s_id s) W inst \<and> uint (i_ballot inst) < 65536 \<and>
      (i_value inst \<noteq> None \<or> i_promised_value inst \<noteq> None) \<and> s_prep s k = None"
    if "s_acc s k = Some inst" for k inst
    using spec_invD_acc [OF assms that] by (simp add: in_order_def)
qed (use assms in \<open>simp_all add: spec_inv_def\<close>)

text \<open>Updating one prepared instance.\<close>

lemma spec_inv_upd_prep:
  assumes inv: "spec_inv n W s" and k: "k \<in> dom (s_prep s)"
    and inst: "i_iid inst = k" "inst_wf n (s_id s) W inst"
  shows "spec_inv n W (s\<lparr>s_prep := (s_prep s)(k \<mapsto> inst)\<rparr>)"
proof -
  obtain i0 where "s_prep s k = Some i0" using k by blast
  from spec_invD_prep [OF inv this] have "0 < k" "k \<le> s_next s" "s_acc s k = None" by blast+
  then show ?thesis using inv inst unfolding spec_inv_def by (auto simp: dom_def)
qed

lemma prop_safe_upd_prep:
  assumes safe: "prop_safe n W M s" and old: "s_prep s k = Some old"
    and inst: "i_iid inst = k" "inst_wf n (s_id s) W inst" "promised_ok M k inst" "i_ballot old \<le> i_ballot inst"
  shows "prop_safe n W M (s\<lparr>s_prep := (s_prep s)(k \<mapsto> inst)\<rparr>)"
proof (rule prop_safeI)
  have inv: "spec_inv n W s" using safe by (simp add: prop_safe_def)
  show "spec_inv n W (s\<lparr>s_prep := (s_prep s)(k \<mapsto> inst)\<rparr>)"
    using spec_inv_upd_prep [OF inv _ inst(1,2)] old by blast
next
  fix j i q
  assume "s_prep (s\<lparr>s_prep := (s_prep s)(k \<mapsto> inst)\<rparr>) j = Some i"
    and q: "own_accept M (s_id (s\<lparr>s_prep := (s_prep s)(k \<mapsto> inst)\<rparr>)) q" "iid q = j"
  then show "ucast (ballot q) < i_ballot i"
    using prop_safe_prep(2) [OF safe, of j _ q] old inst(4)
    by (auto split: if_splits intro: less_le_trans)
qed (use prop_safe_next [OF safe] prop_safe_prep(1) [OF safe] prop_safe_acc [OF safe] inst(3)
  in \<open>auto split: if_splits\<close>)

section \<open>Phase 1\<close>

lemma fresh_safe:
  assumes safe: "prop_safe n W M s" and nxt: "s_next s \<noteq> - 1"
  shows "prop_safe n W M (fst (spec_fresh s now))"
proof -
  let ?k = "s_next s + 1" and ?i = "fresh_inst s now"
  let ?s = "s\<lparr>s_next := ?k, s_prep := (s_prep s)(?k \<mapsto> ?i)\<rparr>"
  have inv: "spec_inv n W s" using safe by (simp add: prop_safe_def)
  have lt: "s_next s < ?k" using nxt by (rule word_less_plus_1)
  then have le: "k \<le> ?k" if "k \<le> s_next s" for k using that by simp
  note base = spec_inv_base [OF inv]
  have pos: "0 < ?k" using lt by (rule le_less_trans [OF word_zero_le])
  have prep: "in_order ?s k i \<and> inst_wf n (s_id s) W i \<and> k \<noteq> ?k" if "s_prep s k = Some i" for k i
    using base(5) [OF that] le [of k] lt by (auto simp: in_order_def)
  have acc: "in_order ?s k i \<and> inst_wf n (s_id s) W i \<and> uint (i_ballot i) < 65536 \<and>
      (i_value i \<noteq> None \<or> i_promised_value i \<noteq> None) \<and> k \<noteq> ?k" if "s_acc s k = Some i" for k i
    using base(6) [OF that] le [of k] lt by (auto simp: in_order_def)
  have wf: "inst_wf n (s_id s) W ?i"
    using first_ballot [OF base(2,3)] base(1) by (simp add: inst_wf_def fresh_inst_def)
  have "spec_inv n W ?s"
  proof (rule spec_invI)
    show "s_acc ?s k = None" if "s_prep ?s k = Some i" for k i
      using that acc [of k] base(5) [of k] by (cases "s_acc s k") (auto split: if_splits)
    show "in_order ?s k i \<and> inst_wf n (s_id ?s) W i" if "s_prep ?s k = Some i" for k i
      using that prep [of k i] wf pos by (auto simp: fresh_inst_def in_order_def split: if_splits)
  qed (use base acc in simp_all)
  moreover have no: "iid q \<noteq> ?k" if "own_accept M (s_id s) q" for q
    using prop_safe_next [OF safe that] lt by auto
  moreover have "promised_ok M ?k ?i" by (rule promised_ok_empty) (simp_all add: fresh_inst_def)
  ultimately have "prop_safe n W M ?s"
  proof (intro prop_safeI)
    show "iid q \<le> s_next ?s" if "own_accept M (s_id ?s) q" for q
      using prop_safe_next [OF safe] le that by simp
    show "ucast (ballot q) < i_ballot i" if "s_prep ?s k = Some i" "own_accept M (s_id ?s) q" "iid q = k" for k i q
      using that no [of q] prop_safe_prep(2) [OF safe] by (auto split: if_splits)
    show "promised_ok M k i" if "s_prep ?s k = Some i" for k i
      using that prop_safe_prep(1) [OF safe, of k i] \<open>promised_ok M ?k ?i\<close> by (auto split: if_splits)
  qed (use prop_safe_acc [OF safe] in simp_all)
  then show ?thesis by (simp add: spec_fresh_def)
qed

lemma promise_inst_fields [simp]:
  "i_iid (promise_inst inst ack) = i_iid inst" "i_ballot (promise_inst inst ack) = i_ballot inst"
  "i_value (promise_inst inst ack) = i_value inst"
  "i_quorum (promise_inst inst ack) = quorum_with (i_quorum inst) (unat (aid ack))"
  by (simp_all add: promise_inst_def Let_def)

text \<open>A vote that a promise reports is for a client value.\<close>

lemma promise_vote:
  assumes inv: "net_inv n W M" and ack: "PAXOS_PROMISE ack \<in> M"
  obtains (none) "value_ballot ack = 0" "paxos_value_len (pvalue ack) = 0"
  | (vote) q where "PAXOS_ACCEPT q \<in> M" "iid q = iid ack" "ballot q = value_ballot ack"
      "pvalue q = pvalue ack" "ok_value W (pvalue ack)"
proof (cases "voted M ack")
  case True
  then obtain r where r: "PAXOS_ACCEPTED r \<in> M" "iid r = iid ack" "ballot r = value_ballot ack" "pvalue r = pvalue ack"
    by (auto simp: voted_def)
  obtain q where "PAXOS_ACCEPT q \<in> M" "iid q = iid r" "ballot q = ballot r" "pvalue q = pvalue r"
    using inv r(1) by (rule net_inv_accepted)
  then show thesis using r vote [of q] net_inv_accept [OF inv, of q] by simp
next
  case False
  then show thesis
    using net_inv_promise [OF inv ack] none by (simp add: reports_def no_value_def)
qed

lemma promise_ballot_below:
  assumes inv: "net_inv n W M" and safe: "prop_safe n W M s" and ack: "PAXOS_PROMISE ack \<in> M"
    and inst: "s_prep s (iid ack) = Some inst" "ucast (ballot ack) = i_ballot inst"
  shows "value_ballot ack < ballot ack"
proof -
  have le: "value_ballot ack \<le> ballot ack" using net_inv_promise [OF inv ack] by (simp add: reports_def)
  have "inst_wf n (s_id s) W inst" using spec_inv_base(5) safe inst(1) unfolding prop_safe_def by blast
  then have own: "own_ballot (s_id s) (i_ballot inst)" by (simp add: inst_wf_def)
  then have u: "10 \<le> uint (ballot ack)" "uint (ballot ack) mod 10 = s_id s"
    unfolding own_ballot_def inst(2) [symmetric] by simp_all
  from inv ack show ?thesis
  proof (cases rule: promise_vote)
    case none
    then show ?thesis using u(1) by (simp add: word_less_alt)
  next
    case (vote q)
    have "value_ballot ack \<noteq> ballot ack"
    proof
      assume eq: "value_ballot ack = ballot ack"
      then have "own_accept M (s_id s) q" using vote u(2) by (simp add: own_accept_def)
      from prop_safe_prep(2) [OF safe inst(1) this vote(2)] show False using vote(3) eq inst(2) by simp
    qed
    then show ?thesis using le by simp
  qed
qed

lemma promise_inst_ok:
  assumes inv: "net_inv n W M" and safe: "prop_safe n W M s" and ack: "PAXOS_PROMISE ack \<in> M"
    and inst: "s_prep s (iid ack) = Some inst" "ucast (ballot ack) = i_ballot inst"
    and new: "unat (aid ack) \<notin> quorum_set (i_quorum inst)"
  shows "inst_wf n (s_id s) W (promise_inst inst ack)" "promised_ok M (iid ack) (promise_inst inst ack)"
proof -
  let ?j = "promise_inst inst ack" and ?a = "unat (aid ack)"
  define adopt where "adopt \<longleftrightarrow> paxos_value_len (pvalue ack) > 0 \<and> ucast (value_ballot ack) > i_value_ballot inst"
  have wf: "inst_wf n (s_id s) W inst" using spec_inv_base(5) safe inst(1) unfolding prop_safe_def by blast
  have aid: "?a < n" using net_inv_promise [OF inv ack] by blast
  have q: "quorum_inv n (i_quorum inst)" using wf by (simp add: inst_wf_def)
  note add = quorum_with_add(2,3) [OF q aid]
  have old: "promised_ok M (iid ack) inst" by (rule prop_safe_prep(1) [OF safe inst(1)])
  have val: "ok_value W (pvalue ack)" if adopt
    using inv ack by (cases rule: promise_vote) (use that in \<open>simp_all add: adopt_def\<close>)
  have j: "i_value_ballot ?j = (if adopt then ucast (value_ballot ack) else i_value_ballot inst)"
    "i_promised_value ?j = (if adopt then Some (pvalue ack) else i_promised_value inst)"
    using val ok_value_bytes by (auto simp: promise_inst_def Let_def adopt_def)
  have "uint (i_ballot inst) < 65536" unfolding inst(2) [symmetric] using uint_16_bound by simp
  then show "inst_wf n (s_id s) W ?j" using wf add val j(2) by (auto simp: inst_wf_def)
  have le: "ucast (value_ballot ack) \<le> i_value_ballot ?j" "i_value_ballot inst \<le> i_value_ballot ?j"
  proof -
    from inv ack show "ucast (value_ballot ack) \<le> i_value_ballot ?j"
      by (cases rule: promise_vote) (auto simp: j adopt_def ok_value_def)
    show "i_value_ballot inst \<le> i_value_ballot ?j" by (auto simp: j adopt_def)
  qed
  obtain P where P: "\<And>a. a \<in> quorum_set (i_quorum inst) \<Longrightarrow> PAXOS_PROMISE (P a) \<in> M \<and> iid (P a) = iid ack \<and>
      ucast (ballot (P a)) = i_ballot inst \<and> unat (aid (P a)) = a \<and> ucast (value_ballot (P a)) \<le> i_value_ballot inst"
    "case i_promised_value inst of None \<Rightarrow> i_value_ballot inst = 0
      | Some v \<Rightarrow> i_value_ballot inst < i_ballot inst \<and> (\<exists>a \<in> quorum_set (i_quorum inst).
          ucast (value_ballot (P a)) = i_value_ballot inst \<and> pvalue (P a) = v)"
    using old unfolding promised_ok_def by blast
  let ?P = "P(?a := ack)"
  have "\<forall>a \<in> quorum_set (i_quorum ?j). PAXOS_PROMISE (?P a) \<in> M \<and> iid (?P a) = iid ack \<and>
      ucast (ballot (?P a)) = i_ballot ?j \<and> unat (aid (?P a)) = a \<and> ucast (value_ballot (?P a)) \<le> i_value_ballot ?j"
    using ack inst(2) le(1) P(1) order_trans [OF _ le(2)] add(2) by auto
  moreover have "case i_promised_value ?j of None \<Rightarrow> i_value_ballot ?j = 0
    | Some v \<Rightarrow> i_value_ballot ?j < i_ballot ?j \<and> (\<exists>a \<in> quorum_set (i_quorum ?j).
        ucast (value_ballot (?P a)) = i_value_ballot ?j \<and> pvalue (?P a) = v)"
  proof (cases adopt)
    case True
    have "(ucast (value_ballot ack) :: ballot_t) < ucast (ballot ack)"
      using promise_ballot_below [OF inv safe ack inst] by simp
    then show ?thesis using True inst(2) add(2) by (auto simp: j)
  next
    case False
    have "?P a = P a" if "a \<in> quorum_set (i_quorum inst)" for a using that new by auto
    then show ?thesis using False P(2) add(2) by (cases "i_promised_value inst") (auto simp: j)
  qed
  ultimately show "promised_ok M (iid ack) ?j" unfolding promised_ok_def by blast
qed

lemma promise_safe:
  assumes inv: "net_inv n W M" and safe: "prop_safe n W M s" and ack: "PAXOS_PROMISE ack \<in> M"
  shows "prop_safe n W M (fst (spec_promise s ack now))"
proof (cases "s_prep s (iid ack)")
  case None
  then show ?thesis using safe by (simp add: spec_promise_def)
next
  case (Some inst)
  have base: "in_order s (iid ack) inst" "inst_wf n (s_id s) W inst"
    using spec_inv_base(5) safe Some unfolding prop_safe_def by blast+
  then have id: "i_iid inst = iid ack" by (simp add: in_order_def)
  consider (old) "ucast (ballot ack) < i_ballot inst" | (preempt) "i_ballot inst < ucast (ballot ack)"
    | (same) "ucast (ballot ack) = i_ballot inst" by (rule linorder_cases) auto
  then show ?thesis
  proof cases
    case old
    then show ?thesis using safe Some by (simp add: spec_promise_def)
  next
    case preempt
    let ?j = "preempt_inst (s_id s) inst now"
    note wf = preempt_inst_wf [OF base(2) preempt, of now]
    have "promised_ok M (iid ack) ?j" by (rule promised_ok_empty) simp_all
    then have "prop_safe n W M (s\<lparr>s_prep := (s_prep s)(iid ack \<mapsto> ?j)\<rparr>)"
      using wf id by (intro prop_safe_upd_prep [OF safe Some]) simp_all
    then show ?thesis using Some preempt safe by (simp add: spec_promise_def)
  next
    case same
    have "prop_safe n W M (s\<lparr>s_prep := (s_prep s)(iid ack \<mapsto> promise_inst inst ack)\<rparr>)"
      if "unat (aid ack) \<notin> quorum_set (i_quorum inst)"
      using promise_inst_ok [OF inv safe ack Some same that] id
      by (intro prop_safe_upd_prep [OF safe Some]) simp_all
    then show ?thesis using Some same safe by (simp add: spec_promise_def)
  qed
qed

section \<open>Phase 2\<close>

lemma accept_msg_fields:
  assumes "i_value inst \<noteq> None \<or> i_promised_value inst \<noteq> None"
  shows "iid (accept_msg inst) = i_iid inst" "ballot (accept_msg inst) = ucast (i_ballot inst)"
    "Some (pvalue (accept_msg inst)) =
      (case i_promised_value inst of Some v \<Rightarrow> Some v | None \<Rightarrow> i_value inst)"
  using assms
  by (auto simp: accept_msg_def instance_to_accept_def instance_has_promised_value_def split: option.splits)

lemma accept_msg_cong:
  "i_iid i = i_iid j \<Longrightarrow> i_ballot i = i_ballot j \<Longrightarrow> i_value i = i_value j \<Longrightarrow>
    i_promised_value i = i_promised_value j \<Longrightarrow> accept_msg i = accept_msg j"
  by (simp add: accept_msg_def instance_to_accept_def instance_has_promised_value_def)

lemma take_value_ok:
  assumes "spec_inv n W s" "inst_wf n (s_id s) W inst"
  shows "\<And>v. fst (take_value s inst) = Some v \<Longrightarrow> ok_value W v"
    and "set (snd (take_value s inst)) \<subseteq> set (s_values s)"
  using assms spec_inv_base(4) [OF assms(1)]
  by (auto simp: take_value_def inst_wf_def split: option.splits list.splits)

text \<open>The result of \<open>proposer_accept\<close> when it sends a request.\<close>

lemma spec_paccept_cases:
  assumes "finite (dom (s_prep s))"
  obtains (none) "spec_paccept s = (s, None)"
  | (some) k inst inst' where "s_prep s k = Some inst" "quorum_reached (i_quorum inst)"
      "inst' = inst\<lparr>i_value := fst (take_value s inst), i_quorum := quorum_clear (i_quorum inst)\<rparr>"
      "i_value inst' \<noteq> None \<or> i_promised_value inst' \<noteq> None"
      "spec_paccept s = (s\<lparr>s_values := snd (take_value s inst), s_prep := (s_prep s)(k := None),
        s_acc := (s_acc s)(k \<mapsto> inst')\<rparr>, Some (accept_msg inst'))"
      "k = Min (dom (s_prep s))"
proof (cases "dom (s_prep s) = {}")
  case True
  then show thesis using none by (simp add: spec_paccept_def)
next
  case False
  define k where "k = Min (dom (s_prep s))"
  define inst where "inst = the (s_prep s k)"
  define inst' where "inst' = inst\<lparr>i_value := fst (take_value s inst), i_quorum := quorum_clear (i_quorum inst)\<rparr>"
  show thesis
  proof (cases "\<not> quorum_reached (i_quorum inst) \<or> (fst (take_value s inst) = None \<and> i_promised_value inst = None)")
    case True
    then have "spec_paccept s = (s, None)"
      using False by (simp add: spec_paccept_def Let_def split_beta k_def inst_def)
    then show thesis by (rule none)
  next
    case ok: False
    then have "k \<in> dom (s_prep s)" using False Min_in [OF assms] unfolding k_def by blast
    then have "s_prep s k = Some inst" by (auto simp: inst_def)
    then show thesis
      using ok False
      by (intro some [of k inst inst'])
        (auto simp: spec_paccept_def Let_def split_beta inst'_def k_def inst_def)
  qed
qed

lemma quorum_reached_nonempty:
  assumes "quorum_inv n q" "quorum_reached q"
  shows "quorum_set q \<noteq> {}"
  using assms by (auto simp: quorum_reached_iff paxos_quorum_nat)

lemma prepared_safe:
  assumes safe: "prop_safe n W M s" and inst: "s_prep s k = Some inst" "quorum_reached (i_quorum inst)"
    and q: "iid q = k" "ballot q = ucast (i_ballot inst)"
      "\<And>v. i_promised_value inst = Some v \<Longrightarrow> pvalue q = v"
  shows "safe n M q"
proof -
  have wf: "inst_wf n (s_id s) W inst" using spec_inv_base(5) safe inst(1) unfolding prop_safe_def by blast
  then have qi: "quorum_inv n (i_quorum inst)" by (simp add: inst_wf_def)
  have ok: "promised_ok M k inst" by (rule prop_safe_prep(1) [OF safe inst(1)])
  have card: "paxos_quorum (int n) \<le> int (card (quorum_set (i_quorum inst)))"
    using inst(2) qi by (simp add: quorum_reached_iff)
  have ne: "quorum_set (i_quorum inst) \<noteq> {}" using qi inst(2) by (rule quorum_reached_nonempty)
  then have "uint (i_ballot inst) < 65536" using wf by (simp add: inst_wf_def)
  then have b: "(ucast (ballot q) :: ballot_t) = i_ballot inst" unfolding q(2) by (rule ucast_back)
  obtain P where P: "\<And>a. a \<in> quorum_set (i_quorum inst) \<Longrightarrow> PAXOS_PROMISE (P a) \<in> M \<and> iid (P a) = k \<and>
      ucast (ballot (P a)) = i_ballot inst \<and> unat (aid (P a)) = a \<and> ucast (value_ballot (P a)) \<le> i_value_ballot inst"
    "case i_promised_value inst of None \<Rightarrow> i_value_ballot inst = 0
      | Some v \<Rightarrow> i_value_ballot inst < i_ballot inst \<and> (\<exists>a \<in> quorum_set (i_quorum inst).
          ucast (value_ballot (P a)) = i_value_ballot inst \<and> pvalue (P a) = v)"
    using ok unfolding promised_ok_def by blast
  have bal: "ballot (P a) = ballot q" if "a \<in> quorum_set (i_quorum inst)" for a
    using P(1) [OF that] b by (metis ucast_16_32_eq_iff)
  have "(\<forall>a \<in> quorum_set (i_quorum inst). value_ballot (P a) = 0) \<or> (\<exists>a \<in> quorum_set (i_quorum inst).
      pvalue (P a) = pvalue q \<and> value_ballot (P a) < ballot q \<and>
      (\<forall>b \<in> quorum_set (i_quorum inst). value_ballot (P b) \<le> value_ballot (P a)))"
  proof (cases "i_promised_value inst")
    case None
    then have "value_ballot (P a) = 0" if "a \<in> quorum_set (i_quorum inst)" for a
      using P(1) [OF that] P(2) by (simp add: word_le_nat_alt unsigned_eq_0_iff)
    then show ?thesis by blast
  next
    case (Some v)
    then obtain a where a: "a \<in> quorum_set (i_quorum inst)" "ucast (value_ballot (P a)) = i_value_ballot inst"
      "i_value_ballot inst < i_ballot inst" "pvalue (P a) = v" using P(2) by auto
    have "value_ballot (P a) < ballot q" using a(2,3) b by (metis ucast_16_32_less_iff)
    moreover have "value_ballot (P c) \<le> value_ballot (P a)" if "c \<in> quorum_set (i_quorum inst)" for c
      using P(1) [OF that] a(2) by (metis ucast_16_32_le_iff)
    ultimately show ?thesis using a(1,4) q(3) Some by auto
  qed
  then show ?thesis
    unfolding safe_def using quorum_set_bound [OF qi] card P(1) bal q(1)
    by (intro exI [of _ "quorum_set (i_quorum inst)"] exI [of _ P]) simp
qed

lemma paccept_net_safe:
  assumes inv: "net_inv n W M" and safe: "prop_safe n W M s"
    and inst: "s_prep s k = Some inst" "quorum_reached (i_quorum inst)"
    and q: "iid q = k" "ballot q = ucast (i_ballot inst)" "ok_value W (pvalue q)"
      "\<And>v. i_promised_value inst = Some v \<Longrightarrow> pvalue q = v"
  shows "net_inv n W (insert (PAXOS_ACCEPT q) M)"
proof -
  let ?M = "insert (PAXOS_ACCEPT q) M"
  have sub: "M \<subseteq> ?M" by blast
  have wf: "inst_wf n (s_id s) W inst" using spec_inv_base(5) safe inst(1) unfolding prop_safe_def by blast
  then have own: "own_ballot (s_id s) (i_ballot inst)" and "uint (i_ballot inst) < 65536"
    using quorum_reached_nonempty inst(2) by (auto simp: inst_wf_def)
  then have b: "uint (ballot q) = uint (i_ballot inst)" "ucast (ballot q) = i_ballot inst"
    unfolding q(2) by (simp_all add: uint_ucast_32_16 ucast_back)
  have other: "\<not> (iid q' = iid q \<and> ballot q' = ballot q)" if "PAXOS_ACCEPT q' \<in> M" for q'
  proof
    assume eq: "iid q' = iid q \<and> ballot q' = ballot q"
    then have "own_accept M (s_id s) q'" using that own b(1) by (simp add: own_accept_def own_ballot_def)
    then show False using prop_safe_prep(2) [OF safe inst(1), of q'] eq q(1) b(2) by simp
  qed
  have "one_value ?M" using inv other unfolding net_inv_def one_value_def by (metis insert_iff paxos_message.inject(3))
  moreover have "safe n ?M q"
    using safe_mono [OF prepared_safe [OF safe inst q(1,2,4)] sub] .
  moreover have "0 < ballot q" using own b(1) by (simp add: word_less_alt own_ballot_def)
  ultimately have "one_value ?M" "accepts_inv n W ?M"
    using inv q(3) safe_mono [OF _ sub] unfolding net_inv_def accepts_inv_def by auto
  moreover have "votes_inv n ?M" using inv unfolding net_inv_def votes_inv_def by blast
  moreover have "promises_inv n ?M"
    using inv reports_mono [OF _ sub] unfolding net_inv_def promises_inv_def by blast
  ultimately show ?thesis by (simp add: net_inv_def)
qed

lemma paccept_safe:
  assumes inv: "net_inv n W M" and safe: "prop_safe n W M s" and fin: "finite (dom (s_prep s))"
    and step: "spec_paccept s = (s', Some q)"
  shows "net_inv n W (insert (PAXOS_ACCEPT q) M)" "prop_safe n W (insert (PAXOS_ACCEPT q) M) s'"
    "s_id s' = s_id s" "uint (ballot q) mod 10 = s_id s"
proof -
  obtain k inst inst' where i: "s_prep s k = Some inst" "quorum_reached (i_quorum inst)"
    "inst' = inst\<lparr>i_value := fst (take_value s inst), i_quorum := quorum_clear (i_quorum inst)\<rparr>"
    "i_value inst' \<noteq> None \<or> i_promised_value inst' \<noteq> None"
    "s' = s\<lparr>s_values := snd (take_value s inst), s_prep := (s_prep s)(k := None), s_acc := (s_acc s)(k \<mapsto> inst')\<rparr>"
    "q = accept_msg inst'"
    using fin step by (cases rule: spec_paccept_cases) auto
  let ?M = "insert (PAXOS_ACCEPT q) M"
  have sub: "M \<subseteq> ?M" by blast
  have sinv: "spec_inv n W s" using safe by (simp add: prop_safe_def)
  note base = spec_inv_base [OF sinv]
  have wf: "inst_wf n (s_id s) W inst" "in_order s k inst" "s_acc s k = None" using base(5) [OF i(1)] by simp_all
  note tv = take_value_ok [OF sinv wf(1)]
  have ub: "uint (i_ballot inst) < 65536" and own: "own_ballot (s_id s) (i_ballot inst)"
    using wf(1) quorum_reached_nonempty i(2) by (auto simp: inst_wf_def)
  have wf': "inst_wf n (s_id s) W inst'" "in_order s k inst'" "i_ballot inst' = i_ballot inst"
    "i_promised_value inst' = i_promised_value inst"
    using wf tv(1) by (auto simp: i(3) inst_wf_def in_order_def quorum_clear_inv)
  note q = accept_msg_fields [OF i(4), folded i(6)]
  have pv: "\<And>v. i_promised_value inst = Some v \<Longrightarrow> pvalue q = v" using q(3) wf'(4) by simp
  have ok: "ok_value W (pvalue q)"
    using q(3) wf'(1) by (auto simp: inst_wf_def split: option.splits)
  have qk: "iid q = k" "ballot q = ucast (i_ballot inst)" using q wf' by (simp_all add: in_order_def)
  show "net_inv n W ?M" using inv safe i(1,2) qk ok pv by (rule paccept_net_safe)
  show sid: "s_id s' = s_id s" by (simp add: i(5))
  have b: "uint (ballot q) = uint (i_ballot inst)" "ucast (ballot q) = i_ballot inst"
    unfolding qk(2) using ub by (simp_all add: uint_ucast_32_16 ucast_back)
  show "uint (ballot q) mod 10 = s_id s" using b own by (simp add: own_ballot_def)
  have own_q: "own_accept ?M (s_id s) p \<Longrightarrow> own_accept M (s_id s) p \<or> p = q" for p
    by (auto simp: own_accept_def)
  show "prop_safe n W ?M s'"
  proof (rule prop_safeI)
    show "spec_inv n W s'"
    proof (rule spec_invI)
      show "ok_value W v" if "v \<in> set (s_values s')" for v using that tv(2) base(4) by (auto simp: i(5))
      show "s_acc s' j = None" if "s_prep s' j = Some x" for j x
        using that base(5) [of j x] by (auto simp: i(5) split: if_splits)
      show "in_order s' j x \<and> inst_wf n (s_id s') W x" if "s_prep s' j = Some x" for j x
        using that base(5) [of j x] by (auto simp: i(5) in_order_def split: if_splits)
      show "in_order s' j x \<and> inst_wf n (s_id s') W x \<and> uint (i_ballot x) < 65536 \<and>
          (i_value x \<noteq> None \<or> i_promised_value x \<noteq> None)" if "s_acc s' j = Some x" for j x
        using that base(6) [of j x] wf' ub i(4) by (auto simp: i(5) in_order_def split: if_splits)
    qed (use base in \<open>simp_all add: i(5)\<close>)
  next
    fix p
    assume "own_accept ?M (s_id s') p"
    then show "iid p \<le> s_next s'"
      using own_q [of p] prop_safe_next [OF safe, of p] wf(2) qk(1) by (auto simp: sid i(5) in_order_def)
  next
    fix j x
    assume "s_prep s' j = Some x"
    then have x: "s_prep s j = Some x" "j \<noteq> k" by (auto simp: i(5) split: if_splits)
    show "promised_ok ?M j x" by (rule promised_ok_mono [OF prop_safe_prep(1) [OF safe x(1)] sub])
    show "ucast (ballot p) < i_ballot x" if "own_accept ?M (s_id s') p" "iid p = j" for p
      using that own_q [of p] prop_safe_prep(2) [OF safe x(1), of p] x(2) qk(1) by (auto simp: sid)
  next
    fix j x
    assume x: "s_acc s' j = Some x"
    show "PAXOS_ACCEPT (accept_msg x) \<in> ?M"
      using x prop_safe_acc(1) [OF safe, of j x] i(6) by (auto simp: i(5) split: if_splits)
    show "ucast (ballot p) \<le> i_ballot x" if "own_accept ?M (s_id s') p" "iid p = j" for p
      using that own_q [of p] x prop_safe_acc(2) [OF safe, of j x p] prop_safe_prep(2) [OF safe i(1), of p]
        qk(1) b(2) wf'(3)
      by (auto simp: sid i(5) less_imp_le split: if_splits)
  qed
qed

section \<open>The other operations\<close>

text \<open>Dropping instances and keeping or adding client values.\<close>

lemma prop_safe_drop:
  assumes safe: "prop_safe n W M s"
    and fields: "s_acceptors s' = s_acceptors s" "s_id s' = s_id s" "s_next s \<le> s_next s'"
    and vals: "\<And>v. v \<in> set (s_values s') \<Longrightarrow> ok_value W v"
    and prep: "\<And>k i. s_prep s' k = Some i \<Longrightarrow> s_prep s k = Some i"
    and acc: "\<And>k i. s_acc s' k = Some i \<Longrightarrow> s_acc s k = Some i"
  shows "prop_safe n W M s'"
proof (rule prop_safeI)
  have inv: "spec_inv n W s" using safe by (simp add: prop_safe_def)
  note base = spec_inv_base [OF inv]
  have ord: "in_order s' k i" if "in_order s k i" for k i
    using that fields(3) by (auto simp: in_order_def intro: order_trans)
  show "spec_inv n W s'"
  proof (rule spec_invI)
    show "s_acc s' k = None" if "s_prep s' k = Some i" for k i
      using base(5) [OF prep [OF that]] acc [of k] by (cases "s_acc s' k") auto
    show "in_order s' k i \<and> inst_wf n (s_id s') W i" if "s_prep s' k = Some i" for k i
      using base(5) [OF prep [OF that]] ord fields(2) by simp
    show "in_order s' k i \<and> inst_wf n (s_id s') W i \<and> uint (i_ballot i) < 65536 \<and>
        (i_value i \<noteq> None \<or> i_promised_value i \<noteq> None)" if "s_acc s' k = Some i" for k i
      using base(6) [OF acc [OF that]] ord fields(2) by simp
  qed (use base fields vals in simp_all)
  show "iid q \<le> s_next s'" if "own_accept M (s_id s') q" for q
    using prop_safe_next [OF safe, of q] that fields(2,3) by (auto intro: order_trans)
qed (use fields(2) prop_safe_prep [OF safe prep] prop_safe_acc [OF safe acc] in simp_all)

lemma prop_safe_upd_acc:
  assumes safe: "prop_safe n W M s" and old: "s_acc s k = Some old"
    and inst: "accept_msg inst = accept_msg old" "i_iid inst = i_iid old" "i_ballot inst = i_ballot old"
      "i_value inst = i_value old" "i_promised_value inst = i_promised_value old"
      "inst_wf n (s_id s) W inst"
  shows "prop_safe n W M (s\<lparr>s_acc := (s_acc s)(k \<mapsto> inst)\<rparr>)"
proof (rule prop_safeI)
  let ?s = "s\<lparr>s_acc := (s_acc s)(k \<mapsto> inst)\<rparr>"
  have inv: "spec_inv n W s" using safe by (simp add: prop_safe_def)
  note base = spec_inv_base [OF inv]
  show "spec_inv n W ?s"
  proof (rule spec_invI)
    show "s_acc ?s j = None" if "s_prep ?s j = Some i" for j i
      using that base(5) [of j i] base(6) [OF old] by auto
    show "in_order ?s j i \<and> inst_wf n (s_id ?s) W i" if "s_prep ?s j = Some i" for j i
      using that base(5) [of j i] by (simp add: in_order_def)
    show "in_order ?s j i \<and> inst_wf n (s_id ?s) W i \<and> uint (i_ballot i) < 65536 \<and>
        (i_value i \<noteq> None \<or> i_promised_value i \<noteq> None)" if "s_acc ?s j = Some i" for j i
      using that base(6) [of j i] base(6) [OF old] inst by (auto simp: in_order_def split: if_splits)
  qed (use base in simp_all)
qed (use prop_safe_next [OF safe] prop_safe_prep [OF safe] prop_safe_acc [OF safe] prop_safe_acc [OF safe old]
  inst old in \<open>auto split: if_splits\<close>)

lemma touch_safe:
  assumes safe: "prop_safe n W M s"
  shows "s_prep s k = Some inst \<Longrightarrow> prop_safe n W M (s\<lparr>s_prep := (s_prep s)(k \<mapsto> touch t inst)\<rparr>)"
    and "s_acc s k = Some inst \<Longrightarrow> prop_safe n W M (s\<lparr>s_acc := (s_acc s)(k \<mapsto> touch t inst)\<rparr>)"
proof -
  have inv: "spec_inv n W s" using safe by (simp add: prop_safe_def)
  note base = spec_inv_base [OF inv]
  have wf: "inst_wf n i W (touch t inst) = inst_wf n i W inst" "promised_ok M k (touch t inst) = promised_ok M k inst" for i
    by (simp_all add: inst_wf_def promised_ok_def touch_def cong: option.case_cong)
  have msg: "accept_msg (touch t inst) = accept_msg inst" by (rule accept_msg_cong) (simp_all add: touch_def)
  show "prop_safe n W M (s\<lparr>s_prep := (s_prep s)(k \<mapsto> touch t inst)\<rparr>)" if "s_prep s k = Some inst"
    by (rule prop_safe_upd_prep [OF safe that])
      (use base(5) [OF that] prop_safe_prep(1) [OF safe that] in \<open>simp_all add: wf in_order_def\<close>,
       simp_all add: touch_def)
  show "prop_safe n W M (s\<lparr>s_acc := (s_acc s)(k \<mapsto> touch t inst)\<rparr>)" if "s_acc s k = Some inst"
    by (rule prop_safe_upd_acc [OF safe that msg]) (use base(6) [OF that] in \<open>simp_all add: wf\<close>, simp_all add: touch_def)
qed

lemma accepted_safe:
  assumes safe: "prop_safe n W M s" and aid: "unat (aid ack) < n"
  shows "prop_safe n W M (fst (spec_accepted s ack))"
proof (cases "s_acc s (iid ack)")
  case None
  then show ?thesis using safe by (simp add: spec_accepted_def)
next
  case (Some inst)
  have inv: "spec_inv n W s" using safe by (simp add: prop_safe_def)
  note base = spec_inv_base [OF inv]
  have wf: "inst_wf n (s_id s) W inst" "uint (i_ballot inst) < 65536" using base(6) [OF Some] by simp_all
  let ?q = "quorum_with (i_quorum inst) (unat (aid ack))"
  have q: "quorum_inv n ?q" using quorum_with_add(2) [OF _ aid] wf(1) by (simp add: inst_wf_def)
  have ret: "ok_value W v" if "v \<in> set (returned_value inst)" for v
    using that wf(1) by (auto simp: returned_value_def inst_wf_def split: option.splits if_splits)
  have "prop_safe n W M (s\<lparr>s_acc := (s_acc s)(iid ack \<mapsto> inst\<lparr>i_quorum := ?q\<rparr>)\<rparr>)"
    by (rule prop_safe_upd_acc [OF safe Some])
      (use wf q in \<open>simp_all add: inst_wf_def accept_msg_def instance_to_accept_def instance_has_promised_value_def\<close>)
  moreover have "prop_safe n W M (s\<lparr>s_values := s_values s @ returned_value inst, s_acc := (s_acc s)(iid ack := None)\<rparr>)"
    by (rule prop_safe_drop [OF safe]) (use base(4) ret in \<open>auto split: if_splits\<close>)
  ultimately show ?thesis using safe Some by (simp add: spec_accepted_def Let_def)
qed

lemma preempted_safe:
  assumes safe: "prop_safe n W M s"
  shows "prop_safe n W M (fst (spec_preempted s ack now))"
proof (cases "\<exists>inst. s_acc s (iid ack) = Some inst \<and> i_ballot inst < ucast (ballot ack)")
  case False
  then show ?thesis using safe by (cases "s_acc s (iid ack)") (auto simp: spec_preempted_def)
next
  case True
  then obtain inst where Some: "s_acc s (iid ack) = Some inst" and lt: "i_ballot inst < ucast (ballot ack)" by blast
  let ?k = "iid ack" and ?i = "preempt_inst (s_id s) inst now"
  let ?s = "s\<lparr>s_acc := (s_acc s)(?k := None), s_prep := (s_prep s)(?k \<mapsto> ?i)\<rparr>"
  have inv: "spec_inv n W s" using safe by (simp add: prop_safe_def)
  note base = spec_inv_base [OF inv]
  have wf: "inst_wf n (s_id s) W inst" "in_order s ?k inst" using base(6) [OF Some] by simp_all
  note wf' = preempt_inst_wf [OF wf(1) lt, of now]
  have "prop_safe n W M ?s"
  proof (rule prop_safeI)
    show "spec_inv n W ?s"
    proof (rule spec_invI)
      show "s_acc ?s j = None" if "s_prep ?s j = Some i" for j i
        using that base(5) [of j i] by (auto split: if_splits)
      show "in_order ?s j i \<and> inst_wf n (s_id ?s) W i" if "s_prep ?s j = Some i" for j i
        using that base(5) [of j i] wf wf' by (auto simp: in_order_def split: if_splits)
      show "in_order ?s j i \<and> inst_wf n (s_id ?s) W i \<and> uint (i_ballot i) < 65536 \<and>
          (i_value i \<noteq> None \<or> i_promised_value i \<noteq> None)" if "s_acc ?s j = Some i" for j i
        using that base(6) [of j i] by (auto simp: in_order_def split: if_splits)
    qed (use base in simp_all)
    show "promised_ok M j i" if "s_prep ?s j = Some i" for j i
      using that prop_safe_prep(1) [OF safe, of j i] promised_ok_empty [of ?i M ?k] by (auto split: if_splits)
    show "ucast (ballot q) < i_ballot i" if "s_prep ?s j = Some i" "own_accept M (s_id ?s) q" "iid q = j" for j i q
      using that prop_safe_prep(2) [OF safe, of j i q] le_less_trans [OF prop_safe_acc(2) [OF safe Some, of q] wf'(2)]
      by (auto split: if_splits)
  qed (use prop_safe_next [OF safe] prop_safe_acc [OF safe] in \<open>auto split: if_splits\<close>)
  then show ?thesis using Some lt by (simp add: spec_preempted_def)
qed

lemma set_id_safe:
  assumes safe: "prop_safe n W M s" and step: "spec_set_id s i s'"
  shows "prop_safe n W M s'"
proof (cases "s_next s < i")
  case False
  then show ?thesis using assms by (simp add: spec_set_id_def)
next
  case True
  then obtain xs where xs: "mset xs = trimmed_values i (s_prep s) + trimmed_values i (s_acc s)"
    "s' = s\<lparr>s_next := i, s_values := s_values s @ xs, s_prep := s_prep s |` {k. i < k}, s_acc := s_acc s |` {k. i < k}\<rparr>"
    using step by (auto simp: spec_set_id_def)
  have inv: "spec_inv n W s" using safe by (simp add: prop_safe_def)
  note base = spec_inv_base [OF inv]
  have "set xs = set_mset (trimmed_values i (s_prep s) + trimmed_values i (s_acc s))" by (simp flip: xs(1))
  then have "ok_value W v" if "v \<in> set xs" for v
    using that base(5,6) unfolding set_mset_union trimmed_values_set inst_wf_def by blast
  then show ?thesis
    by (intro prop_safe_drop [OF safe]) (use True base(4) xs(2) in \<open>auto simp: restrict_map_def split: if_splits\<close>)
qed

lemma max_trim_safe: "prop_safe n W M s \<Longrightarrow> prop_safe n W M (s\<lparr>s_max_trim := i\<rparr>)"
  by (rule prop_safe_drop) (auto simp: prop_safe_def spec_inv_def)

lemma propose_safe:
  assumes "prop_safe n W M s" "ok_value W v"
  shows "prop_safe n W M (s\<lparr>s_values := s_values s @ [v]\<rparr>)"
  using assms by (intro prop_safe_drop [OF assms(1)]) (auto simp: prop_safe_def spec_inv_def)

end
