(* ===== verification/Evproposer_Safety.thy ===== *)
theory Evproposer_Safety
  imports Evpaxos Proposer_Safety
begin

text \<open>
  The handlers of \<open>evproposer.c\<close> as steps of the protocol. Under the bounds on the containers a
  handler returns, so its loops end; the messages it sends keep the invariant of the messages,
  its new state the invariant of the proposer, and it sends only prepare requests and accept
  requests with ballots of its own.
\<close>

section \<open>Steps of one proposer\<close>

definition msgs :: "sends \<Rightarrow> net" where
  "msgs out = snd ` set out"

lemma msgs_simps [simp]:
  "msgs [] = {}" "msgs (x # xs) = insert (snd x) (msgs xs)" "msgs (xs @ ys) = msgs xs \<union> msgs ys"
  by (auto simp: msgs_def)

fun prop_msg :: "int \<Rightarrow> paxos_message \<Rightarrow> bool" where
  "prop_msg i (PAXOS_PREPARE _) \<longleftrightarrow> True"
| "prop_msg i (PAXOS_ACCEPT q) \<longleftrightarrow> uint (ballot q) mod 10 = i"
| "prop_msg i _ \<longleftrightarrow> False"

definition prop_ok :: "nat \<Rightarrow> byte list set \<Rightarrow> net \<Rightarrow> proposer \<Rightarrow> bool" where
  "prop_ok n W M p \<longleftrightarrow> net_inv n W M \<and> prop_repr p \<and> prop_safe n W M (prop_abs p)"

definition prop_step :: "nat \<Rightarrow> byte list set \<Rightarrow> net \<Rightarrow> proposer \<Rightarrow> sends \<Rightarrow> proposer \<Rightarrow> bool" where
  "prop_step n W M p out p' \<longleftrightarrow> prop_ok n W (M \<union> msgs out) p' \<and> p_id p' = p_id p \<and>
     (\<forall>m \<in> msgs out. prop_msg (p_id p) m)"

abbreviation pload :: "proposer \<Rightarrow> nat" where
  "pload p \<equiv> prop_load (prop_abs p)"

lemma prop_ok_inv: "prop_ok n W M p \<Longrightarrow> spec_inv n W (prop_abs p)"
  by (simp add: prop_ok_def prop_safe_def)

lemma prop_step_trans:
  assumes "prop_step n W M p out p'" "prop_step n W (M \<union> msgs out) p' out' p''"
  shows "prop_step n W M p (out @ out') p''"
  using assms unfolding prop_step_def by (auto simp: Un_assoc)

lemma prop_step_silent:
  assumes "prop_ok n W M p" "prop_repr p'" "prop_safe n W M (prop_abs p')" "p_id p' = p_id p"
  shows "prop_step n W M p [] p'"
  using assms by (simp add: prop_step_def prop_ok_def)

lemma own_accept_inert: "inert m \<Longrightarrow> own_accept (insert m M) i q \<longleftrightarrow> own_accept M i q"
  by (auto simp: own_accept_def)

lemma prop_step_inert:
  assumes ok: "prop_ok n W M p" and new: "prop_repr p'" "prop_safe n W M (prop_abs p')" "p_id p' = p_id p"
    and m: "inert m" "prop_msg (p_id p) m"
  shows "prop_step n W M p [(d, m)] p'"
proof -
  have "net_inv n W (insert m M)" using ok m(1) by (simp add: prop_ok_def net_inv_inert)
  moreover have "prop_safe n W (insert m M) (prop_abs p')"
    by (rule prop_safe_mono [OF new(2)]) (use m(1) in \<open>auto simp: own_accept_inert\<close>)
  ultimately show ?thesis using new m by (simp add: prop_step_def prop_ok_def)
qed

lemma prop_abs_finite [simp]: "finite (dom (s_prep (prop_abs p)))" "finite (dom (s_acc (prop_abs p)))"
  by (simp_all add: finite_dom_kh_map)

section \<open>Accepting\<close>

lemma card_dom_remove: "finite (dom m) \<Longrightarrow> k \<in> dom m \<Longrightarrow> card (dom (m(k := None))) = card (dom m) - 1"
  by simp

lemma card_dom_add: "finite (dom m) \<Longrightarrow> card (dom (m(k \<mapsto> v))) \<le> Suc (card (dom m))"
  by (simp add: card_insert_if)

lemma take_value_length: "length (snd (take_value s inst)) \<le> length (s_values s)"
  by (simp add: take_value_def split: option.splits list.splits)

text \<open>One call of \<open>proposer_accept\<close>: no request, or one, and then fewer prepared instances.\<close>

lemma proposer_accept_step:
  assumes ok: "prop_ok n W M p" and room: "prop_room p"
  obtains (idle) p' where "proposer_accept p = Some (p', None)" "prop_step n W M p [] p'" "prop_abs p' = prop_abs p"
      "spec_paccept (prop_abs p) = (prop_abs p, None)"
  | (accept) p' q where "proposer_accept p = Some (p', Some q)"
      "prop_step n W M p [(ToAcceptors, PAXOS_ACCEPT q)] p'" "pload p' \<le> pload p"
      "p_next_prepare_iid p' = p_next_prepare_iid p"
      "card (dom (s_prep (prop_abs p'))) < card (dom (s_prep (prop_abs p)))"
proof -
  have repr: "prop_repr p" and safe: "prop_safe n W M (prop_abs p)" and inv: "net_inv n W M"
    using ok by (simp_all add: prop_ok_def)
  let ?s = "prop_abs p"
  obtain s' res where spec: "spec_paccept ?s = (s', res)" by fastforce
  from proposer_accept_refines [OF repr room prop_ok_inv [OF ok]] spec
  obtain p' where p': "proposer_accept p = Some (p', res)" "prop_repr p'" "prop_abs p' = s'"
    by (auto simp: refines_def)
  have "finite (dom (s_prep ?s))" by simp
  then show thesis
  proof (cases rule: spec_paccept_cases)
    case none
    then have "res = None" "prop_abs p' = ?s" using spec p'(3) by simp_all
    then have "prop_step n W M p [] p'"
      using p' safe by (intro prop_step_silent [OF ok]) (metis prop_abs_simps(1))+
    then show thesis using idle p'(1) \<open>res = None\<close> \<open>prop_abs p' = ?s\<close> none by blast
  next
    case (some k inst inst')
    then have res: "res = Some (accept_msg inst')" using spec by simp
    note step = paccept_safe [OF inv safe _ spec [unfolded res]]
    have id: "p_id p' = p_id p" using step(3) p'(3) by (metis prop_abs_finite(1) prop_abs_simps(1))
    have stp: "prop_step n W M p [(ToAcceptors, PAXOS_ACCEPT (accept_msg inst'))] p'"
      using step(1,2,4) p'(2,3) id by (simp add: prop_step_def prop_ok_def)
    have s': "s' = ?s\<lparr>s_values := snd (take_value ?s inst), s_prep := (s_prep ?s)(k := None),
        s_acc := (s_acc ?s)(k \<mapsto> inst')\<rparr>" using spec some(5) by simp
    have k: "k \<in> dom (s_prep ?s)" using some(1) by blast
    then have pos: "0 < card (dom (s_prep ?s))" by (auto simp: card_gt_0_iff simp del: prop_abs_simps)
    have prep: "card (dom (s_prep s')) = card (dom (s_prep ?s)) - 1"
      using card_dom_remove [OF prop_abs_finite(1) k] by (simp add: s' del: prop_abs_simps)
    moreover have "card (dom (s_acc s')) \<le> Suc (card (dom (s_acc ?s)))"
      using card_dom_add [OF prop_abs_finite(2)] by (simp add: s' del: prop_abs_simps)
    moreover have "length (s_values s') \<le> length (s_values ?s)"
      using take_value_length by (simp add: s' del: prop_abs_simps)
    ultimately have "prop_load s' \<le> prop_load ?s" using pos by (simp add: prop_load_def del: prop_abs_simps)
    moreover have "p_next_prepare_iid p' = p_next_prepare_iid p" using arg_cong [OF p'(3), of s_next] by (simp add: s')
    moreover have "card (dom (s_prep (prop_abs p'))) < card (dom (s_prep ?s))"
      using prep pos unfolding p'(3) by simp
    ultimately show thesis using accept [of p' "accept_msg inst'"] p'(1,3) res stp by simp
  qed
qed

lemma prop_room_load: "prop_room p \<Longrightarrow> pload p' \<le> pload p \<Longrightarrow> prop_room p'"
  by (simp add: prop_room_def)

text \<open>The loop of \<open>try_accept\<close> ends, and only when no further request can be made.\<close>

lemma try_accept_loop_step:
  assumes "prop_ok n W M p" "prop_room p"
  shows "\<exists>p' out'. try_accept_loop p out = Some (p', out @ out') \<and> prop_step n W M p out' p' \<and>
    pload p' \<le> pload p \<and> p_next_prepare_iid p' = p_next_prepare_iid p \<and>
    spec_paccept (prop_abs p') = (prop_abs p', None)"
  using assms
proof (induction "card (dom (s_prep (prop_abs p)))" arbitrary: p M out rule: less_induct)
  case less
  from less.prems show ?case
  proof (cases rule: proposer_accept_step)
    case (idle p')
    have "try_accept_loop p out = Some (p', out)"
      using idle(1) by (subst try_accept_loop.simps) simp
    moreover have "p_next_prepare_iid p' = p_next_prepare_iid p" using idle(3) by (metis prop_abs_simps(5))
    ultimately show ?thesis using idle by (intro exI [of _ p'] exI [of _ "[]"]) simp
  next
    case (accept p' q)
    let ?o = "[(ToAcceptors, PAXOS_ACCEPT q)]"
    have "prop_ok n W (M \<union> msgs ?o) p'" "prop_room p'"
      using accept(2,3) less.prems(2) by (simp_all add: prop_step_def prop_room_load)
    from less.hyps [OF accept(5) this, of "out @ ?o"]
    obtain p'' out' where r: "try_accept_loop p' (out @ ?o) = Some (p'', (out @ ?o) @ out')"
      "prop_step n W (M \<union> msgs ?o) p' out' p''" "pload p'' \<le> pload p'"
      "p_next_prepare_iid p'' = p_next_prepare_iid p'" "spec_paccept (prop_abs p'') = (prop_abs p'', None)"
      by blast
    have "try_accept_loop p out = Some (p'', out @ ?o @ out')"
      using accept(1) r(1) by (subst try_accept_loop.simps) simp
    then show ?thesis
      using prop_step_trans [OF accept(2) r(2)] r(3-5) accept(3,4) by (intro exI [of _ p''] exI [of _ "?o @ out'"]) simp
  qed
qed

section \<open>Pre-executing phase 1\<close>

lemma proposer_prepare_step:
  assumes ok: "prop_ok n W M p" and room: "prop_room p" and nxt: "unat (p_next_prepare_iid p) < 2 ^ 32 - 1"
  obtains p' pr where "proposer_prepare p now = Some (p', pr)"
    "prop_step n W M p [(ToAcceptors, PAXOS_PREPARE pr)] p'" "pload p' \<le> Suc (pload p)"
    "unat (p_next_prepare_iid p') = Suc (unat (p_next_prepare_iid p))"
proof -
  let ?s = "prop_abs p"
  have ne: "p_next_prepare_iid p \<noteq> - 1"
  proof
    assume "p_next_prepare_iid p = - 1"
    then show False using nxt by (simp add: unsigned_minus_1_eq_mask mask_eq_exp_minus_1)
  qed
  have repr: "prop_repr p" and safe: "prop_safe n W M ?s" using ok by (simp_all add: prop_ok_def)
  from proposer_prepare_refines [OF repr room prop_ok_inv [OF ok] ne, of now]
  obtain p' where p': "proposer_prepare p now = Some (p', snd (spec_fresh ?s now))" "prop_repr p'"
    "prop_abs p' = fst (spec_fresh ?s now)"
    by (auto simp: refines_def spec_fresh_def)
  have id: "p_id p' = p_id p" and nx: "p_next_prepare_iid p' = p_next_prepare_iid p + 1"
    using arg_cong [OF p'(3), of s_id] arg_cong [OF p'(3), of s_next] by (simp_all add: spec_fresh_def)
  have "prop_step n W M p [(ToAcceptors, PAXOS_PREPARE (snd (spec_fresh ?s now)))] p'"
    using fresh_safe [OF safe, of now] ne p'(2,3) id by (intro prop_step_inert [OF ok]) simp_all
  moreover have "pload p' \<le> Suc (pload p)"
    using card_dom_add [OF prop_abs_finite(1)] unfolding p'(3)
    by (simp add: prop_load_def spec_fresh_def del: prop_abs_simps)
  moreover have "unat (p_next_prepare_iid p') = Suc (unat (p_next_prepare_iid p))"
  proof -
    have "p_next_prepare_iid p + 1 \<noteq> 0" using ne by (metis add_eq_0_iff2)
    then show ?thesis by (simp add: nx unatSuc [of "p_next_prepare_iid p"] add.commute)
  qed
  ultimately show thesis using p'(1) that by blast
qed

lemma preexecute_loop_step:
  assumes "prop_ok n W M p" "pload p + c < 2 ^ 29" "unat (p_next_prepare_iid p) + c < 2 ^ 32"
  shows "\<exists>p' out'. proposer_preexecute_loop c now p out = Some (p', out @ out') \<and> prop_step n W M p out' p' \<and>
    length out' = c \<and> pload p' \<le> pload p + c"
  using assms
proof (induction c arbitrary: M now p out)
  case 0
  then show ?case by (auto simp: prop_step_def)
next
  case (Suc c)
  have "prop_room p" "unat (p_next_prepare_iid p) < 2 ^ 32 - 1" using Suc.prems(2,3) by (simp_all add: prop_room_def)
  with Suc.prems(1) obtain p' pr where p': "proposer_prepare p (now 0) = Some (p', pr)"
    "prop_step n W M p [(ToAcceptors, PAXOS_PREPARE pr)] p'" "pload p' \<le> Suc (pload p)"
    "unat (p_next_prepare_iid p') = Suc (unat (p_next_prepare_iid p))" by (rule proposer_prepare_step)
  let ?o = "[(ToAcceptors, PAXOS_PREPARE pr)]"
  have "prop_ok n W (M \<union> msgs ?o) p'" using p'(2) by (simp add: prop_step_def)
  moreover have "pload p' + c < 2 ^ 29" "unat (p_next_prepare_iid p') + c < 2 ^ 32"
    using Suc.prems(2,3) p'(3,4) by linarith+
  ultimately obtain p'' out' where r: "proposer_preexecute_loop c (\<lambda>i. now (Suc i)) p' (out @ ?o) = Some (p'', (out @ ?o) @ out')"
    "prop_step n W (M \<union> msgs ?o) p' out' p''" "length out' = c" "pload p'' \<le> pload p' + c"
    using Suc.IH [of "M \<union> msgs ?o" p' "\<lambda>i. now (Suc i)" "out @ ?o"] by blast
  then show ?case using p'(1,3) prop_step_trans [OF p'(2) r(2)]
    by (intro exI [of _ p''] exI [of _ "?o @ out'"]) simp
qed

section \<open>The handlers\<close>

text \<open>
  The bounds under which a handler runs: room for the window and one more value in the
  containers, and enough instance identifiers left for the window.
\<close>

definition evprop_room :: "evproposer \<Rightarrow> bool" where
  "evprop_room p \<longleftrightarrow> pload (ep_state p) + nat (ep_preexec_window p) + 1 < 2 ^ 29 \<and>
     unat (p_next_prepare_iid (ep_state p)) + nat (ep_preexec_window p) < 2 ^ 32"

definition evprop_step :: "nat \<Rightarrow> byte list set \<Rightarrow> net \<Rightarrow> evproposer \<Rightarrow> (evproposer \<times> sends) option \<Rightarrow> bool" where
  "evprop_step n W M p res \<longleftrightarrow> (\<exists>p' out. res = Some (p', out) \<and>
     prop_step n W M (ep_state p) out (ep_state p') \<and> ep_preexec_window p' = ep_preexec_window p)"

lemma evprop_stepI:
  "res = Some (p', out) \<Longrightarrow> prop_step n W M (ep_state p) out (ep_state p') \<Longrightarrow>
    ep_preexec_window p' = ep_preexec_window p \<Longrightarrow> evprop_step n W M p res"
  by (auto simp: evprop_step_def)

lemma preexecute_step:
  assumes ok: "prop_ok n W M (ep_state p)"
    and room: "pload (ep_state p) + nat (ep_preexec_window p) < 2 ^ 29"
      "unat (p_next_prepare_iid (ep_state p)) + nat (ep_preexec_window p) < 2 ^ 32"
  shows "evprop_step n W M p (proposer_preexecute now p)"
proof -
  let ?c = "ep_preexec_window p - proposer_prepared_count (ep_state p)"
  have le: "nat ?c \<le> nat (ep_preexec_window p)" by (simp add: proposer_prepared_count_def)
  show ?thesis
  proof (cases "?c \<le> 0")
    case True
    then show ?thesis
      using ok by (intro evprop_stepI [of _ p "[]"]) (simp_all add: proposer_preexecute_def prop_step_def)
  next
    case False
    obtain p' out where "proposer_preexecute_loop (nat ?c) now (ep_state p) [] = Some (p', out)"
      "prop_step n W M (ep_state p) out p'"
      using preexecute_loop_step [OF ok, of "nat ?c" now "[]"] room le by auto
    then show ?thesis
      using False by (intro evprop_stepI [of _ "p\<lparr>ep_state := p'\<rparr>" out]) (simp_all add: proposer_preexecute_def)
  qed
qed

lemma try_accept_step:
  assumes ok: "prop_ok n W M (ep_state p)"
    and room: "pload (ep_state p) + nat (ep_preexec_window p) < 2 ^ 29"
      "unat (p_next_prepare_iid (ep_state p)) + nat (ep_preexec_window p) < 2 ^ 32"
  shows "evprop_step n W M p (try_accept now p)"
proof -
  have "prop_room (ep_state p)" using room(1) by (simp add: prop_room_def)
  then obtain p' out where p': "try_accept_loop (ep_state p) [] = Some (p', out)"
    "prop_step n W M (ep_state p) out p'" "pload p' \<le> pload (ep_state p)"
    "p_next_prepare_iid p' = p_next_prepare_iid (ep_state p)"
    using try_accept_loop_step [OF ok, of "[]"] by auto
  let ?p = "p\<lparr>ep_state := p'\<rparr>"
  have "prop_ok n W (M \<union> msgs out) p'" using p'(2) by (simp add: prop_step_def)
  then have "evprop_step n W (M \<union> msgs out) ?p (proposer_preexecute now ?p)"
    using room p'(3,4) by (intro preexecute_step) simp_all
  then obtain p'' out' where "proposer_preexecute now ?p = Some (p'', out')"
    "prop_step n W (M \<union> msgs out) p' out' (ep_state p'')" "ep_preexec_window p'' = ep_preexec_window p"
    by (auto simp: evprop_step_def)
  then show ?thesis
    using p'(1) prop_step_trans [OF p'(2)] by (intro evprop_stepI [of _ p'' "out @ out'"]) (simp_all add: try_accept_def)
qed

text \<open>A silent or sending first part followed by \<open>try_accept\<close>.\<close>

lemma then_try_accept:
  assumes first: "prop_step n W M (ep_state p) out st"
    and room: "evprop_room p" "pload st \<le> Suc (pload (ep_state p))"
      "p_next_prepare_iid st = p_next_prepare_iid (ep_state p)"
  obtains p' out' where "try_accept now (p\<lparr>ep_state := st\<rparr>) = Some (p', out')"
    "prop_step n W M (ep_state p) (out @ out') (ep_state p')" "ep_preexec_window p' = ep_preexec_window p"
proof -
  let ?p = "p\<lparr>ep_state := st\<rparr>"
  have "prop_ok n W (M \<union> msgs out) (ep_state ?p)" using first by (simp add: prop_step_def)
  then have "evprop_step n W (M \<union> msgs out) ?p (try_accept now ?p)"
    using room by (intro try_accept_step) (simp_all add: evprop_room_def)
  then show thesis using that prop_step_trans [OF first] by (auto simp: evprop_step_def)
qed

subsection \<open>Messages\<close>

lemma spec_promise_frame:
  assumes "finite (dom (s_prep s))"
  shows "prop_load (fst (spec_promise s ack now)) = prop_load s"
    "s_next (fst (spec_promise s ack now)) = s_next s" "s_id (fst (spec_promise s ack now)) = s_id s"
  using assms
  by (auto simp: spec_promise_def prop_load_def card_insert_if domIff split: option.splits)

lemma returned_value_length: "length (returned_value inst) \<le> 1"
  by (auto simp: returned_value_def split: option.splits)

lemma card_dom_upd_present: "m k = Some v \<Longrightarrow> card (dom (m(k \<mapsto> w))) = card (dom m)"
  by (metis dom_fun_upd domI insert_absorb option.distinct(1))

lemma card_dom_Suc: "finite (dom m) \<Longrightarrow> m k = Some v \<Longrightarrow> card (dom m) = Suc (card (dom (m(k := None))))"
  by (subst card.remove [of "dom m" k]) (auto simp: domI)

lemma spec_accepted_frame:
  assumes fin: "finite (dom (s_acc s))"
  shows "prop_load (fst (spec_accepted s ack)) \<le> prop_load s"
    "s_next (fst (spec_accepted s ack)) = s_next s" "s_id (fst (spec_accepted s ack)) = s_id s"
proof -
  show "prop_load (fst (spec_accepted s ack)) \<le> prop_load s"
  proof (cases "s_acc s (iid ack)")
    case None
    then show ?thesis by (simp add: spec_accepted_def)
  next
    case (Some inst)
    note card = card_dom_upd_present [of "s_acc s" "iid ack", OF Some] card_dom_Suc [OF fin, of "iid ack", OF Some]
      returned_value_length [of inst]
    then show ?thesis
      unfolding spec_accepted_def using Some by (simp add: Let_def prop_load_def del: dom_fun_upd)
  qed
qed (simp_all add: spec_accepted_def Let_def split: option.splits)

lemma spec_preempted_frame:
  assumes fin: "finite (dom (s_acc s))" "finite (dom (s_prep s))"
  shows "prop_load (fst (spec_preempted s ack now)) \<le> prop_load s"
    "s_next (fst (spec_preempted s ack now)) = s_next s" "s_id (fst (spec_preempted s ack now)) = s_id s"
proof -
  show "prop_load (fst (spec_preempted s ack now)) \<le> prop_load s"
  proof (cases "s_acc s (iid ack)")
    case None
    then show ?thesis by (simp add: spec_preempted_def)
  next
    case (Some inst)
    note card = card_dom_Suc [OF fin(1), of "iid ack", OF Some] card_dom_add [OF fin(2), of "iid ack"]
    then show ?thesis
      unfolding spec_preempted_def using Some card(2) [of "preempt_inst (s_id s) inst now"]
      by (simp add: prop_load_def del: dom_fun_upd)
  qed
qed (simp_all add: spec_preempted_def split: option.splits)

text \<open>A step that refines an abstract operation and sends the prepare request it returns, if any.\<close>

lemma prop_step_preempt:
  assumes ok: "prop_ok n W M p" and step: "refines prop_abs prop_repr res (s', pr)"
    and safe: "prop_safe n W M s'" and id: "s_id s' = p_id p"
  obtains st where "res = Some (st, pr)" "prop_step n W M p (preempt_sends pr) st" "prop_abs st = s'"
proof -
  obtain st where st: "res = Some (st, pr)" "prop_repr st" "prop_abs st = s'" using step by (rule refinesE)
  have id': "p_id st = p_id p" using id st(3) by (metis prop_abs_simps(1))
  have "prop_step n W M p (preempt_sends pr) st"
  proof (cases pr)
    case None
    then show ?thesis using prop_step_silent [OF ok st(2) _ id'] safe st(3) by (simp add: preempt_sends_def)
  next
    case (Some r)
    then show ?thesis
      using prop_step_inert [OF ok st(2) _ id', of "PAXOS_PREPARE r"] safe st(3) by (simp add: preempt_sends_def)
  qed
  then show thesis using st that by blast
qed

lemma handle_promise_step:
  assumes ok: "prop_ok n W M (ep_state p)" and room: "evprop_room p" and ack: "PAXOS_PROMISE ack \<in> M"
  shows "evprop_step n W M p (evproposer_handle_promise now p ack)"
proof -
  let ?s = "prop_abs (ep_state p)"
  have net: "net_inv n W M" and repr: "prop_repr (ep_state p)" and safe: "prop_safe n W M ?s"
    using ok by (simp_all add: prop_ok_def)
  have a: "unat (aid ack) < n" "value_wf (pvalue ack)"
    using net_inv_promise [OF net ack] by (simp_all add: reports_def)
  obtain s' pr where s': "spec_promise ?s ack (now 0) = (s', pr)" by fastforce
  note frame = spec_promise_frame [of ?s ack "now 0", OF prop_abs_finite(1), unfolded s' fst_conv]
  from proposer_receive_promise_refines [OF repr prop_ok_inv [OF ok] a, of "now 0"]
  have "refines prop_abs prop_repr (proposer_receive_promise (ep_state p) ack (now 0)) (s', pr)" by (simp add: s')
  with ok obtain st where st: "proposer_receive_promise (ep_state p) ack (now 0) = Some (st, pr)"
    "prop_step n W M (ep_state p) (preempt_sends pr) st" "prop_abs st = s'"
    by (rule prop_step_preempt) (use promise_safe [OF net safe ack, of "now 0"] frame(3) s' in simp_all)
  have "pload st \<le> Suc (pload (ep_state p))" "p_next_prepare_iid st = p_next_prepare_iid (ep_state p)"
    using frame(1,2) st(3) by (auto simp del: prop_abs_simps simp flip: prop_abs_simps(5))
  with st(2) room obtain p' out' where "try_accept (\<lambda>i. now (Suc i)) (p\<lparr>ep_state := st\<rparr>) = Some (p', out')"
    "prop_step n W M (ep_state p) (preempt_sends pr @ out') (ep_state p')" "ep_preexec_window p' = ep_preexec_window p"
    by (rule then_try_accept [where now = "\<lambda>i. now (Suc i)"])
  then show ?thesis
    using st(1) by (intro evprop_stepI [of _ p' "preempt_sends pr @ out'"]) (simp_all add: evproposer_handle_promise_def)
qed

lemma evprop_room_prop: "evprop_room p \<Longrightarrow> prop_room (ep_state p)"
  by (simp add: evprop_room_def prop_room_def)

lemma handle_accepted_step:
  assumes ok: "prop_ok n W M (ep_state p)" and room: "evprop_room p" and ack: "PAXOS_ACCEPTED ack \<in> M"
  shows "evprop_step n W M p (evproposer_handle_accepted now p ack)"
proof -
  let ?s = "prop_abs (ep_state p)"
  have net: "net_inv n W M" and repr: "prop_repr (ep_state p)" and safe: "prop_safe n W M ?s"
    using ok by (simp_all add: prop_ok_def)
  have a: "unat (aid ack) < n" using net ack by (auto simp: net_inv_def votes_inv_def)
  obtain s' rv where s': "spec_accepted ?s ack = (s', rv)" by fastforce
  note frame = spec_accepted_frame [of ?s ack, OF prop_abs_finite(2), unfolded s' fst_conv]
  from proposer_receive_accepted_refines [OF repr evprop_room_prop [OF room] prop_ok_inv [OF ok] a]
  obtain st where st: "proposer_receive_accepted (ep_state p) ack = Some (st, rv)" "prop_repr st" "prop_abs st = s'"
    unfolding s' by (rule refinesE)
  have id: "p_id st = p_id (ep_state p)" using frame(3) st(3) by (metis prop_abs_simps(1))
  have step: "prop_step n W M (ep_state p) [] st"
    using accepted_safe [OF safe a] s' st by (intro prop_step_silent [OF ok _ _ id]) simp_all
  show ?thesis
  proof (cases "rv = 0")
    case True
    then show ?thesis
      using st(1) step by (intro evprop_stepI [of _ "p\<lparr>ep_state := st\<rparr>" "[]"]) (simp_all add: evproposer_handle_accepted_def)
  next
    case False
    have "pload st \<le> Suc (pload (ep_state p))" "p_next_prepare_iid st = p_next_prepare_iid (ep_state p)"
      using frame(1,2) st(3) by (auto simp del: prop_abs_simps simp flip: prop_abs_simps(5))
    with step room obtain p' out' where "try_accept now (p\<lparr>ep_state := st\<rparr>) = Some (p', out')"
      "prop_step n W M (ep_state p) ([] @ out') (ep_state p')" "ep_preexec_window p' = ep_preexec_window p"
      by (rule then_try_accept [where now = now])
    then show ?thesis
      using st(1) False by (intro evprop_stepI [of _ p' out']) (simp_all add: evproposer_handle_accepted_def)
  qed
qed

lemma handle_preempted_step:
  assumes ok: "prop_ok n W M (ep_state p)" and room: "evprop_room p"
  shows "evprop_step n W M p (evproposer_handle_preempted now p ack)"
proof -
  let ?s = "prop_abs (ep_state p)"
  have repr: "prop_repr (ep_state p)" and safe: "prop_safe n W M ?s" using ok by (simp_all add: prop_ok_def)
  obtain s' pr where s': "spec_preempted ?s ack (now 0) = (s', pr)" by fastforce
  note frame = spec_preempted_frame [of ?s ack "now 0", OF prop_abs_finite(2,1), unfolded s' fst_conv]
  from proposer_receive_preempted_refines [OF repr evprop_room_prop [OF room] prop_ok_inv [OF ok], of ack "now 0"]
  have "refines prop_abs prop_repr (proposer_receive_preempted (ep_state p) ack (now 0)) (s', pr)" by (simp add: s')
  with ok obtain st where st: "proposer_receive_preempted (ep_state p) ack (now 0) = Some (st, pr)"
    "prop_step n W M (ep_state p) (preempt_sends pr) st" "prop_abs st = s'"
    by (rule prop_step_preempt) (use preempted_safe [OF safe, of ack "now 0"] frame(3) s' in simp_all)
  show ?thesis
  proof (cases "pr = None")
    case True
    then show ?thesis
      using st(1,2)
      by (intro evprop_stepI [of _ "p\<lparr>ep_state := st\<rparr>" "[]"]) (simp_all add: evproposer_handle_preempted_def preempt_sends_def)
  next
    case False
    have "pload st \<le> Suc (pload (ep_state p))" "p_next_prepare_iid st = p_next_prepare_iid (ep_state p)"
      using frame(1,2) st(3) by (auto simp del: prop_abs_simps simp flip: prop_abs_simps(5))
    with st(2) room obtain p' out' where "try_accept (\<lambda>i. now (Suc i)) (p\<lparr>ep_state := st\<rparr>) = Some (p', out')"
      "prop_step n W M (ep_state p) (preempt_sends pr @ out') (ep_state p')" "ep_preexec_window p' = ep_preexec_window p"
      by (rule then_try_accept [where now = "\<lambda>i. now (Suc i)"])
    then show ?thesis
      using st(1) False
      by (intro evprop_stepI [of _ p' "preempt_sends pr @ out'"]) (auto simp: evproposer_handle_preempted_def)
  qed
qed

lemma handle_client_value_step:
  assumes ok: "prop_ok n W M (ep_state p)" and room: "evprop_room p" and v: "ok_value W (client_value v)"
  shows "evprop_step n W M p (evproposer_handle_client_value now p v)"
proof -
  let ?s = "prop_abs (ep_state p)" and ?v = "client_value v"
  have repr: "prop_repr (ep_state p)" and safe: "prop_safe n W M ?s" using ok by (simp_all add: prop_ok_def)
  have wf: "value_wf ?v" using v by (simp add: ok_value_def)
  have len: "size_of_int (paxos_value_len ?v) = nat (paxos_value_len ?v)"
    using wf by (simp add: size_of_int_def value_wf_def)
  obtain st where st: "proposer_propose (ep_state p) (paxos_value_val ?v) (nat (paxos_value_len ?v)) = Some st"
    "prop_repr st" "prop_abs st = ?s\<lparr>s_values := s_values ?s @ [value_of_bytes (value_bytes ?v)]\<rparr>"
    using repr prop_roomD(1) [OF evprop_room_prop [OF room] repr] wf by (rule proposer_propose_refines)
  have id: "p_id st = p_id (ep_state p)" using arg_cong [OF st(3), of s_id] by simp
  have step: "prop_step n W M (ep_state p) [] st"
    using propose_safe [OF safe v] st(2,3) ok_value_bytes [OF v] by (intro prop_step_silent [OF ok _ _ id]) simp_all
  have "pload st \<le> Suc (pload (ep_state p))" unfolding st(3) by (simp add: prop_load_def)
  moreover have "p_next_prepare_iid st = p_next_prepare_iid (ep_state p)" using arg_cong [OF st(3), of s_next] by simp
  ultimately obtain p' out' where "try_accept now (p\<lparr>ep_state := st\<rparr>) = Some (p', out')"
    "prop_step n W M (ep_state p) ([] @ out') (ep_state p')" "ep_preexec_window p' = ep_preexec_window p"
    using then_try_accept [OF step room] by blast
  then show ?thesis
    using st(1) len by (intro evprop_stepI [of _ p' out']) (simp_all add: evproposer_handle_client_value_def)
qed

lemma spec_set_id_id: "spec_set_id s i s' \<Longrightarrow> s_id s' = s_id s"
  by (auto simp: spec_set_id_def split: if_splits)

lemma set_instance_id_step:
  assumes ok: "prop_ok n W M (ep_state p)" and room: "evprop_room p"
  obtains p' where "evproposer_set_instance_id p i = Some p'" "prop_step n W M (ep_state p) [] (ep_state p')"
    "ep_preexec_window p' = ep_preexec_window p"
proof -
  let ?s = "prop_abs (ep_state p)"
  have repr: "prop_repr (ep_state p)" and safe: "prop_safe n W M ?s" using ok by (simp_all add: prop_ok_def)
  obtain st where st: "proposer_set_instance_id (ep_state p) i = Some st" "prop_repr st" "spec_set_id ?s i (prop_abs st)"
    using repr evprop_room_prop [OF room] prop_ok_inv [OF ok] by (rule proposer_set_instance_id_refines)
  have "p_id st = p_id (ep_state p)" using spec_set_id_id [OF st(3)] by simp
  then have "prop_step n W M (ep_state p) [] st"
    using prop_step_silent [OF ok st(2) set_id_safe [OF safe st(3)]] by simp
  then show thesis
    using st(1) by (intro that [of "p\<lparr>ep_state := st\<rparr>"]) (simp_all add: evproposer_set_instance_id_def)
qed

lemma handle_acceptor_state_step:
  assumes ok: "prop_ok n W M (ep_state p)" and room: "evprop_room p"
  shows "evprop_step n W M p (evproposer_handle_acceptor_state p ast)"
proof -
  let ?s = "prop_abs (ep_state p)"
  let ?s1 = "?s\<lparr>s_max_trim := max (s_max_trim ?s) (state_trim_iid ast)\<rparr>"
  have repr: "prop_repr (ep_state p)" and safe: "prop_safe n W M ?s" using ok by (simp_all add: prop_ok_def)
  obtain st where st: "proposer_receive_acceptor_state (ep_state p) ast = Some st" "prop_repr st"
    "spec_set_id ?s1 (state_trim_iid ast) (prop_abs st) \<or> prop_abs st = ?s"
    using proposer_receive_acceptor_state_refines [OF repr evprop_room_prop [OF room] prop_ok_inv [OF ok], of ast] by metis
  have "prop_safe n W M (prop_abs st) \<and> p_id st = p_id (ep_state p)"
    using st(3)
  proof
    assume set: "spec_set_id ?s1 (state_trim_iid ast) (prop_abs st)"
    then show ?thesis using set_id_safe [OF max_trim_safe [OF safe] set] spec_set_id_id [OF set] by simp
  next
    assume "prop_abs st = ?s"
    then show ?thesis using safe by (metis prop_abs_simps(1))
  qed
  then have "prop_step n W M (ep_state p) [] st" using prop_step_silent [OF ok st(2)] by simp
  then show ?thesis
    using st(1) by (intro evprop_stepI [of _ "p\<lparr>ep_state := st\<rparr>" "[]"]) (simp_all add: evproposer_handle_acceptor_state_def)
qed

subsection \<open>Timeouts\<close>

text \<open>
  An instance whose request is sent again counts from now: with a positive timeout it is not
  late any more, so each round of the loops leaves fewer late instances. With another timeout it
  stays late, and the loop may not end.
\<close>

definition late :: "paxos_config \<Rightarrow> timeval \<Rightarrow> (iid_t \<Rightarrow> pinstance option) \<Rightarrow> iid_t set" where
  "late cfg t m = {k. \<exists>inst. m k = Some inst \<and> instance_has_timedout cfg inst t}"

lemma late_touch:
  assumes "0 < proposer_timeout cfg" "finite (dom m)" "m k = Some inst" "instance_has_timedout cfg inst t"
  shows "card (late cfg t (m(k \<mapsto> touch t inst))) < card (late cfg t m)"
proof (rule psubset_card_mono)
  have "late cfg t m \<subseteq> dom m" by (auto simp: late_def)
  then show "finite (late cfg t m)" using assms(2) by (rule finite_subset)
  have "\<not> instance_has_timedout cfg (touch t inst) t"
    using assms(1) by (simp add: instance_has_timedout_def touch_def)
  then show "late cfg t (m(k \<mapsto> touch t inst)) \<subset> late cfg t m"
    using assms(3,4) by (auto simp: late_def split: if_splits)
qed

text \<open>One round of each loop.\<close>

lemma timeout_prepare_round:
  assumes ok: "prop_ok n W M p" and it: "it_pi it \<le> kh_end (p_prepare_instances p)"
  obtains (none) it' where "timeout_iterator_prepare cfg it p = Some (it', p, None)" "it_ai it' = it_ai it"
  | (some) it' p' r where "timeout_iterator_prepare cfg it p = Some (it', p', Some r)"
      "prop_step n W M p [(ToAcceptors, PAXOS_PREPARE r)] p'" "it_pi it' \<le> kh_end (p_prepare_instances p')"
      "it_timeout it' = it_timeout it" "it_ai it' = it_ai it" "p_accept_instances p' = p_accept_instances p"
      "0 < proposer_timeout cfg \<Longrightarrow> card (late cfg (it_timeout it) (s_prep (prop_abs p'))) <
        card (late cfg (it_timeout it) (s_prep (prop_abs p)))"
proof -
  have repr: "prop_repr p" and safe: "prop_safe n W M (prop_abs p)" using ok by (simp_all add: prop_ok_def)
  from repr prop_ok_inv [OF ok] it show thesis
  proof (cases rule: timeout_iterator_prepare_refines [where cfg = cfg])
    case (none it')
    then show ?thesis by (intro that(1))
  next
    case (some it' p' inst)
    have "p_id p' = p_id p" using arg_cong [OF some(4), of s_id] by simp
    then have "prop_step n W M p [(ToAcceptors, PAXOS_PREPARE (instance_to_prepare inst))] p'"
      using touch_safe(1) [OF safe some(3)] some(2,4) by (intro prop_step_inert [OF ok]) simp_all
    moreover have "card (late cfg (it_timeout it) (s_prep (prop_abs p'))) < card (late cfg (it_timeout it) (s_prep (prop_abs p)))"
      if "0 < proposer_timeout cfg"
      using late_touch [OF that prop_abs_finite(1) some(3,11)] unfolding some(4) by simp
    ultimately show ?thesis using some(1,5-8) by (intro that(2))
  qed
qed

lemma resend_accept:
  assumes ok: "prop_ok n W M p" and i: "s_acc (prop_abs p) k = Some inst"
  shows "PAXOS_ACCEPT (accept_msg inst) \<in> M" "prop_msg (p_id p) (PAXOS_ACCEPT (accept_msg inst))"
proof -
  have safe: "prop_safe n W M (prop_abs p)" using ok by (simp add: prop_ok_def)
  show "PAXOS_ACCEPT (accept_msg inst) \<in> M" by (rule prop_safe_acc(1) [OF safe i])
  from spec_inv_base(6) [OF prop_ok_inv [OF ok] i]
  have "own_ballot (p_id p) (i_ballot inst)" "uint (i_ballot inst) < 65536"
    "i_value inst \<noteq> None \<or> i_promised_value inst \<noteq> None" by (simp_all add: inst_wf_def)
  then show "prop_msg (p_id p) (PAXOS_ACCEPT (accept_msg inst))"
    by (simp add: accept_msg_fields(2) uint_ucast_32_16 own_ballot_def)
qed

lemma timeout_accept_round:
  assumes ok: "prop_ok n W M p" and it: "it_ai it \<le> kh_end (p_accept_instances p)"
  obtains (none) it' where "timeout_iterator_accept cfg it p = Some (it', p, None)"
  | (some) it' p' r where "timeout_iterator_accept cfg it p = Some (it', p', Some r)"
      "prop_step n W M p [(ToAcceptors, PAXOS_ACCEPT r)] p'" "it_ai it' \<le> kh_end (p_accept_instances p')"
      "it_timeout it' = it_timeout it"
      "0 < proposer_timeout cfg \<Longrightarrow> card (late cfg (it_timeout it) (s_acc (prop_abs p'))) <
        card (late cfg (it_timeout it) (s_acc (prop_abs p)))"
proof -
  have repr: "prop_repr p" and safe: "prop_safe n W M (prop_abs p)" using ok by (simp_all add: prop_ok_def)
  from repr prop_ok_inv [OF ok] it show thesis
  proof (cases rule: timeout_iterator_accept_refines [where cfg = cfg])
    case (none it')
    then show ?thesis by (intro that(1))
  next
    case (some it' p' inst)
    have "p_id p' = p_id p" using arg_cong [OF some(4), of s_id] by simp
    then have "prop_step n W M p [] p'"
      using touch_safe(2) [OF safe some(3)] some(2,4) by (intro prop_step_silent [OF ok]) simp_all
    then have "prop_step n W M p [(ToAcceptors, PAXOS_ACCEPT (accept_msg inst))] p'"
      using resend_accept [OF ok some(3)] by (simp add: prop_step_def insert_absorb)
    moreover have "card (late cfg (it_timeout it) (s_acc (prop_abs p'))) < card (late cfg (it_timeout it) (s_acc (prop_abs p)))"
      if "0 < proposer_timeout cfg"
      using late_touch [OF that prop_abs_finite(2) some(3,9)] unfolding some(4) by simp
    ultimately show ?thesis using some(1,5,6) by (intro that(2))
  qed
qed

text \<open>With a positive timeout the loops end.\<close>

lemma timeout_prepare_loop_ends:
  assumes "0 < proposer_timeout cfg" "prop_ok n W M p" "it_pi it \<le> kh_end (p_prepare_instances p)"
  shows "\<exists>y. timeout_prepare_loop cfg it p out = Some y"
  using assms(2,3)
proof (induction "card (late cfg (it_timeout it) (s_prep (prop_abs p)))" arbitrary: p M it out rule: less_induct)
  case less
  from less.prems show ?case
  proof (cases rule: timeout_prepare_round [where cfg = cfg])
    case (none it')
    then show ?thesis by (subst timeout_prepare_loop.simps) simp
  next
    case (some it' p' r)
    have "prop_ok n W (M \<union> msgs [(ToAcceptors, PAXOS_PREPARE r)]) p'" using some(2) by (simp add: prop_step_def)
    from less.hyps [OF _ this some(3)] some(7) [OF assms(1)] show ?thesis
      using some(1,4) by (subst timeout_prepare_loop.simps) simp
  qed
qed

lemma timeout_accept_loop_ends:
  assumes "0 < proposer_timeout cfg" "prop_ok n W M p" "it_ai it \<le> kh_end (p_accept_instances p)"
  shows "\<exists>y. timeout_accept_loop cfg it p out = Some y"
  using assms(2,3)
proof (induction "card (late cfg (it_timeout it) (s_acc (prop_abs p)))" arbitrary: p M it out rule: less_induct)
  case less
  from less.prems show ?case
  proof (cases rule: timeout_accept_round [where cfg = cfg])
    case (none it')
    then show ?thesis by (subst timeout_accept_loop.simps) simp
  next
    case (some it' p' r)
    have "prop_ok n W (M \<union> msgs [(ToAcceptors, PAXOS_ACCEPT r)]) p'" using some(2) by (simp add: prop_step_def)
    from less.hyps [OF _ this some(3)] some(5) [OF assms(1)] show ?thesis
      using some(1,4) by (subst timeout_accept_loop.simps) simp
  qed
qed

text \<open>Whatever the timeout, a loop that ends has kept the proposer safe.\<close>

lemma timeout_prepare_loop_safe:
  assumes run: "timeout_prepare_loop cfg it p out = Some y" and ok: "prop_ok n W M p"
    and it: "it_pi it \<le> kh_end (p_prepare_instances p)"
  shows "\<exists>it' p' out'. y = (it', p', out @ out') \<and> prop_step n W M p out' p' \<and> it_ai it' = it_ai it \<and>
    p_accept_instances p' = p_accept_instances p"
proof -
  let ?P = "\<lambda>cfg it p out y. \<forall>M. prop_ok n W M p \<longrightarrow> it_pi it \<le> kh_end (p_prepare_instances p) \<longrightarrow>
    (\<exists>it' p' out'. y = (it', p', out @ out') \<and> prop_step n W M p out' p' \<and> it_ai it' = it_ai it \<and>
      p_accept_instances p' = p_accept_instances p)"
  have "?P cfg it p out y"
  proof (rule timeout_prepare_loop.raw_induct [where P = ?P, OF _ run], intro allI impI)
    fix loop :: "paxos_config \<Rightarrow> timeout_iterator \<Rightarrow> proposer \<Rightarrow> sends \<Rightarrow> (timeout_iterator \<times> proposer \<times> sends) option"
      and cfg it p out y M
    assume ih: "\<And>cfg it p out y. loop cfg it p out = Some y \<Longrightarrow> ?P cfg it p out y"
      and eq: "timeout_iterator_prepare cfg it p \<bind> (\<lambda>(it, p, pr). case pr of None \<Rightarrow> Some (it, p, out)
        | Some r \<Rightarrow> loop cfg it p (out @ [(ToAcceptors, PAXOS_PREPARE r)])) = Some y"
      and ok: "prop_ok n W M p" and it: "it_pi it \<le> kh_end (p_prepare_instances p)"
    from ok it show "\<exists>it' p' out'. y = (it', p', out @ out') \<and> prop_step n W M p out' p' \<and> it_ai it' = it_ai it \<and>
      p_accept_instances p' = p_accept_instances p"
    proof (cases rule: timeout_prepare_round [where cfg = cfg])
      case (none it')
      then show ?thesis using eq ok
        by (intro exI [of _ it'] exI [of _ p] exI [of _ "[]"]) (simp add: prop_step_def)
    next
      case (some it1 p1 r)
      let ?o = "[(ToAcceptors, PAXOS_PREPARE r)]"
      have "loop cfg it1 p1 (out @ ?o) = Some y" using eq some(1) by simp
      moreover have "prop_ok n W (M \<union> msgs ?o) p1" using some(2) by (simp add: prop_step_def)
      ultimately obtain it' p' out' where "y = (it', p', (out @ ?o) @ out')" "prop_step n W (M \<union> msgs ?o) p1 out' p'"
        "it_ai it' = it_ai it1" "p_accept_instances p' = p_accept_instances p1" using ih some(3) by blast
      then show ?thesis using prop_step_trans [OF some(2)] some(5,6)
        by (intro exI [of _ it'] exI [of _ p'] exI [of _ "?o @ out'"]) simp
    qed
  qed
  then show ?thesis using ok it by blast
qed

lemma timeout_accept_loop_safe:
  assumes run: "timeout_accept_loop cfg it p out = Some y" and ok: "prop_ok n W M p"
    and it: "it_ai it \<le> kh_end (p_accept_instances p)"
  shows "\<exists>it' p' out'. y = (it', p', out @ out') \<and> prop_step n W M p out' p'"
proof -
  let ?P = "\<lambda>cfg it p out y. \<forall>M. prop_ok n W M p \<longrightarrow> it_ai it \<le> kh_end (p_accept_instances p) \<longrightarrow>
    (\<exists>it' p' out'. y = (it', p', out @ out') \<and> prop_step n W M p out' p')"
  have "?P cfg it p out y"
  proof (rule timeout_accept_loop.raw_induct [where P = ?P, OF _ run], intro allI impI)
    fix loop :: "paxos_config \<Rightarrow> timeout_iterator \<Rightarrow> proposer \<Rightarrow> sends \<Rightarrow> (timeout_iterator \<times> proposer \<times> sends) option"
      and cfg it p out y M
    assume ih: "\<And>cfg it p out y. loop cfg it p out = Some y \<Longrightarrow> ?P cfg it p out y"
      and eq: "timeout_iterator_accept cfg it p \<bind> (\<lambda>(it, p, ar). case ar of None \<Rightarrow> Some (it, p, out)
        | Some r \<Rightarrow> loop cfg it p (out @ [(ToAcceptors, PAXOS_ACCEPT r)])) = Some y"
      and ok: "prop_ok n W M p" and it: "it_ai it \<le> kh_end (p_accept_instances p)"
    from ok it show "\<exists>it' p' out'. y = (it', p', out @ out') \<and> prop_step n W M p out' p'"
    proof (cases rule: timeout_accept_round [where cfg = cfg])
      case (none it')
      then show ?thesis using eq ok
        by (intro exI [of _ it'] exI [of _ p] exI [of _ "[]"]) (simp add: prop_step_def)
    next
      case (some it1 p1 r)
      let ?o = "[(ToAcceptors, PAXOS_ACCEPT r)]"
      have "loop cfg it1 p1 (out @ ?o) = Some y" using eq some(1) by simp
      moreover have "prop_ok n W (M \<union> msgs ?o) p1" using some(2) by (simp add: prop_step_def)
      ultimately obtain it' p' out' where "y = (it', p', (out @ ?o) @ out')" "prop_step n W (M \<union> msgs ?o) p1 out' p'"
        using ih some(3) by blast
      then show ?thesis using prop_step_trans [OF some(2)]
        by (intro exI [of _ it'] exI [of _ p'] exI [of _ "?o @ out'"]) simp
    qed
  qed
  then show ?thesis using ok it by blast
qed

lemma check_timeouts_safe:
  assumes ok: "prop_ok n W M (ep_state p)" and run: "evproposer_check_timeouts cfg now p = Some y"
  shows "evprop_step n W M p (Some y)"
proof -
  let ?it = "proposer_timeout_iterator (ep_state p) now"
  obtain x z where x: "timeout_prepare_loop cfg ?it (ep_state p) [] = Some x"
    "timeout_accept_loop cfg (fst x) (fst (snd x)) (snd (snd x)) = Some z"
    "y = (p\<lparr>ep_state := fst (snd z)\<rparr>, snd (snd z))"
    using run by (auto simp: evproposer_check_timeouts_def bind_eq_Some_conv split: prod.splits)
  have "it_pi ?it \<le> kh_end (p_prepare_instances (ep_state p))" by (simp add: proposer_timeout_iterator_def)
  from timeout_prepare_loop_safe [OF x(1) ok this] obtain it p1 out1 where 1: "x = (it, p1, out1)"
    "prop_step n W M (ep_state p) out1 p1" "it_ai it = it_ai ?it" by auto
  have "prop_ok n W (M \<union> msgs out1) p1" using 1(2) by (simp add: prop_step_def)
  moreover have "it_ai it \<le> kh_end (p_accept_instances p1)" using 1(3) by (simp add: proposer_timeout_iterator_def)
  moreover have "timeout_accept_loop cfg it p1 out1 = Some z" using x(2) by (simp add: 1(1))
  ultimately obtain it' p2 out2 where 2: "z = (it', p2, out1 @ out2)" "prop_step n W (M \<union> msgs out1) p1 out2 p2"
    using timeout_accept_loop_safe by blast
  show ?thesis
    using prop_step_trans [OF 1(2) 2(2)] x(3)
    by (intro evprop_stepI [of _ "p\<lparr>ep_state := p2\<rparr>" "out1 @ out2"]) (simp_all add: 2(1))
qed

lemma check_timeouts_step:
  assumes cfg: "0 < proposer_timeout cfg" and ok: "prop_ok n W M (ep_state p)"
  shows "evprop_step n W M p (evproposer_check_timeouts cfg now p)"
proof -
  let ?it = "proposer_timeout_iterator (ep_state p) now"
  have it: "it_pi ?it \<le> kh_end (p_prepare_instances (ep_state p))" by (simp add: proposer_timeout_iterator_def)
  obtain x where x: "timeout_prepare_loop cfg ?it (ep_state p) [] = Some x"
    using timeout_prepare_loop_ends [OF cfg ok it] by blast
  from timeout_prepare_loop_safe [OF x ok it] obtain it1 p1 out1 where 1: "x = (it1, p1, out1)"
    "prop_step n W M (ep_state p) out1 p1" "it_ai it1 = it_ai ?it" by auto
  have "prop_ok n W (M \<union> msgs out1) p1" using 1(2) by (simp add: prop_step_def)
  moreover have "it_ai it1 \<le> kh_end (p_accept_instances p1)" using 1(3) by (simp add: proposer_timeout_iterator_def)
  ultimately obtain z where "timeout_accept_loop cfg it1 p1 out1 = Some z"
    using timeout_accept_loop_ends [OF cfg] by blast
  then have "evproposer_check_timeouts cfg now p = Some (p\<lparr>ep_state := fst (snd z)\<rparr>, snd (snd z))"
    using x by (simp add: evproposer_check_timeouts_def 1(1) split_beta)
  then show ?thesis using check_timeouts_safe [OF ok] by metis
qed

subsection \<open>Start\<close>

lemma proposer_new_ok:
  assumes "0 \<le> i" "i < 10"
  obtains p where "proposer_new i (int n) = Some p" "prop_ok n W {} p"
    "prop_abs p = \<lparr>s_id = i, s_acceptors = int n, s_values = [], s_max_trim = 0, s_next = 0,
      s_prep = Map.empty, s_acc = Map.empty\<rparr>"
proof -
  obtain q :: "paxos_value carray" where q: "carray_new 128 = Some q" "carray_inv q" "carray_list q = []"
    by (rule carray_new_inv [of 128]) simp_all
  define st where "st = \<lparr>p_id = i, p_acceptors = int n, p_values = q, p_max_trim_iid = 0,
    p_next_prepare_iid = 0, p_prepare_instances = kh_init, p_accept_instances = kh_init\<rparr>"
  have "proposer_new i (int n) = Some st" using q(1) by (simp add: proposer_new_def st_def)
  moreover have "net_inv n W {}"
    by (simp add: net_inv_def votes_inv_def one_value_def accepts_inv_def promises_inv_def)
  then have "prop_ok n W {} st"
    using assms q by (simp add: prop_ok_def prop_repr_def prop_safe_def spec_inv_def own_accept_def st_def)
  moreover have "prop_abs st = \<lparr>s_id = i, s_acceptors = int n, s_values = [], s_max_trim = 0, s_next = 0,
      s_prep = Map.empty, s_acc = Map.empty\<rparr>"
    using q(3) by (simp add: prop_abs_def st_def)
  ultimately show thesis by (rule that)
qed

lemma evproposer_init_ok:
  assumes "0 \<le> i" "i < 10"
  obtains p where "evproposer_init_internal cfg i (int n) = Some p" "prop_ok n W {} (ep_state p)"
    "p_id (ep_state p) = i" "ep_preexec_window p = proposer_preexec_window cfg" "pload (ep_state p) = 0"
    "p_next_prepare_iid (ep_state p) = 0"
proof -
  obtain st where st: "proposer_new i (int n) = Some st" "prop_ok n W {} st"
    "prop_abs st = \<lparr>s_id = i, s_acceptors = int n, s_values = [], s_max_trim = 0, s_next = 0,
      s_prep = Map.empty, s_acc = Map.empty\<rparr>"
    using assms by (rule proposer_new_ok)
  have "p_id st = i" "p_next_prepare_iid st = 0"
    using arg_cong [OF st(3), of s_id] arg_cong [OF st(3), of s_next] by simp_all
  moreover have "pload st = 0" by (simp add: st(3) prop_load_def)
  ultimately show thesis
    using st(1,2) by (intro that [of "\<lparr>ep_id = i, ep_preexec_window = proposer_preexec_window cfg, ep_state = st\<rparr>"])
      (simp_all add: evproposer_init_internal_def)
qed

end
