(* ===== verification/Evacceptor_Safety.thy ===== *)
theory Evacceptor_Safety
  imports Evproposer_Safety
begin

text \<open>
  The handlers of \<open>evacceptor.c\<close> and \<open>evlearner.c\<close> as steps of the protocol, over the in-memory
  storage. The loop over the instances of a repeat request ends unless it asks for the largest
  identifier. An acceptor that repeats a record with the ballot of a later promise does not keep
  the invariant; the lemma about repeat requests asks that no record it repeats is of that kind.
\<close>

section \<open>Steps of one acceptor\<close>

fun acc_msg :: "nat \<Rightarrow> paxos_message \<Rightarrow> bool" where
  "acc_msg i (PAXOS_PROMISE p) \<longleftrightarrow> unat (aid p) = i"
| "acc_msg i (PAXOS_ACCEPTED r) \<longleftrightarrow> unat (aid r) = i"
| "acc_msg i (PAXOS_ACCEPT _) \<longleftrightarrow> False"
| "acc_msg i (PAXOS_CLIENT_VALUE _) \<longleftrightarrow> False"
| "acc_msg i _ \<longleftrightarrow> True"

definition acc_ok :: "nat \<Rightarrow> byte list set \<Rightarrow> net \<Rightarrow> nat \<Rightarrow> mem_storage acceptor \<Rightarrow> bool" where
  "acc_ok n W M i a \<longleftrightarrow> net_inv n W M \<and> mem_acc_inv (int i) a \<and>
     acc_safe M (aid_of (int i)) (mem_acc_abs a)"

definition acc_step :: "nat \<Rightarrow> byte list set \<Rightarrow> net \<Rightarrow> nat \<Rightarrow> (mem_storage acceptor \<times> sends) option \<Rightarrow> bool" where
  "acc_step n W M i res \<longleftrightarrow> (\<exists>a out. res = Some (a, out) \<and> acc_ok n W (M \<union> msgs out) i a \<and>
     (\<forall>m \<in> msgs out. acc_msg i m))"

lemma acc_stepI:
  "res = Some (a, out) \<Longrightarrow> acc_ok n W (M \<union> msgs out) i a \<Longrightarrow> \<forall>m \<in> msgs out. acc_msg i m \<Longrightarrow> acc_step n W M i res"
  by (auto simp: acc_step_def)

lemma unat_aid_of:
  assumes "i < n" "n \<le> 65536"
  shows "unat (aid_of (int i)) = i"
proof -
  have "unat (aid_of (int i)) = i mod 2 ^ 16" by (simp add: unsigned_of_nat take_bit_eq_mod)
  also have "\<dots> = i" using assms by (intro mod_less) simp
  finally show ?thesis .
qed

lemma acc_safe_inert:
  assumes "acc_safe M a s" "inert m"
  shows "acc_safe (insert m M) a s"
  by (rule acc_safe_mono [OF assms(1)]) (use inert_neq [OF assms(2)] in auto)

lemma acc_ok_inert:
  assumes "acc_ok n W M i a" "inert m"
  shows "acc_ok n W (insert m M) i a"
  using assms by (simp add: acc_ok_def net_inv_inert acc_safe_inert)

lemma handle_prepare_step:
  assumes ok: "acc_ok n W M i a" and i: "i < n" "n \<le> 65536" and room: "acceptor_room a"
  shows "acc_step n W M i (evacceptor_handle_prepare a req)"
proof -
  let ?s = "mem_acc_abs a" and ?i = "int i"
  have net: "net_inv n W M" and inv: "mem_acc_inv ?i a" and safe: "acc_safe M (aid_of ?i) ?s"
    using ok by (simp_all add: acc_ok_def)
  have aid: "unat (aid_of ?i) = i" by (rule unat_aid_of [OF i])
  obtain a' where a': "acceptor_receive_prepare a req = Some (a', snd (spec_prepare ?i ?s req))"
    "mem_acc_inv ?i a'" "mem_acc_abs a' = fst (spec_prepare ?i ?s req)"
    using mem_prepare_refines [OF inv room, of req] by (rule refines_obtain)
  show ?thesis
  proof (cases "iid req \<le> snd ?s")
    case True
    then show ?thesis using a' ok
      by (intro acc_stepI [of _ a' "[]"]) (simp_all add: evacceptor_handle_prepare_def spec_prepare_def acc_ok_def)
  next
    case False
    let ?r = "prepared ?i req (fst ?s (iid req))"
    note step = prepare_safe [OF net safe refl _ False, unfolded aid, OF i(1)]
    have r: "aid ?r = aid_of ?i" by (rule prepared_reports(2) [OF safe refl])
    show ?thesis
      using a' False step aid r
      by (intro acc_stepI [of _ a' "[(ToPeer, PAXOS_PROMISE ?r)]"])
        (simp_all add: evacceptor_handle_prepare_def spec_prepare_def acc_ok_def Let_def)
  qed
qed

lemma handle_accept_step:
  assumes ok: "acc_ok n W M i a" and i: "i < n" "n \<le> 65536" and room: "acceptor_room a"
    and req: "PAXOS_ACCEPT req \<in> M"
  shows "acc_step n W M i (evacceptor_handle_accept a req)"
proof -
  let ?s = "mem_acc_abs a" and ?i = "int i"
  have net: "net_inv n W M" and inv: "mem_acc_inv ?i a" and safe: "acc_safe M (aid_of ?i) ?s"
    using ok by (simp_all add: acc_ok_def)
  have aid: "unat (aid_of ?i) = i" by (rule unat_aid_of [OF i])
  have wf: "value_wf (pvalue req)" using net_inv_accept [OF net req] by (simp add: ok_value_def)
  obtain a' where a': "acceptor_receive_accept a req = Some (a', snd (spec_accept ?i ?s req))"
    "mem_acc_inv ?i a'" "mem_acc_abs a' = fst (spec_accept ?i ?s req)"
    using mem_accept_refines [OF inv room wf] by (rule refines_obtain)
  consider (trimmed) "iid req \<le> snd ?s" | (vote) "\<not> iid req \<le> snd ?s" "may_vote (fst ?s (iid req)) req"
    | (preempted) "\<not> iid req \<le> snd ?s" "\<not> may_vote (fst ?s (iid req)) req" by blast
  then show ?thesis
  proof cases
    case trimmed
    then show ?thesis using a' ok
      by (intro acc_stepI [of _ a' "[]"]) (simp_all add: evacceptor_handle_accept_def spec_accept_def acc_ok_def)
  next
    case vote
    note step = vote_safe [OF net safe refl _ vote(1) req vote(2), unfolded aid, OF i(1)]
    show ?thesis
      using a' vote step aid
      by (intro acc_stepI [of _ a' "[(ToClients, PAXOS_ACCEPTED (vote ?i req))]"])
        (simp_all add: evacceptor_handle_accept_def spec_accept_def acc_ok_def, simp_all add: vote_def)
  next
    case preempted
    let ?m = "paxos_accepted_to_preempted ?i (the (fst ?s (iid req)))"
    obtain r where r: "?m = PAXOS_PREEMPTED r" by (simp add: paxos_accepted_to_preempted_def)
    have "mem_acc_abs a' = ?s" using a'(3) preempted by (simp add: spec_accept_def)
    then have "acc_ok n W M i a'" using a'(2) ok by (simp add: acc_ok_def)
    then have "acc_ok n W (insert ?m M) i a'" by (rule acc_ok_inert) (simp add: r)
    then show ?thesis
      using a'(1) preempted
      by (intro acc_stepI [of _ a' "[(ToPeer, ?m)]"]) (simp_all add: evacceptor_handle_accept_def spec_accept_def r)
  qed
qed

lemma handle_trim_step:
  assumes ok: "acc_ok n W M i a"
  shows "acc_step n W M i (evacceptor_handle_trim a t)"
proof -
  let ?s = "mem_acc_abs a" and ?i = "int i"
  have inv: "mem_acc_inv ?i a" and safe: "acc_safe M (aid_of ?i) ?s" using ok by (simp_all add: acc_ok_def)
  obtain a' where a': "acceptor_receive_trim a t = Some (a', snd (spec_trim ?s t))"
    "mem_acc_inv ?i a'" "mem_acc_abs a' = fst (spec_trim ?s t)"
    using mem_trim_refines [OF inv, of t] by (rule refines_obtain)
  have "acc_safe M (aid_of ?i) (mem_acc_abs a')"
    using safe trim_safe [OF safe, of "trim_iid t"] by (simp add: a'(3) spec_trim_def)
  then show ?thesis
    using a' ok by (intro acc_stepI [of _ a' "[]"]) (simp_all add: evacceptor_handle_trim_def acc_ok_def)
qed

lemma send_acceptor_state_step:
  assumes ok: "acc_ok n W M i a"
  shows "acc_step n W M i (Some (send_acceptor_state a))"
  using acc_ok_inert [OF ok] by (intro acc_stepI) (auto simp: send_acceptor_state_def)

section \<open>Repeat requests\<close>

definition iid_range :: "iid_t \<Rightarrow> iid_t \<Rightarrow> iid_t list" where
  "iid_range f t = map of_nat [unat f..<Suc (unat t)]"

definition repeated :: "acc_spec \<Rightarrow> iid_t \<Rightarrow> iid_t \<Rightarrow> paxos_accepted list" where
  "repeated s f t = List.map_filter (\<lambda>k. snd (spec_repeat s k)) (iid_range f t)"

definition replies :: "paxos_accepted list \<Rightarrow> sends" where
  "replies rs = map (\<lambda>r. (ToPeer, PAXOS_ACCEPTED r)) rs"

lemma iid_range_step:
  assumes "f \<le> t" "t \<noteq> - 1"
  shows "iid_range f t = f # iid_range (f + 1) t" "unat (f + 1) = Suc (unat f)"
proof -
  have "f \<noteq> - 1" using assms by (metis word_order.extremum_unique)
  then have "1 + f \<noteq> 0" by (metis add_eq_0_iff)
  then show "unat (f + 1) = Suc (unat f)" using unatSuc [of f] by (simp add: add.commute)
  moreover have "[unat f..<Suc (unat t)] = unat f # [Suc (unat f)..<Suc (unat t)]"
    using assms(1) by (intro upt_conv_Cons) (simp add: word_le_nat_alt)
  ultimately show "iid_range f t = f # iid_range (f + 1) t" unfolding iid_range_def by simp
qed

lemma iid_range_empty: "\<not> f \<le> t \<Longrightarrow> iid_range f t = []"
  by (simp add: iid_range_def word_le_nat_alt)

lemma repeat_loop_spec:
  assumes "mem_acc_inv i a" "t \<noteq> - 1"
  shows "\<exists>a'. evacceptor_repeat_loop a f t out = Some (a', out @ replies (repeated (mem_acc_abs a) f t)) \<and>
    mem_acc_inv i a' \<and> mem_acc_abs a' = mem_acc_abs a"
  using assms(1)
proof (induction "Suc (unat t) - unat f" arbitrary: a f out rule: less_induct)
  case less
  show ?case
  proof (cases "f \<le> t")
    case False
    then have "evacceptor_repeat_loop a f t out = Some (a, out)" by (subst evacceptor_repeat_loop.simps) simp
    then show ?thesis
      using False less.prems by (simp add: repeated_def replies_def iid_range_empty map_filter_def)
  next
    case True
    note range = iid_range_step [OF True assms(2)]
    let ?x = "snd (spec_repeat (mem_acc_abs a) f)"
    let ?o = "out @ (case ?x of Some r \<Rightarrow> [(ToPeer, PAXOS_ACCEPTED r)] | None \<Rightarrow> [])"
    obtain a1 where a1: "acceptor_receive_repeat a f = Some (a1, ?x)" "mem_acc_inv i a1"
      "mem_acc_abs a1 = mem_acc_abs a"
      using mem_repeat_refines [OF less.prems, of f] by (rule refines_obtain) (simp add: spec_repeat_def)
    have "Suc (unat t) - unat (f + 1) < Suc (unat t) - unat f"
      using True range(2) by (simp add: word_le_nat_alt)
    from less.hyps [OF this a1(2), of ?o]
    obtain a' where "evacceptor_repeat_loop a1 (f + 1) t ?o =
        Some (a', ?o @ replies (repeated (mem_acc_abs a) (f + 1) t))" "mem_acc_inv i a'" "mem_acc_abs a' = mem_acc_abs a"
      unfolding a1(3) by blast
    then show ?thesis
      using a1(1) True range(1)
      by (subst evacceptor_repeat_loop.simps) (auto simp: repeated_def replies_def map_filter_def split: option.splits)
  qed
qed

text \<open>With the largest identifier as its end the loop never returns.\<close>

lemma repeat_loop_diverges:
  assumes "evacceptor_repeat_loop a f t out = Some y"
  shows "t \<noteq> - 1"
proof (rule evacceptor_repeat_loop.raw_induct [where P = "\<lambda>a f t out y. t \<noteq> - 1", OF _ assms])
  fix loop :: "'a acceptor \<Rightarrow> iid_t \<Rightarrow> iid_t \<Rightarrow> sends \<Rightarrow> ('a acceptor \<times> sends) option" and a f t out y
  assume ih: "\<And>a f t out y. loop a f t out = Some y \<Longrightarrow> t \<noteq> - 1"
    and step: "(if f \<le> t then acceptor_receive_repeat a f \<bind> (\<lambda>(a, acc). loop a (f + 1) t
      (out @ (case acc of Some r \<Rightarrow> [(ToPeer, PAXOS_ACCEPTED r)] | None \<Rightarrow> []))) else Some (a, out)) = Some y"
  show "t \<noteq> - 1"
  proof (cases "f \<le> t")
    case True
    then obtain a' out' where "loop a' (f + 1) t out' = Some y" using step by (auto simp: bind_eq_Some_conv)
    then show ?thesis by (rule ih)
  next
    case False
    then show ?thesis by auto
  qed
qed

lemma repeated_set: "r \<in> set (repeated s f t) \<Longrightarrow> \<exists>k. fst s k = Some r \<and> 0 < paxos_value_len (pvalue r)"
  by (auto simp: repeated_def map_filter_def spec_repeat_def split: option.splits if_splits)

text \<open>Repeating a vote that was sent.\<close>

lemma revote_safe:
  assumes net: "net_inv n W M" and r': "PAXOS_ACCEPTED r' \<in> M" "iid r' = iid r" "aid r' = aid r"
    "ballot r' = ballot r" "pvalue r' = pvalue r"
  shows "net_inv n W (insert (PAXOS_ACCEPTED r) M)"
    and "acc_safe M a s \<Longrightarrow> acc_safe (insert (PAXOS_ACCEPTED r) M) a s"
proof -
  let ?M = "insert (PAXOS_ACCEPTED r) M"
  have sub: "M \<subseteq> ?M" by blast
  have "votes_inv n ?M"
    using net r' unfolding net_inv_def votes_inv_def by auto metis
  moreover have "one_value ?M" using net unfolding net_inv_def one_value_def by blast
  moreover have "accepts_inv n W ?M" using net safe_mono [OF _ sub] unfolding net_inv_def accepts_inv_def by blast
  moreover have "promises_inv n ?M"
    using net net_inv_promise_vote [OF net _ r'(1), unfolded r'(2-4)] reports_mono [OF _ sub]
    unfolding net_inv_def promises_inv_def by auto
  ultimately show "net_inv n W ?M" by (simp add: net_inv_def)
  show "acc_safe ?M a s" if safe: "acc_safe M a s"
    using safe r' reports_mono [OF _ sub] acc_safe_vote [OF safe r'(1)] unfolding acc_safe_def by auto
qed

definition plain_vote :: "paxos_accepted \<Rightarrow> bool" where
  "plain_vote r \<longleftrightarrow> ballot r = value_ballot r"

lemma replies_safe:
  assumes "acc_ok n W M i a" "i < n" "n \<le> 65536" "\<And>r. r \<in> set rs \<Longrightarrow> plain_vote r"
    and "\<And>r. r \<in> set rs \<Longrightarrow> \<exists>k. fst (mem_acc_abs a) k = Some r \<and> 0 < paxos_value_len (pvalue r)"
  shows "acc_ok n W (M \<union> msgs (replies rs)) i a \<and> (\<forall>m \<in> msgs (replies rs). acc_msg i m)"
  using assms
proof (induction rs arbitrary: M)
  case Nil
  then show ?case by (simp add: replies_def)
next
  case (Cons r rs)
  have safe: "acc_safe M (aid_of (int i)) (mem_acc_abs a)" and net: "net_inv n W M"
    using Cons.prems(1) by (simp_all add: acc_ok_def)
  obtain k where k: "fst (mem_acc_abs a) k = Some r" "0 < paxos_value_len (pvalue r)"
    using Cons.prems(5) [of r] by auto
  note rec = acc_safe_record [OF safe k(1)]
  have "voted M r" using rec k(2) by (auto simp: reports_def no_value_def)
  then obtain r' where "PAXOS_ACCEPTED r' \<in> M" "iid r' = iid r" "aid r' = aid r" "ballot r' = ballot r" "pvalue r' = pvalue r"
    using Cons.prems(4) [of r] by (auto simp: voted_def plain_vote_def)
  from revote_safe [OF net this] have "acc_ok n W (insert (PAXOS_ACCEPTED r) M) i a"
    using Cons.prems(1) safe by (simp add: acc_ok_def)
  then have "acc_ok n W (insert (PAXOS_ACCEPTED r) M \<union> msgs (replies rs)) i a \<and> (\<forall>m \<in> msgs (replies rs). acc_msg i m)"
    by (rule Cons.IH) (use Cons.prems in auto)
  then show ?case using rec unat_aid_of [OF Cons.prems(2,3)] by (simp add: replies_def)
qed

lemma handle_repeat_step:
  assumes ok: "acc_ok n W M i a" and i: "i < n" "n \<le> 65536" and t: "repeat_to rep \<noteq> - 1"
    and plain: "\<And>r. r \<in> set (repeated (mem_acc_abs a) (repeat_from rep) (repeat_to rep)) \<Longrightarrow> plain_vote r"
  shows "acc_step n W M i (evacceptor_handle_repeat a rep)"
proof -
  let ?rs = "repeated (mem_acc_abs a) (repeat_from rep) (repeat_to rep)"
  have inv: "mem_acc_inv (int i) a" using ok by (simp add: acc_ok_def)
  from repeat_loop_spec [OF inv t, of "repeat_from rep" "[]"]
  obtain a' where a': "evacceptor_handle_repeat a rep = Some (a', replies ?rs)" "mem_acc_inv (int i) a'"
    "mem_acc_abs a' = mem_acc_abs a" by (auto simp: evacceptor_handle_repeat_def)
  note r = replies_safe [OF ok i plain repeated_set]
  show ?thesis using a' r by (intro acc_stepI [OF a'(1)]) (simp_all add: acc_ok_def)
qed

section \<open>Learners\<close>

abbreviation sent_votes :: "net \<Rightarrow> paxos_accepted \<Rightarrow> bool" where
  "sent_votes M \<equiv> \<lambda>r. PAXOS_ACCEPTED r \<in> M"

text \<open>A run of deliveries: consecutive instances, each with a chosen value.\<close>

definition delivers :: "nat \<Rightarrow> net \<Rightarrow> iid_t \<Rightarrow> delivery list \<Rightarrow> bool" where
  "delivers n M k ds \<longleftrightarrow> (\<forall>j < length ds. \<exists>r. ds ! j = delivery_of r \<and> iid r = k + of_nat j \<and>
     closes (sent_votes M) n r)"

lemma delivers_Cons:
  "delivers n M k (delivery_of r # ds) \<longleftrightarrow> (\<exists>r'. delivery_of r = delivery_of r' \<and> iid r' = k \<and> closes (sent_votes M) n r') \<and>
    delivers n M (k + 1) ds"
  unfolding delivers_def by (simp add: All_less_Suc2 add.assoc)

text \<open>The delivery loop ends, because every delivery removes an instance.\<close>

lemma deliver_loop_spec:
  assumes "learner_inv (sent_votes M) n l"
  shows "\<exists>l' ds'. evlearner_deliver_next_closed freed l ds = Some (l', ds @ ds') \<and> learner_inv (sent_votes M) n l' \<and>
    delivers n M (l_current_iid l) ds' \<and> l_current_iid l' = l_current_iid l + of_nat (length ds') \<and>
    l_late_start l' = l_late_start l"
  using assms
proof (induction "card (dom (kh_map (l_instances l)))" arbitrary: l ds rule: less_induct)
  case less
  from less.prems show ?case
  proof (cases rule: learner_deliver_next_spec [where freed = freed])
    case (idle l')
    have "evlearner_deliver_next_closed freed l ds = Some (l', ds)"
      using idle(1) by (subst evlearner_deliver_next_closed.simps) simp
    then show ?thesis using idle(2,3,5) by (intro exI [of _ l'] exI [of _ "[]"]) (simp add: delivers_def)
  next
    case (deliver l' r)
    have "card (dom (kh_map (l_instances l'))) < card (dom (kh_map (l_instances l)))"
      using deliver(7,8) finite_dom_kh_map by (metis card_Diff1_less)
    from less.hyps [OF this deliver(2), of "ds @ [delivery_of r]"]
    obtain l'' ds' where r: "evlearner_deliver_next_closed freed l' (ds @ [delivery_of r]) = Some (l'', (ds @ [delivery_of r]) @ ds')"
      "learner_inv (sent_votes M) n l''" "delivers n M (l_current_iid l') ds'"
      "l_current_iid l'' = l_current_iid l' + of_nat (length ds')" "l_late_start l'' = l_late_start l'" by blast
    have "evlearner_deliver_next_closed freed l ds = Some (l'', ds @ delivery_of r # ds')"
      using deliver(1) r(1) by (subst evlearner_deliver_next_closed.simps) simp
    then show ?thesis
      using r(2-5) deliver(3-5,9)
      by (intro exI [of _ l''] exI [of _ "delivery_of r # ds'"]) (auto simp: delivers_Cons)
  qed
qed

lemma handle_vote_spec:
  assumes net: "net_inv n W M" and inv: "learner_inv (sent_votes M) n l" and room: "kh_room (l_instances l)"
    and ack: "PAXOS_ACCEPTED ack \<in> M"
  obtains l' ds where "evlearner_handle_accepted freed l ack = Some (l', ds)" "learner_inv (sent_votes M) n l'"
    "delivers n M (if l_late_start l then iid ack else l_current_iid l) ds"
    "l_current_iid l' = (if l_late_start l then iid ack else l_current_iid l) + of_nat (length ds)"
    "\<not> l_late_start l'"
proof -
  obtain q where q: "PAXOS_ACCEPT q \<in> M" "pvalue q = pvalue ack" using net ack by (rule net_inv_accepted)
  then have wf: "value_wf (pvalue ack)" using net_inv_accept [OF net q(1)] by (simp add: ok_value_def)
  obtain l1 where l1: "learner_receive_accepted l ack = Some l1" "learner_inv (sent_votes M) n l1"
    "l_current_iid l1 = (if l_late_start l then iid ack else l_current_iid l)" "\<not> l_late_start l1"
    using inv room ack wf by (rule learner_receive_accepted_spec)
  from deliver_loop_spec [OF l1(2), of freed "[]"]
  obtain l' ds where "evlearner_deliver_next_closed freed l1 [] = Some (l', ds)" "learner_inv (sent_votes M) n l'"
    "delivers n M (l_current_iid l1) ds" "l_current_iid l' = l_current_iid l1 + of_nat (length ds)"
    "l_late_start l' = l_late_start l1" by auto
  then show thesis using l1 by (intro that [of l' ds]) (simp_all add: evlearner_handle_accepted_def)
qed

end
