(* ===== verification/Paxos_System.thy ===== *)
theory Paxos_System
  imports Evacceptor_Safety
begin

text \<open>
  A whole system of \<open>n\<close> acceptors over the in-memory storage, the ten proposers that the ballot
  numbers allow, any number of learners and a network, as a step relation. A step runs one
  handler of one process on a message of the network; any message that was ever sent may be
  handled by any process at any time and any number of times, so that loss, duplication,
  delay and reordering are all covered, and a process that takes no step has crashed. The
  application may move a proposer or a learner to another instance at any time; \<open>sys_moved\<close>
  keeps the learners that were moved. A handler that does not return, or that faults, makes no step.
  Two kinds of guards remain. The bounds \<open>acceptor_room\<close>, \<open>evprop_room\<close> and \<open>kh_room\<close> keep the
  containers of a process below the sizes at which their counters wrap around. The flag
  \<open>strict\<close> restricts the runs in two ways: a client does not submit an empty value, and an acceptor
  does not repeat a record whose ballot was raised by a later promise. Without either, the code
  breaks agreement.
\<close>

section \<open>Steps\<close>

record sys =
  sys_acceptors :: "nat \<Rightarrow> mem_storage acceptor"
  sys_proposers :: "nat \<Rightarrow> evproposer"
  sys_learners :: "nat \<Rightarrow> learner"
  sys_net :: net
  sys_values :: "byte list set"
  sys_log :: "nat \<Rightarrow> delivery list"
  sys_moved :: "nat set"

inductive acc_event :: "bool \<Rightarrow> net \<Rightarrow> mem_storage acceptor \<Rightarrow> (mem_storage acceptor \<times> sends) option \<Rightarrow> bool"
  for strict M a where
  prepare: "PAXOS_PREPARE r \<in> M \<Longrightarrow> acceptor_room a \<Longrightarrow>
    acc_event strict M a (evacceptor_handle_prepare a r)"
| accept: "PAXOS_ACCEPT r \<in> M \<Longrightarrow> acceptor_room a \<Longrightarrow>
    acc_event strict M a (evacceptor_handle_accept a r)"
| repeat: "PAXOS_REPEAT r \<in> M \<Longrightarrow>
    (strict \<Longrightarrow> \<forall>x \<in> set (repeated (mem_acc_abs a) (repeat_from r) (repeat_to r)). plain_vote x) \<Longrightarrow>
    acc_event strict M a (evacceptor_handle_repeat a r)"
| trim: "PAXOS_TRIM t \<in> M \<Longrightarrow> acc_event strict M a (evacceptor_handle_trim a t)"
| state: "acc_event strict M a (Some (send_acceptor_state a))"

inductive prop_event :: "paxos_config \<Rightarrow> net \<Rightarrow> evproposer \<Rightarrow> (evproposer \<times> sends) option \<Rightarrow> bool"
  for cfg M p where
  promise: "PAXOS_PROMISE r \<in> M \<Longrightarrow> prop_event cfg M p (evproposer_handle_promise now p r)"
| accepted: "PAXOS_ACCEPTED r \<in> M \<Longrightarrow> prop_event cfg M p (evproposer_handle_accepted now p r)"
| preempted: "PAXOS_PREEMPTED r \<in> M \<Longrightarrow> prop_event cfg M p (evproposer_handle_preempted now p r)"
| client_value: "PAXOS_CLIENT_VALUE v \<in> M \<Longrightarrow> prop_event cfg M p (evproposer_handle_client_value now p v)"
| acceptor_state: "PAXOS_ACCEPTOR_STATE st \<in> M \<Longrightarrow> prop_event cfg M p (evproposer_handle_acceptor_state p st)"
| timeouts: "prop_event cfg M p (evproposer_check_timeouts cfg t p)"
| preexec: "prop_event cfg M p (evproposer_preexec_once now p)"
| set_instance: "prop_event cfg M p (map_option (\<lambda>p. (p, [])) (evproposer_set_instance_id p i))"

inductive learner_event :: "net \<Rightarrow> learner \<Rightarrow> (learner \<times> sends \<times> delivery list) option \<Rightarrow> bool"
  for M l where
  vote: "PAXOS_ACCEPTED r \<in> M \<Longrightarrow> kh_room (l_instances l) \<Longrightarrow>
    learner_event M l (map_option (\<lambda>(l, ds). (l, [], ds)) (evlearner_handle_accepted freed l r))"
| holes: "learner_event M l (Some (l, evlearner_check_holes l, []))"
| send_trim: "learner_event M l (Some (l, evlearner_send_trim i, []))"

inductive sys_step :: "nat \<Rightarrow> paxos_config \<Rightarrow> bool \<Rightarrow> sys \<Rightarrow> sys \<Rightarrow> bool" for n cfg strict s where
  submit: "value_wf v \<Longrightarrow> (strict \<Longrightarrow> 0 < paxos_value_len v) \<Longrightarrow>
    sys_step n cfg strict s (s\<lparr>sys_net := insert (PAXOS_CLIENT_VALUE \<lparr>client_value = v\<rparr>) (sys_net s),
      sys_values := insert (value_bytes v) (sys_values s)\<rparr>)"
| acceptor: "i < n \<Longrightarrow> acc_event strict (sys_net s) (sys_acceptors s i) (Some (a, out)) \<Longrightarrow>
    sys_step n cfg strict s (s\<lparr>sys_acceptors := (sys_acceptors s)(i := a), sys_net := sys_net s \<union> msgs out\<rparr>)"
| proposer: "i < MAX_N_OF_PROPOSERS \<Longrightarrow> evprop_room (sys_proposers s i) \<Longrightarrow>
    prop_event cfg (sys_net s) (sys_proposers s i) (Some (p, out)) \<Longrightarrow>
    sys_step n cfg strict s (s\<lparr>sys_proposers := (sys_proposers s)(i := p), sys_net := sys_net s \<union> msgs out\<rparr>)"
| learner: "learner_event (sys_net s) (sys_learners s i) (Some (l, out, ds)) \<Longrightarrow>
    sys_step n cfg strict s (s\<lparr>sys_learners := (sys_learners s)(i := l), sys_net := sys_net s \<union> msgs out,
      sys_log := (sys_log s)(i := sys_log s i @ ds)\<rparr>)"
| learner_set_instance:
    "sys_step n cfg strict s (s\<lparr>sys_learners := (sys_learners s)(i := evlearner_set_instance_id (sys_learners s i) k),
      sys_moved := insert i (sys_moved s)\<rparr>)"

definition sys_init :: "nat \<Rightarrow> paxos_config \<Rightarrow> sys \<Rightarrow> bool" where
  "sys_init n cfg s \<longleftrightarrow>
    (\<forall>i < n. acceptor_new cfg (int i) = Some (Some (sys_acceptors s i))) \<and>
    (\<forall>i < MAX_N_OF_PROPOSERS. evproposer_init_internal cfg (int i) (int n) = Some (sys_proposers s i)) \<and>
    (\<forall>i. sys_learners s i = learner_new cfg (int n)) \<and>
    sys_net s = {} \<and> sys_values s = {} \<and> (\<forall>i. sys_log s i = []) \<and> sys_moved s = {}"

inductive reachable :: "nat \<Rightarrow> paxos_config \<Rightarrow> bool \<Rightarrow> sys \<Rightarrow> bool" for n cfg strict where
  init: "sys_init n cfg s \<Longrightarrow> reachable n cfg strict s"
| step: "reachable n cfg strict s \<Longrightarrow> sys_step n cfg strict s s' \<Longrightarrow> reachable n cfg strict s'"

section \<open>Events keep the invariant of their process\<close>

text \<open>The client values on the network were submitted.\<close>

definition values_inv :: "byte list set \<Rightarrow> net \<Rightarrow> bool" where
  "values_inv W M \<longleftrightarrow> (\<forall>v. PAXOS_CLIENT_VALUE v \<in> M \<longrightarrow> ok_value W (client_value v))"

lemma repeat_to_max_diverges: "repeat_to r = - 1 \<Longrightarrow> evacceptor_handle_repeat a r = None"
  using repeat_loop_diverges [of a "repeat_from r" "- 1" "[]"]
  by (cases "evacceptor_repeat_loop a (repeat_from r) (- 1) []") (auto simp: evacceptor_handle_repeat_def)

lemma preexec_once_step:
  "prop_ok n W M (ep_state p) \<Longrightarrow> evprop_room p \<Longrightarrow> evprop_step n W M p (evproposer_preexec_once now p)"
  using preexecute_step [of n W M p now] by (simp add: evproposer_preexec_once_def evprop_room_def)

lemma acc_event_step:
  assumes ev: "acc_event True M a (Some x)" and ok: "acc_ok n W M i a" and i: "i < n" "n \<le> 65536"
  shows "acc_step n W M i (Some x)"
  using ev
proof cases
  case (prepare r)
  then show ?thesis using handle_prepare_step [OF ok i] by metis
next
  case (accept r)
  then show ?thesis using handle_accept_step [OF ok i] by metis
next
  case (repeat r)
  have "repeat_to r \<noteq> - 1" using repeat_to_max_diverges [of r a] repeat(1) by auto
  then show ?thesis using handle_repeat_step [OF ok i] repeat by metis
next
  case (trim t)
  then show ?thesis using handle_trim_step [OF ok] by metis
next
  case state
  then show ?thesis using send_acceptor_state_step [OF ok] by simp
qed

lemma prop_event_step:
  assumes ev: "prop_event cfg M p (Some x)" and ok: "prop_ok n W M (ep_state p)" and room: "evprop_room p"
    and vals: "values_inv W M"
  shows "evprop_step n W M p (Some x)"
  using ev
proof cases
  case (promise r now)
  then show ?thesis using handle_promise_step [OF ok room] by metis
next
  case (accepted r now)
  then show ?thesis using handle_accepted_step [OF ok room] by metis
next
  case (preempted r now)
  then show ?thesis using handle_preempted_step [OF ok room] by metis
next
  case (client_value v now)
  then show ?thesis using handle_client_value_step [OF ok room] vals by (metis values_inv_def)
next
  case (acceptor_state st)
  then show ?thesis using handle_acceptor_state_step [OF ok room] by metis
next
  case (timeouts t)
  then show ?thesis using check_timeouts_safe [OF ok] by metis
next
  case (preexec now)
  then show ?thesis
    using preexec_once_step [OF ok room] by metis
next
  case (set_instance i)
  obtain p' where "evproposer_set_instance_id p i = Some p'" "prop_step n W M (ep_state p) [] (ep_state p')"
    "ep_preexec_window p' = ep_preexec_window p" using ok room by (rule set_instance_id_step)
  then show ?thesis using set_instance by (intro evprop_stepI [of _ p' "[]"]) simp_all
qed

section \<open>The invariant of the system\<close>

text \<open>
  Each delivery of a learner has a quorum of votes. A learner that was not moved delivers
  one instance after the other, from the first one on if it catches up.
\<close>

definition all_closed :: "nat \<Rightarrow> net \<Rightarrow> delivery list \<Rightarrow> bool" where
  "all_closed n M ds \<longleftrightarrow> (\<forall>d \<in> set ds. \<exists>r. d = delivery_of r \<and> closes (sent_votes M) n r)"

definition log_inv :: "paxos_config \<Rightarrow> nat \<Rightarrow> net \<Rightarrow> bool \<Rightarrow> learner \<Rightarrow> delivery list \<Rightarrow> bool" where
  "log_inv cfg n M moved l ds \<longleftrightarrow> all_closed n M ds \<and> (moved \<or>
    (if l_late_start l then ds = [] \<and> learner_catch_up cfg = 0
     else \<exists>k. delivers n M k ds \<and> l_current_iid l = k + of_nat (length ds) \<and>
       (learner_catch_up cfg \<noteq> 0 \<longrightarrow> k = 1)))"

definition sys_inv :: "nat \<Rightarrow> paxos_config \<Rightarrow> sys \<Rightarrow> bool" where
  "sys_inv n cfg s \<longleftrightarrow> net_inv n (sys_values s) (sys_net s) \<and> values_inv (sys_values s) (sys_net s) \<and>
    (\<forall>i < n. acc_ok n (sys_values s) (sys_net s) i (sys_acceptors s i)) \<and>
    (\<forall>i < MAX_N_OF_PROPOSERS. prop_ok n (sys_values s) (sys_net s) (ep_state (sys_proposers s i)) \<and>
       p_id (ep_state (sys_proposers s i)) = int i) \<and>
    (\<forall>i. learner_inv (sent_votes (sys_net s)) n (sys_learners s i) \<and>
       log_inv cfg n (sys_net s) (i \<in> sys_moved s) (sys_learners s i) (sys_log s i))"

lemma sys_invD:
  assumes "sys_inv n cfg s"
  shows "net_inv n (sys_values s) (sys_net s)" "values_inv (sys_values s) (sys_net s)"
    "i < n \<Longrightarrow> acc_ok n (sys_values s) (sys_net s) i (sys_acceptors s i)"
    "j < MAX_N_OF_PROPOSERS \<Longrightarrow> prop_ok n (sys_values s) (sys_net s) (ep_state (sys_proposers s j))"
    "j < MAX_N_OF_PROPOSERS \<Longrightarrow> p_id (ep_state (sys_proposers s j)) = int j"
    "learner_inv (sent_votes (sys_net s)) n (sys_learners s l)"
    "log_inv cfg n (sys_net s) (l \<in> sys_moved s) (sys_learners s l) (sys_log s l)"
  using assms by (simp_all add: sys_inv_def)

lemma closes_mono:
  assumes "closes P n r" "\<And>r. P r \<Longrightarrow> Q r"
  shows "closes Q n r"
proof -
  obtain S where S: "S \<subseteq> {..<n}" "paxos_quorum (int n) \<le> int (card S)"
    "\<forall>a \<in> S. \<exists>r'. P r' \<and> iid r' = iid r \<and> unat (aid r') = a \<and> ballot r' = ballot r"
    using assms(1) unfolding closes_def by blast
  have "\<forall>a \<in> S. \<exists>r'. Q r' \<and> iid r' = iid r \<and> unat (aid r') = a \<and> ballot r' = ballot r"
    using S(3) assms(2) by meson
  then show ?thesis using S(1,2) assms unfolding closes_def by (intro conjI exI [of _ S]) simp_all
qed

lemma delivers_mono:
  assumes "delivers n M k ds" "M \<subseteq> M'"
  shows "delivers n M' k ds"
proof -
  have "closes (sent_votes M') n r" if "closes (sent_votes M) n r" for r
    using that by (rule closes_mono) (use assms(2) in blast)
  then show ?thesis using assms(1) unfolding delivers_def by meson
qed

lemma all_closed_mono:
  assumes "all_closed n M ds" "M \<subseteq> M'"
  shows "all_closed n M' ds"
proof -
  have "closes (sent_votes M') n r" if "closes (sent_votes M) n r" for r
    using that by (rule closes_mono) (use assms(2) in blast)
  then show ?thesis using assms(1) unfolding all_closed_def by meson
qed

lemma delivers_all_closed: "delivers n M k ds \<Longrightarrow> all_closed n M ds"
  unfolding delivers_def all_closed_def by (metis in_set_conv_nth)

lemma log_inv_mono: "log_inv cfg n M moved l ds \<Longrightarrow> M \<subseteq> M' \<Longrightarrow> log_inv cfg n M' moved l ds"
  unfolding log_inv_def using delivers_mono all_closed_mono by (auto split: if_splits)

lemma delivers_append:
  assumes "delivers n M k ds" "delivers n M (k + of_nat (length ds)) ds'"
  shows "delivers n M k (ds @ ds')"
  unfolding delivers_def
proof (intro allI impI)
  fix j
  assume j: "j < length (ds @ ds')"
  show "\<exists>r. (ds @ ds') ! j = delivery_of r \<and> iid r = k + of_nat j \<and> closes (sent_votes M) n r"
  proof (cases "j < length ds")
    case True
    then show ?thesis using assms(1) by (simp add: delivers_def nth_append)
  next
    case False
    then obtain d where d: "j = length ds + d" by (metis le_Suc_ex not_less)
    then have "d < length ds'" using j by simp
    then obtain r where "ds' ! d = delivery_of r" "iid r = k + of_nat (length ds) + of_nat d" "closes (sent_votes M) n r"
      using assms(2) unfolding delivers_def by meson
    then show ?thesis unfolding d by (intro exI [of _ r]) (simp add: nth_append add.assoc)
  qed
qed

text \<open>Messages of one process do not touch another process.\<close>

lemma acc_ok_other:
  assumes ok: "acc_ok n W M j a" and net: "net_inv n W' M'" and sub: "M \<subseteq> M'"
    and new: "\<And>m. m \<in> M' \<Longrightarrow> m \<notin> M \<Longrightarrow> inert m \<or> (\<exists>q. m = PAXOS_ACCEPT q) \<or> (i \<noteq> j \<and> acc_msg i m)"
    and j: "j < n" "n \<le> 65536"
  shows "acc_ok n W' M' j a"
proof -
  have aid: "unat (aid_of (int j)) = j" by (rule unat_aid_of [OF j])
  have own: "unat (aid p) = j" if "aid p = aid_of (int j)" for p :: paxos_record unfolding that by (rule aid)
  have promise: "PAXOS_PROMISE p \<in> M" if p: "PAXOS_PROMISE p \<in> M'" "aid p = aid_of (int j)" for p
  proof (rule ccontr)
    assume "PAXOS_PROMISE p \<notin> M"
    from new [OF p(1) this] own [OF p(2)] show False by auto
  qed
  have vote: "PAXOS_ACCEPTED p \<in> M" if p: "PAXOS_ACCEPTED p \<in> M'" "aid p = aid_of (int j)" for p
  proof (rule ccontr)
    assume "PAXOS_ACCEPTED p \<notin> M"
    from new [OF p(1) this] own [OF p(2)] show False by auto
  qed
  have "acc_safe M (aid_of (int j)) (mem_acc_abs a)" using ok unfolding acc_ok_def by blast
  from acc_safe_mono [OF this sub promise vote] show ?thesis using ok net unfolding acc_ok_def by blast
qed

lemma prop_ok_other:
  assumes ok: "prop_ok n W M p" and net: "net_inv n W' M'" and sub: "M \<subseteq> M'" "W \<subseteq> W'"
    and new: "\<And>q. PAXOS_ACCEPT q \<in> M' \<Longrightarrow> PAXOS_ACCEPT q \<notin> M \<Longrightarrow> uint (ballot q) mod 10 \<noteq> p_id p"
  shows "prop_ok n W' M' p"
proof -
  have safe: "prop_safe n W M (prop_abs p)" using ok unfolding prop_ok_def by blast
  have "own_accept M (s_id (prop_abs p)) q" if "own_accept M' (s_id (prop_abs p)) q" for q
    using that new [of q] unfolding own_accept_def prop_abs_simps(1) by blast
  from prop_safe_mono [OF safe sub this] show ?thesis using ok net unfolding prop_ok_def by blast
qed

lemma values_inv_mono:
  "values_inv W M \<Longrightarrow> (\<And>v. PAXOS_CLIENT_VALUE v \<in> M' \<Longrightarrow> PAXOS_CLIENT_VALUE v \<in> M) \<Longrightarrow> values_inv W M'"
  unfolding values_inv_def by blast

lemma learner_inv_net: "learner_inv (sent_votes M) n l \<Longrightarrow> M \<subseteq> M' \<Longrightarrow> learner_inv (sent_votes M') n l"
  using learner_inv_mono [of "sent_votes M" n l "sent_votes M'"] by blast

section \<open>Steps keep the invariant\<close>

lemma sys_invI:
  assumes "net_inv n (sys_values s) (sys_net s)" "values_inv (sys_values s) (sys_net s)"
    and "\<And>i. i < n \<Longrightarrow> acc_ok n (sys_values s) (sys_net s) i (sys_acceptors s i)"
    and "\<And>i. i < MAX_N_OF_PROPOSERS \<Longrightarrow> prop_ok n (sys_values s) (sys_net s) (ep_state (sys_proposers s i))"
    and "\<And>i. i < MAX_N_OF_PROPOSERS \<Longrightarrow> p_id (ep_state (sys_proposers s i)) = int i"
    and "\<And>i. learner_inv (sent_votes (sys_net s)) n (sys_learners s i)"
    and "\<And>i. log_inv cfg n (sys_net s) (i \<in> sys_moved s) (sys_learners s i) (sys_log s i)"
  shows "sys_inv n cfg s"
  using assms by (simp add: sys_inv_def)

lemma acceptor_step_inv:
  assumes inv: "sys_inv n cfg s" and n: "n \<le> 65536" and i: "i < n"
    and ev: "acc_event True (sys_net s) (sys_acceptors s i) (Some (a, out))"
  shows "sys_inv n cfg (s\<lparr>sys_acceptors := (sys_acceptors s)(i := a), sys_net := sys_net s \<union> msgs out\<rparr>)"
proof -
  let ?M = "sys_net s \<union> msgs out" and ?W = "sys_values s"
  have sub: "sys_net s \<subseteq> ?M" by blast
  have own: "acc_ok n ?W ?M i a" and msg: "\<And>m. m \<in> msgs out \<Longrightarrow> acc_msg i m"
    using acc_event_step [OF ev sys_invD(3) [OF inv i] i n] by (auto simp: acc_step_def)
  have net: "net_inv n ?W ?M" using own by (simp add: acc_ok_def)
  have new: "acc_msg i m" if "m \<in> ?M" "m \<notin> sys_net s" for m using that msg by blast
  have "acc_ok n ?W ?M j (sys_acceptors s j)" if "j < n" "j \<noteq> i" for j
    by (rule acc_ok_other [OF sys_invD(3) [OF inv that(1)] net sub, of i]) (use new that n in auto)
  moreover have "prop_ok n ?W ?M (ep_state (sys_proposers s j))" if "j < MAX_N_OF_PROPOSERS" for j
    by (rule prop_ok_other [OF sys_invD(4) [OF inv that] net sub order_refl]) (use msg in fastforce)
  moreover have "values_inv ?W ?M"
    by (rule values_inv_mono [OF sys_invD(2) [OF inv]]) (use msg in fastforce)
  ultimately show ?thesis
    using own net sys_invD(5) [OF inv] learner_inv_net [OF sys_invD(6) [OF inv] sub]
      log_inv_mono [OF sys_invD(7) [OF inv] sub]
    by (intro sys_invI) auto
qed

lemma proposer_step_inv:
  assumes inv: "sys_inv n cfg s" and n: "n \<le> 65536" and i: "i < MAX_N_OF_PROPOSERS"
    and room: "evprop_room (sys_proposers s i)"
    and ev: "prop_event cfg (sys_net s) (sys_proposers s i) (Some (p, out))"
  shows "sys_inv n cfg (s\<lparr>sys_proposers := (sys_proposers s)(i := p), sys_net := sys_net s \<union> msgs out\<rparr>)"
proof -
  let ?M = "sys_net s \<union> msgs out" and ?W = "sys_values s"
  have sub: "sys_net s \<subseteq> ?M" by blast
  have own: "prop_ok n ?W ?M (ep_state p)" "p_id (ep_state p) = int i"
    and msg: "\<And>m. m \<in> msgs out \<Longrightarrow> prop_msg (int i) m"
    using prop_event_step [OF ev sys_invD(4) [OF inv i] room sys_invD(2) [OF inv]] sys_invD(5) [OF inv i]
    by (auto simp: evprop_step_def prop_step_def)
  have net: "net_inv n ?W ?M" using own by (simp add: prop_ok_def)
  have kind: "inert m \<or> (\<exists>q. m = PAXOS_ACCEPT q)" if "m \<in> msgs out" for m
    using msg [OF that] by (cases m) auto
  have "acc_ok n ?W ?M j (sys_acceptors s j)" if "j < n" for j
    by (rule acc_ok_other [OF sys_invD(3) [OF inv that] net sub, of j]) (use kind that n in auto)
  moreover have "prop_ok n ?W ?M (ep_state (sys_proposers s j))" if j: "j < MAX_N_OF_PROPOSERS" "j \<noteq> i" for j
  proof (rule prop_ok_other [OF sys_invD(4) [OF inv j(1)] net sub order_refl])
    fix q
    assume "PAXOS_ACCEPT q \<in> ?M" "PAXOS_ACCEPT q \<notin> sys_net s"
    then have "prop_msg (int i) (PAXOS_ACCEPT q)" using msg by blast
    then show "uint (ballot q) mod 10 \<noteq> p_id (ep_state (sys_proposers s j))"
      using sys_invD(5) [OF inv j(1)] j(2) by simp
  qed
  moreover have "values_inv ?W ?M"
    by (rule values_inv_mono [OF sys_invD(2) [OF inv]]) (use msg in fastforce)
  ultimately show ?thesis
    using own net sys_invD(5) [OF inv] learner_inv_net [OF sys_invD(6) [OF inv] sub]
      log_inv_mono [OF sys_invD(7) [OF inv] sub]
    by (intro sys_invI) auto
qed

lemma net_inv_inerts: "net_inv n W M \<Longrightarrow> \<forall>m \<in> msgs out. inert m \<Longrightarrow> net_inv n W (M \<union> msgs out)"
  by (induction out arbitrary: M) (auto dest: net_inv_inert)

fun learner_msg :: "paxos_message \<Rightarrow> bool" where
  "learner_msg (PAXOS_REPEAT _) \<longleftrightarrow> True"
| "learner_msg (PAXOS_TRIM _) \<longleftrightarrow> True"
| "learner_msg _ \<longleftrightarrow> False"

lemma log_inv_deliver:
  assumes log: "log_inv cfg n M moved l log" and k: "k = (if l_late_start l then k0 else l_current_iid l)"
    and ds: "delivers n M k ds" "l_current_iid l' = k + of_nat (length ds)" "\<not> l_late_start l'"
  shows "log_inv cfg n M moved l' (log @ ds)"
proof -
  have all: "all_closed n M (log @ ds)"
    using log delivers_all_closed [OF ds(1)] by (auto simp: log_inv_def all_closed_def)
  consider moved | "\<not> moved" "l_late_start l" | "\<not> moved" "\<not> l_late_start l" by blast
  then show ?thesis
  proof cases
    case 1
    then show ?thesis using all by (simp add: log_inv_def)
  next
    case 2
    then show ?thesis using log ds all by (auto simp: log_inv_def)
  next
    case 3
    then obtain b where b: "delivers n M b log" "k = b + of_nat (length log)" "learner_catch_up cfg \<noteq> 0 \<longrightarrow> b = 1"
      using log k by (auto simp: log_inv_def)
    then have "delivers n M b (log @ ds)" using delivers_append [OF b(1)] ds(1) by simp
    then show ?thesis using b(2,3) ds(2,3) all by (auto simp: log_inv_def)
  qed
qed

lemma learner_event_spec:
  assumes ev: "learner_event M l res" and net: "net_inv n W M" and inv: "learner_inv (sent_votes M) n l"
    and log: "log_inv cfg n M moved l log"
  obtains l' out ds where "res = Some (l', out, ds)" "\<forall>m \<in> msgs out. learner_msg m"
    "learner_inv (sent_votes M) n l'" "log_inv cfg n M moved l' (log @ ds)"
  using ev
proof cases
  case (vote r freed)
  obtain l' ds where "evlearner_handle_accepted freed l r = Some (l', ds)" "learner_inv (sent_votes M) n l'"
    "delivers n M (if l_late_start l then iid r else l_current_iid l) ds"
    "l_current_iid l' = (if l_late_start l then iid r else l_current_iid l) + of_nat (length ds)" "\<not> l_late_start l'"
    using net inv vote(3,2) by (rule handle_vote_spec)
  then show thesis using vote(1) log_inv_deliver [OF log refl] by (intro that [of l' "[]" ds]) auto
next
  case holes
  then show thesis using inv log
    by (intro that [of l "evlearner_check_holes l" "[]"]) (auto simp: evlearner_check_holes_def split: option.splits)
next
  case (send_trim i)
  then show thesis using inv log
    by (intro that [of l "evlearner_send_trim i" "[]"]) (auto simp: evlearner_send_trim_def)
qed

lemma learner_step_inv:
  assumes inv: "sys_inv n cfg s" and n: "n \<le> 65536"
    and ev: "learner_event (sys_net s) (sys_learners s i) (Some (l, out, ds))"
  shows "sys_inv n cfg (s\<lparr>sys_learners := (sys_learners s)(i := l), sys_net := sys_net s \<union> msgs out,
    sys_log := (sys_log s)(i := sys_log s i @ ds)\<rparr>)"
proof -
  let ?M = "sys_net s \<union> msgs out" and ?W = "sys_values s"
  have sub: "sys_net s \<subseteq> ?M" by blast
  obtain msg: "\<forall>m \<in> msgs out. learner_msg m" and own: "learner_inv (sent_votes (sys_net s)) n l"
    "log_inv cfg n (sys_net s) (i \<in> sys_moved s) l (sys_log s i @ ds)"
    using ev sys_invD(1) [OF inv] sys_invD(6) [OF inv, of i] sys_invD(7) [OF inv, of i] by (rule learner_event_spec) auto
  have kind: "inert m" if "m \<in> msgs out" for m using msg that by (cases m) auto
  have net: "net_inv n ?W ?M" using net_inv_inerts [OF sys_invD(1) [OF inv]] kind by blast
  have "acc_ok n ?W ?M j (sys_acceptors s j)" if "j < n" for j
    by (rule acc_ok_other [OF sys_invD(3) [OF inv that] net sub, of j]) (use kind that n in auto)
  moreover have "prop_ok n ?W ?M (ep_state (sys_proposers s j))" if "j < MAX_N_OF_PROPOSERS" for j
    by (rule prop_ok_other [OF sys_invD(4) [OF inv that] net sub order_refl]) (use msg in fastforce)
  moreover have "values_inv ?W ?M"
    by (rule values_inv_mono [OF sys_invD(2) [OF inv]]) (use msg in fastforce)
  ultimately show ?thesis
    using own net sys_invD(5) [OF inv] learner_inv_net [OF sys_invD(6) [OF inv] sub] learner_inv_net [OF own(1) sub]
      log_inv_mono [OF sys_invD(7) [OF inv] sub] log_inv_mono [OF own(2) sub]
    by (intro sys_invI) auto
qed

lemma learner_set_instance_step_inv:
  assumes inv: "sys_inv n cfg s"
  shows "sys_inv n cfg (s\<lparr>sys_learners := (sys_learners s)(i := evlearner_set_instance_id (sys_learners s i) k),
    sys_moved := insert i (sys_moved s)\<rparr>)"
proof -
  have "learner_inv (sent_votes (sys_net s)) n (evlearner_set_instance_id (sys_learners s i) k)"
    using sys_invD(6) [OF inv, of i]
    by (auto simp: evlearner_set_instance_id_def learner_set_instance_id_def learner_inv_def)
  moreover have "log_inv cfg n (sys_net s) True l (sys_log s i)" for l
    using sys_invD(7) [OF inv, of i] by (simp add: log_inv_def)
  ultimately show ?thesis using sys_invD [OF inv] by (intro sys_invI) (auto split: if_splits)
qed

lemma submit_step_inv:
  assumes inv: "sys_inv n cfg s" and n: "n \<le> 65536" and v: "value_wf v" "0 < paxos_value_len v"
  shows "sys_inv n cfg (s\<lparr>sys_net := insert (PAXOS_CLIENT_VALUE \<lparr>client_value = v\<rparr>) (sys_net s),
    sys_values := insert (value_bytes v) (sys_values s)\<rparr>)"
proof -
  let ?m = "PAXOS_CLIENT_VALUE \<lparr>client_value = v\<rparr>"
  let ?M = "insert ?m (sys_net s)" and ?W = "insert (value_bytes v) (sys_values s)"
  have sub: "sys_net s \<subseteq> ?M" "sys_values s \<subseteq> ?W" by blast+
  have net: "net_inv n ?W ?M"
    using net_inv_mono_values [OF net_inv_inert [OF sys_invD(1) [OF inv]] sub(2), of ?m] by simp
  have "acc_ok n ?W ?M j (sys_acceptors s j)" if "j < n" for j
    by (rule acc_ok_other [OF sys_invD(3) [OF inv that] net sub(1), of j]) (use that n in auto)
  moreover have "prop_ok n ?W ?M (ep_state (sys_proposers s j))" if "j < MAX_N_OF_PROPOSERS" for j
    by (rule prop_ok_other [OF sys_invD(4) [OF inv that] net sub]) auto
  moreover have "values_inv ?W ?M"
    using sys_invD(2) [OF inv] v ok_value_mono [OF _ sub(2)] by (auto simp: values_inv_def ok_value_def)
  ultimately show ?thesis
    using net sys_invD(5) [OF inv] learner_inv_net [OF sys_invD(6) [OF inv] sub(1)]
      log_inv_mono [OF sys_invD(7) [OF inv] sub(1)]
    by (intro sys_invI) auto
qed

section \<open>Reachable states\<close>

lemma acceptor_new_ok:
  assumes "acceptor_new cfg (int i) = Some (Some a)"
  shows "acc_ok n W {} i a"
proof (cases "storage_backend cfg")
  case PAXOS_MEM_STORAGE
  then obtain a' where "acceptor_new cfg (int i) = Some (Some a')" "mem_acc_inv (int i) a'" "mem_acc_abs a' = (Map.empty, 0)"
    by (rule acceptor_new_inv)
  then show ?thesis
    using assms by (simp add: acc_ok_def acc_safe_def net_inv_def votes_inv_def one_value_def accepts_inv_def
      promises_inv_def)
next
  case PAXOS_LMDB_STORAGE
  then show ?thesis using assms by (simp add: acceptor_new_def storage_init_def)
qed

lemma sys_init_inv:
  assumes "sys_init n cfg s"
  shows "sys_inv n cfg s"
proof (rule sys_invI)
  have net: "sys_net s = {}" "sys_values s = {}" using assms by (simp_all add: sys_init_def)
  show "net_inv n (sys_values s) (sys_net s)"
    by (simp add: net net_inv_def votes_inv_def one_value_def accepts_inv_def promises_inv_def)
  show "values_inv (sys_values s) (sys_net s)" by (simp add: net values_inv_def)
  show "acc_ok n (sys_values s) (sys_net s) i (sys_acceptors s i)" if "i < n" for i
    unfolding net by (rule acceptor_new_ok [of cfg]) (use assms that in \<open>simp add: sys_init_def\<close>)
  show "learner_inv (sent_votes (sys_net s)) n (sys_learners s i)" for i
    using assms learner_new_inv by (simp add: sys_init_def)
  show "log_inv cfg n (sys_net s) (i \<in> sys_moved s) (sys_learners s i) (sys_log s i)" for i
    using assms by (simp add: sys_init_def log_inv_def all_closed_def learner_new_def delivers_def)
  fix i
  assume i: "i < MAX_N_OF_PROPOSERS"
  have "0 \<le> int i" "int i < 10" using i by (simp_all add: MAX_N_OF_PROPOSERS_def)
  then obtain p where "evproposer_init_internal cfg (int i) (int n) = Some p" "prop_ok n {} {} (ep_state p)"
    "p_id (ep_state p) = int i" by (rule evproposer_init_ok)
  then show "prop_ok n (sys_values s) (sys_net s) (ep_state (sys_proposers s i))"
    "p_id (ep_state (sys_proposers s i)) = int i" using assms i by (simp_all add: net sys_init_def)
qed

lemma sys_step_inv:
  assumes "sys_step n cfg True s s'" "sys_inv n cfg s" "n \<le> 65536"
  shows "sys_inv n cfg s'"
  using assms(1)
proof cases
  case (submit v)
  then show ?thesis using submit_step_inv [OF assms(2,3)] by simp
next
  case (acceptor i a out)
  then show ?thesis using acceptor_step_inv [OF assms(2,3)] by simp
next
  case (proposer i p out)
  then show ?thesis using proposer_step_inv [OF assms(2,3)] by simp
next
  case (learner i l out ds)
  then show ?thesis using learner_step_inv [OF assms(2,3)] by simp
next
  case (learner_set_instance i k)
  then show ?thesis using learner_set_instance_step_inv [OF assms(2)] by simp
qed

lemma reachable_inv:
  assumes "reachable n cfg True s" "n \<le> 65536"
  shows "sys_inv n cfg s"
  using assms(1) by induction (auto intro: sys_init_inv sys_step_inv [OF _ _ assms(2)])

text \<open>Within their bounds the handlers return in every reachable state.\<close>

lemma acceptor_handlers_return:
  assumes "reachable n cfg True s" "n \<le> 65536" "i < n"
  shows "acceptor_room (sys_acceptors s i) \<Longrightarrow> evacceptor_handle_prepare (sys_acceptors s i) r \<noteq> None"
    and "acceptor_room (sys_acceptors s i) \<Longrightarrow> PAXOS_ACCEPT r \<in> sys_net s \<Longrightarrow>
      evacceptor_handle_accept (sys_acceptors s i) r \<noteq> None"
    and "evacceptor_handle_repeat (sys_acceptors s i) rep \<noteq> None \<longleftrightarrow> repeat_to rep \<noteq> - 1"
    and "evacceptor_handle_trim (sys_acceptors s i) t \<noteq> None"
proof -
  note ok = sys_invD(3) [OF reachable_inv [OF assms(1,2)] assms(3)]
  show "evacceptor_handle_prepare (sys_acceptors s i) r \<noteq> None" if "acceptor_room (sys_acceptors s i)"
    using handle_prepare_step [OF ok assms(3,2) that, of r] by (auto simp: acc_step_def)
  show "evacceptor_handle_accept (sys_acceptors s i) r \<noteq> None" if "acceptor_room (sys_acceptors s i)" "PAXOS_ACCEPT r \<in> sys_net s"
    using handle_accept_step [OF ok assms(3,2) that] by (auto simp: acc_step_def)
  have "mem_acc_inv (int i) (sys_acceptors s i)" using ok by (simp add: acc_ok_def)
  then show "evacceptor_handle_repeat (sys_acceptors s i) rep \<noteq> None \<longleftrightarrow> repeat_to rep \<noteq> - 1"
    using repeat_loop_spec [of "int i" "sys_acceptors s i" "repeat_to rep" "repeat_from rep" "[]"]
      repeat_to_max_diverges [of rep "sys_acceptors s i"] by (auto simp: evacceptor_handle_repeat_def)
  show "evacceptor_handle_trim (sys_acceptors s i) t \<noteq> None"
    using handle_trim_step [OF ok, of t] by (auto simp: acc_step_def)
qed

lemma proposer_handlers_return:
  assumes "reachable n cfg True s" "n \<le> 65536" "i < MAX_N_OF_PROPOSERS" "evprop_room (sys_proposers s i)"
  shows "PAXOS_PROMISE r \<in> sys_net s \<Longrightarrow> evproposer_handle_promise now (sys_proposers s i) r \<noteq> None"
    and "PAXOS_ACCEPTED r \<in> sys_net s \<Longrightarrow> evproposer_handle_accepted now (sys_proposers s i) r \<noteq> None"
    and "evproposer_handle_preempted now (sys_proposers s i) r \<noteq> None"
    and "PAXOS_CLIENT_VALUE v \<in> sys_net s \<Longrightarrow> evproposer_handle_client_value now (sys_proposers s i) v \<noteq> None"
    and "evproposer_handle_acceptor_state (sys_proposers s i) st \<noteq> None"
    and "0 < proposer_timeout cfg \<Longrightarrow> evproposer_check_timeouts cfg (now 0) (sys_proposers s i) \<noteq> None"
    and "evproposer_preexec_once now (sys_proposers s i) \<noteq> None"
    and "evproposer_set_instance_id (sys_proposers s i) k \<noteq> None"
proof -
  note inv = reachable_inv [OF assms(1,2)]
  note ok = sys_invD(4) [OF inv assms(3)] and vals = sys_invD(2) [OF inv]
  note step = evprop_step_def
  show "PAXOS_PROMISE r \<in> sys_net s \<Longrightarrow> evproposer_handle_promise now (sys_proposers s i) r \<noteq> None"
    using handle_promise_step [OF ok assms(4), of r now] by (auto simp: step)
  show "PAXOS_ACCEPTED r \<in> sys_net s \<Longrightarrow> evproposer_handle_accepted now (sys_proposers s i) r \<noteq> None"
    using handle_accepted_step [OF ok assms(4), of r now] by (auto simp: step)
  show "evproposer_handle_preempted now (sys_proposers s i) r \<noteq> None"
    using handle_preempted_step [OF ok assms(4), of now r] by (auto simp: step)
  show "PAXOS_CLIENT_VALUE v \<in> sys_net s \<Longrightarrow> evproposer_handle_client_value now (sys_proposers s i) v \<noteq> None"
    using handle_client_value_step [OF ok assms(4), of v now] vals by (auto simp: step values_inv_def)
  show "evproposer_handle_acceptor_state (sys_proposers s i) st \<noteq> None"
    using handle_acceptor_state_step [OF ok assms(4), of st] by (auto simp: step)
  show "0 < proposer_timeout cfg \<Longrightarrow> evproposer_check_timeouts cfg (now 0) (sys_proposers s i) \<noteq> None"
    using check_timeouts_step [OF _ ok, of cfg "now 0"] by (auto simp: step)
  show "evproposer_preexec_once now (sys_proposers s i) \<noteq> None"
    using preexec_once_step [OF ok assms(4), of now] by (auto simp: step)
  show "evproposer_set_instance_id (sys_proposers s i) k \<noteq> None"
    by (rule set_instance_id_step [OF ok assms(4), of k]) simp
qed

lemma learner_handlers_return:
  assumes "reachable n cfg True s" "n \<le> 65536" "kh_room (l_instances (sys_learners s i))" "PAXOS_ACCEPTED r \<in> sys_net s"
  shows "evlearner_handle_accepted freed (sys_learners s i) r \<noteq> None"
proof -
  note inv = reachable_inv [OF assms(1,2)]
  obtain l' ds where "evlearner_handle_accepted freed (sys_learners s i) r = Some (l', ds)"
    using sys_invD(1,6) [OF inv] assms(3,4) by (rule handle_vote_spec)
  then show ?thesis by simp
qed

text \<open>What a learner has delivered was chosen.\<close>

lemma delivered_chosen:
  assumes inv: "sys_inv n cfg s" and d: "d \<in> set (sys_log s i)"
  obtains r where "d = delivery_of r" "chosen n (sys_net s) (iid r) (ballot r) (pvalue r)" "ok_value (sys_values s) (pvalue r)"
proof -
  note net = sys_invD(1) [OF inv]
  obtain r where r: "d = delivery_of r" "closes (sent_votes (sys_net s)) n r"
    using sys_invD(7) [OF inv, of i] d by (auto simp: log_inv_def all_closed_def)
  have c: "chosen n (sys_net s) (iid r) (ballot r) (pvalue r)" by (rule closes_chosen [OF net r(2)])
  obtain q where "PAXOS_ACCEPT q \<in> sys_net s" "pvalue q = pvalue r" using net c by (rule chosen_accept)
  then have "ok_value (sys_values s) (pvalue r)" using net_inv_accept [OF net] by metis
  then show thesis using r(1) c that by blast
qed

lemma delivered_agree:
  assumes inv: "sys_inv n cfg s" and d: "(k, v, l) \<in> set (sys_log s i)" "(k, v', l') \<in> set (sys_log s j)"
  shows "v = v' \<and> l = l'"
proof -
  obtain r where r: "(k, v, l) = delivery_of r" "chosen n (sys_net s) (iid r) (ballot r) (pvalue r)"
    using inv d(1) by (rule delivered_chosen)
  obtain r' where r': "(k, v', l') = delivery_of r'" "chosen n (sys_net s) (iid r') (ballot r') (pvalue r')"
    using inv d(2) by (rule delivered_chosen)
  have "pvalue r = pvalue r'"
    using chosen_unique [OF sys_invD(1) [OF inv], of "iid r" "ballot r" "pvalue r" "ballot r'" "pvalue r'"] r r'
    by (simp add: delivery_of_def)
  then show ?thesis using r(1) r'(1) by (simp add: delivery_of_def)
qed

text \<open>
  With catch-up a learner that the application does not move delivers from instance 1 on, one
  instance after the other.
\<close>

lemma delivered_in_order:
  assumes inv: "sys_inv n cfg s" and cfg: "learner_catch_up cfg \<noteq> 0" and i: "i \<notin> sys_moved s" and j: "j < length (sys_log s i)"
  shows "fst (sys_log s i ! j) = 1 + of_nat j"
proof -
  have "delivers n (sys_net s) 1 (sys_log s i)"
    using sys_invD(7) [OF inv, of i] cfg i by (auto simp: log_inv_def split: if_splits)
  then show ?thesis using j by (auto simp: delivers_def delivery_of_def)
qed

lemma logs_prefix:
  assumes inv: "sys_inv n cfg s" and cfg: "learner_catch_up cfg \<noteq> 0"
    and moved: "i \<notin> sys_moved s" "j \<notin> sys_moved s" and len: "length (sys_log s i) \<le> length (sys_log s j)"
  shows "sys_log s i = take (length (sys_log s i)) (sys_log s j)"
proof (rule nth_equalityI)
  fix k
  assume k: "k < length (sys_log s i)"
  obtain a v l where i: "sys_log s i ! k = (a, v, l)" by (cases "sys_log s i ! k")
  obtain a' v' l' where j: "sys_log s j ! k = (a', v', l')" by (cases "sys_log s j ! k")
  have kj: "k < length (sys_log s j)" using k len by simp
  have "a = 1 + of_nat k" "a' = 1 + of_nat k"
    using delivered_in_order [OF inv cfg moved(1) k] delivered_in_order [OF inv cfg moved(2) kj] i j by simp_all
  then have eq: "a' = a" by simp
  have "(a, v, l) \<in> set (sys_log s i)" "(a, v', l') \<in> set (sys_log s j)"
    using nth_mem [OF k] nth_mem [OF kj] i j eq by simp_all
  then have "v = v' \<and> l = l'" by (rule delivered_agree [OF inv])
  then show "sys_log s i ! k = take (length (sys_log s i)) (sys_log s j) ! k" using k i j eq by simp
qed (use len in simp)

end
