(* ===== verification/Paxos_Run.thy ===== *)
theory Paxos_Run
  imports Paxos_System
begin

text \<open>
  Running the system on concrete schedules. \<open>act\<close> performs one step of the system, with the
  guards of \<open>sys_step\<close> checked, so that a schedule it accepts leads to a reachable state. The
  collection \<open>paxos_eval\<close> unfolds the model on concrete states.
\<close>

unbundle bit_operations_syntax

section \<open>Evaluation\<close>

lemma bind_weak: "m = m' \<Longrightarrow> Option.bind m f = Option.bind m' f"
  by simp

lemma replicate_numerals:
  "replicate 1 x = [x]" "replicate 2 x = [x, x]" "replicate 3 x = [x, x, x]" "replicate 4 x = [x, x, x, x]"
  by (simp_all add: numeral_eq_Suc)

lemma upt_small: "[0..<4] = [0, 1, 2, 3::nat]" "[0..<0] = ([] :: nat list)"
  by (simp_all add: upt_rec)

lemmas khash_eval = kh_init_def kh_put_def kh_put_room_def kh_put_slot_def kh_put_loop.simps kh_resize_def
  kroundup32_def kh_upper_def ac_fresh_def ac_fsize_def ac_isempty_def ac_isdel_def ac_iseither_def
  ac_set_isboth_false_def ac_set_isempty_false_def ac_set_isdel_true_def kh_realloc_def kh_get_def kh_get_loop.simps kh_end_def kh_exist_def
  kh_value_def kh_set_value_def kh_del_def kh_find_empty.simps kh_kick.simps replicate_numerals upt_small Let_def

lemma carray_push_2: "carray_push 2 = carray_push (Suc (Suc 0))"
  by (simp add: numeral_2_eq_2)

lemma count_acks_numerals:
  "count_acks acks b 3 = count_acks acks b (Suc (Suc (Suc 0)))" "count_acks acks b 2 = count_acks acks b (Suc (Suc 0))"
  by (simp_all add: numeral_2_eq_2 numeral_3_eq_3)

lemmas carray_eval = carray_push_2 carray_new_def c_assert_def carray_push_back_def carray_push.simps carray_full_def
  carray_store_def array_write_int_def array_write_def array_read_int_def array_read_def carray_pop_front_def
  carray_empty_def smod_nonneg

lemmas value_eval = no_value_def zero_record_def value_of_bytes_def value_bytes_def value_wf_def buf_len_def
  mem_read_def paxos_value_new_def size_of_int_def MAX_N_OF_PROPOSERS_def

lemmas acceptor_eval = acceptor_new_def acceptor_start_def storage_init_def storage_init_mem_def storage_dispatch mem_api_def
  mem_storage_new_def mem_storage_open_def mem_storage_tx_begin_def mem_storage_tx_commit_def
  mem_storage_tx_abort_def mem_storage_get_trim_instance_def mem_storage_get_def mem_storage_put_def
  paxos_accepted_copy_def acceptor_receive_prepare_def acceptor_receive_accept_def acceptor_receive_repeat_def
  paxos_accepted_to_promise_def paxos_accept_to_accepted_def paxos_accepted_to_preempted_def
  evacceptor_handle_prepare_def evacceptor_handle_accept_def evacceptor_handle_repeat_def
  evacceptor_repeat_loop.simps acceptor_room_def mem_room_def kh_room_def

lemma paxos_quorum_numerals: "paxos_quorum 1 = 1" "paxos_quorum 3 = 2"
  using paxos_quorum_nat [of 1] paxos_quorum_nat [of 3] by simp_all

text \<open>One round of a loop, once the call in it is evaluated.\<close>

lemma try_accept_loop_eval:
  "proposer_accept p = Some (p', None) \<Longrightarrow> try_accept_loop p out = Some (p', out)"
  "proposer_accept p = Some (p', Some a) \<Longrightarrow>
    try_accept_loop p out = try_accept_loop p' (out @ [(ToAcceptors, PAXOS_ACCEPT a)])"
  by (subst try_accept_loop.simps, simp)+

lemma deliver_next_eval:
  "learner_deliver_next freed l = Some (l', None) \<Longrightarrow> evlearner_deliver_next_closed freed l ds = Some (l', ds)"
  "learner_deliver_next freed l = Some (l', Some r) \<Longrightarrow>
    evlearner_deliver_next_closed freed l ds = evlearner_deliver_next_closed freed l' (ds @ [delivery_of r])"
  by (subst evlearner_deliver_next_closed.simps, simp)+

lemmas proposer_eval = evproposer_init_internal_def proposer_new_def evproposer_preexec_once_def
  proposer_preexecute_def proposer_prepared_count_def proposer_preexecute_loop.simps proposer_prepare_def
  instance_new_def proposer_next_ballot_def quorum_init_def quorum_clear_def quorum_add_def quorum_reached_def
  paxos_quorum_numerals instance_to_prepare_def evproposer_handle_promise_def evproposer_handle_client_value_def
  proposer_propose_def proposer_receive_promise_def preempt_sends_def try_accept_def try_accept_loop_eval
  proposer_accept_def find_smallest.simps instance_has_value_def instance_has_promised_value_def
  proposer_move_instance_def instance_to_accept_def

lemmas learner_eval = count_acks_numerals learner_new_def evlearner_handle_accepted_def deliver_next_eval
  learner_receive_accepted_def learner_get_instance_or_create_def learner_get_instance_def
  learner_create_instance_def linstance_new_def instance_update_def instance_add_accept_def
  paxos_accepted_dup_def paxos_value_copy_def learner_close_instance_def instance_has_quorum_def count_acks.simps
  learner_deliver_next_def learner_get_current_instance_def learner_delete_instance_def learner_get_gap_def
  learner_delete_gap_def delivery_of_def evlearner_check_holes_def learner_has_holes_def

section \<open>Schedules\<close>

text \<open>
  A schedule names the process and the number of the message it handles, in the order the
  messages were sent.
\<close>

datatype action =
    Submit paxos_value
  | Preexec nat
  | ToProposer nat nat
  | ToAcceptor nat nat
  | ToLearner nat nat
  | Holes nat

definition run_clock :: clock where
  "run_clock = (\<lambda>_. \<lparr>tv_sec = 0, tv_usec = 0\<rparr>)"

fun acc_deliver :: "bool \<Rightarrow> paxos_message \<Rightarrow> mem_storage acceptor \<Rightarrow> (mem_storage acceptor \<times> sends) option" where
  "acc_deliver strict (PAXOS_PREPARE r) a = evacceptor_handle_prepare a r"
| "acc_deliver strict (PAXOS_ACCEPT r) a = evacceptor_handle_accept a r"
| "acc_deliver strict (PAXOS_REPEAT r) a =
     (if strict \<or> repeat_to r = - 1 then None else evacceptor_handle_repeat a r)"
| "acc_deliver strict _ a = None"

fun prop_deliver :: "paxos_message \<Rightarrow> evproposer \<Rightarrow> (evproposer \<times> sends) option" where
  "prop_deliver (PAXOS_PROMISE r) p = evproposer_handle_promise run_clock p r"
| "prop_deliver (PAXOS_ACCEPTED r) p = evproposer_handle_accepted run_clock p r"
| "prop_deliver (PAXOS_CLIENT_VALUE v) p = evproposer_handle_client_value run_clock p v"
| "prop_deliver _ p = None"

text \<open>The released instance still has its identifier in these runs.\<close>

fun learner_deliver :: "paxos_message \<Rightarrow> learner \<Rightarrow> (learner \<times> delivery list) option" where
  "learner_deliver (PAXOS_ACCEPTED r) l = evlearner_handle_accepted (\<lambda>i. i) l r"
| "learner_deliver _ l = None"

definition room_check :: "evproposer \<Rightarrow> bool" where
  "room_check p \<longleftrightarrow> nat (ca_count (p_values (ep_state p))) + n_buckets (p_prepare_instances (ep_state p)) +
     n_buckets (p_accept_instances (ep_state p)) + nat (ep_preexec_window p) + 1 < 2 ^ 29 \<and>
     unat (p_next_prepare_iid (ep_state p)) + nat (ep_preexec_window p) < 2 ^ 32"

type_synonym run = "sys \<times> paxos_message list"

fun act :: "nat \<Rightarrow> bool \<Rightarrow> action \<Rightarrow> run \<Rightarrow> run option" where
  "act n strict (Submit v) (s, ms) =
    (if value_wf v \<and> (strict \<longrightarrow> 0 < paxos_value_len v) then
       Some (s\<lparr>sys_net := insert (PAXOS_CLIENT_VALUE \<lparr>client_value = v\<rparr>) (sys_net s),
         sys_values := insert (value_bytes v) (sys_values s)\<rparr>, ms @ [PAXOS_CLIENT_VALUE \<lparr>client_value = v\<rparr>])
     else None)"
| "act n strict (Preexec i) (s, ms) =
    (if i < MAX_N_OF_PROPOSERS \<and> room_check (sys_proposers s i) then do {
       (p, out) \<leftarrow> evproposer_preexec_once run_clock (sys_proposers s i);
       Some (s\<lparr>sys_proposers := (sys_proposers s)(i := p), sys_net := sys_net s \<union> msgs out\<rparr>, ms @ map snd out)
     } else None)"
| "act n strict (ToProposer i k) (s, ms) =
    (if i < MAX_N_OF_PROPOSERS \<and> k < length ms \<and> room_check (sys_proposers s i) then do {
       (p, out) \<leftarrow> prop_deliver (ms ! k) (sys_proposers s i);
       Some (s\<lparr>sys_proposers := (sys_proposers s)(i := p), sys_net := sys_net s \<union> msgs out\<rparr>, ms @ map snd out)
     } else None)"
| "act n strict (ToAcceptor i k) (s, ms) =
    (if i < n \<and> k < length ms \<and> acceptor_room (sys_acceptors s i) then do {
       (a, out) \<leftarrow> acc_deliver strict (ms ! k) (sys_acceptors s i);
       Some (s\<lparr>sys_acceptors := (sys_acceptors s)(i := a), sys_net := sys_net s \<union> msgs out\<rparr>, ms @ map snd out)
     } else None)"
| "act n strict (ToLearner i k) (s, ms) =
    (if k < length ms \<and> kh_room (l_instances (sys_learners s i)) then do {
       (l, ds) \<leftarrow> learner_deliver (ms ! k) (sys_learners s i);
       Some (s\<lparr>sys_learners := (sys_learners s)(i := l), sys_net := sys_net s \<union> msgs [],
         sys_log := (sys_log s)(i := sys_log s i @ ds)\<rparr>, ms)
     } else None)"
| "act n strict (Holes i) (s, ms) =
    (let out = evlearner_check_holes (sys_learners s i) in
     Some (s\<lparr>sys_learners := (sys_learners s)(i := sys_learners s i), sys_net := sys_net s \<union> msgs out,
         sys_log := (sys_log s)(i := sys_log s i @ [])\<rparr>, ms @ map snd out))"

fun acts :: "nat \<Rightarrow> bool \<Rightarrow> action list \<Rightarrow> run \<Rightarrow> run option" where
  "acts n strict [] r = Some r"
| "acts n strict (x # xs) r = Option.bind (act n strict x r) (acts n strict xs)"

lemma kh_dom_card_le: "card (dom (kh_map h)) \<le> n_buckets h"
proof -
  let ?l = "map (\<lambda>x. (keys h ! x, vals h ! x)) (kh_buckets h)"
  have "dom (kh_map h) \<subseteq> fst ` set ?l"
    unfolding dom_map_of_conv_image_fst [symmetric] by (auto simp: kh_map_def bind_eq_Some_conv)
  then have "card (dom (kh_map h)) \<le> card (fst ` set ?l)" by (rule card_mono [rotated]) simp
  also have "\<dots> \<le> length ?l" using card_image_le [of "set ?l" fst] card_length [of ?l] by simp
  also have "\<dots> \<le> n_buckets h" by (simp add: kh_buckets_def) (metis length_filter_le length_upt minus_nat.diff_0)
  finally show ?thesis .
qed

lemma room_check_room: "room_check p \<Longrightarrow> evprop_room p"
  using kh_dom_card_le [of "p_prepare_instances (ep_state p)"] kh_dom_card_le [of "p_accept_instances (ep_state p)"]
  by (simp add: room_check_def evprop_room_def prop_load_def carray_list_def)

lemma acc_deliver_event:
  assumes "acc_deliver strict m a = Some res" "m \<in> M" "acceptor_room a"
  shows "acc_event strict M a (Some res)"
  using assms by (cases m) (simp_all split: if_splits, (metis acc_event.intros(1-3))+)

lemma prop_deliver_event:
  assumes "prop_deliver m p = Some res" "m \<in> M"
  shows "prop_event cfg M p (Some res)"
  using assms by (cases m) (simp_all, (metis prop_event.intros(1,2,4))+)

lemma learner_deliver_event:
  assumes "learner_deliver m l = Some (l', ds)" "m \<in> M" "kh_room (l_instances l)"
  shows "learner_event M l (Some (l', [], ds))"
  using assms learner_event.vote [of _ M l "\<lambda>i. i"] by (cases m) force+

lemma act_step:
  assumes "act n strict x (s, ms) = Some (s', ms')" "sys_net s = set ms"
  shows "sys_step n cfg strict s s' \<and> sys_net s' = set ms'"
proof (cases x)
  case (Submit v)
  then have *: "s' = s\<lparr>sys_net := insert (PAXOS_CLIENT_VALUE \<lparr>client_value = v\<rparr>) (sys_net s),
      sys_values := insert (value_bytes v) (sys_values s)\<rparr>" "ms' = ms @ [PAXOS_CLIENT_VALUE \<lparr>client_value = v\<rparr>]"
    "value_wf v" "strict \<Longrightarrow> 0 < paxos_value_len v"
    using assms(1) by (auto split: if_splits)
  have "sys_step n cfg strict s s'" unfolding *(1) by (rule sys_step.submit [OF *(3,4)])
  then show ?thesis using assms(2) *(1,2) by simp
next
  case (Preexec i)
  then obtain p out where *: "evproposer_preexec_once run_clock (sys_proposers s i) = Some (p, out)"
    "i < MAX_N_OF_PROPOSERS" "room_check (sys_proposers s i)"
    "s' = s\<lparr>sys_proposers := (sys_proposers s)(i := p), sys_net := sys_net s \<union> msgs out\<rparr>" "ms' = ms @ map snd out"
    using assms(1) by (auto simp: bind_eq_Some_conv split: if_splits)
  have "prop_event cfg (sys_net s) (sys_proposers s i) (Some (p, out))"
    unfolding *(1) [symmetric] by (rule prop_event.preexec)
  then have "sys_step n cfg strict s s'" unfolding *(4) by (rule sys_step.proposer [OF *(2) room_check_room [OF *(3)]])
  then show ?thesis using assms(2) *(4,5) by (simp add: msgs_def)
next
  case (ToProposer i k)
  then obtain p out where *: "prop_deliver (ms ! k) (sys_proposers s i) = Some (p, out)"
    "i < MAX_N_OF_PROPOSERS" "room_check (sys_proposers s i)" "k < length ms"
    "s' = s\<lparr>sys_proposers := (sys_proposers s)(i := p), sys_net := sys_net s \<union> msgs out\<rparr>" "ms' = ms @ map snd out"
    using assms(1) by (auto simp: bind_eq_Some_conv split: if_splits)
  have "prop_event cfg (sys_net s) (sys_proposers s i) (Some (p, out))"
    by (rule prop_deliver_event [OF *(1)]) (simp add: assms(2) *(4))
  then have "sys_step n cfg strict s s'" unfolding *(5) by (rule sys_step.proposer [OF *(2) room_check_room [OF *(3)]])
  then show ?thesis using assms(2) *(5,6) by (simp add: msgs_def)
next
  case (ToAcceptor i k)
  then obtain a out where *: "acc_deliver strict (ms ! k) (sys_acceptors s i) = Some (a, out)"
    "i < n" "acceptor_room (sys_acceptors s i)" "k < length ms"
    "s' = s\<lparr>sys_acceptors := (sys_acceptors s)(i := a), sys_net := sys_net s \<union> msgs out\<rparr>" "ms' = ms @ map snd out"
    using assms(1) by (auto simp: bind_eq_Some_conv split: if_splits)
  have "acc_event strict (sys_net s) (sys_acceptors s i) (Some (a, out))"
    by (rule acc_deliver_event [OF *(1) _ *(3)]) (simp add: assms(2) *(4))
  then have "sys_step n cfg strict s s'" unfolding *(5) by (rule sys_step.acceptor [OF *(2)])
  then show ?thesis using assms(2) *(5,6) by (simp add: msgs_def)
next
  case (ToLearner i k)
  then obtain l ds where *: "learner_deliver (ms ! k) (sys_learners s i) = Some (l, ds)" "k < length ms"
    "kh_room (l_instances (sys_learners s i))" "ms' = ms"
    "s' = s\<lparr>sys_learners := (sys_learners s)(i := l), sys_net := sys_net s \<union> msgs [],
      sys_log := (sys_log s)(i := sys_log s i @ ds)\<rparr>"
    using assms(1) by (auto simp: bind_eq_Some_conv split: if_splits)
  have "learner_event (sys_net s) (sys_learners s i) (Some (l, [], ds))"
    by (rule learner_deliver_event [OF *(1) _ *(3)]) (simp add: assms(2) *(2))
  then have "sys_step n cfg strict s s'" unfolding *(5) by (rule sys_step.learner)
  then show ?thesis using assms(2) *(4,5) by simp
next
  case (Holes i)
  let ?out = "evlearner_check_holes (sys_learners s i)"
  have *: "s' = s\<lparr>sys_learners := (sys_learners s)(i := sys_learners s i), sys_net := sys_net s \<union> msgs ?out,
      sys_log := (sys_log s)(i := sys_log s i @ [])\<rparr>" "ms' = ms @ map snd ?out"
    using assms(1) Holes by (auto simp: Let_def simp del: fun_upd_triv append_Nil2)
  have "sys_step n cfg strict s s'" unfolding *(1) by (rule sys_step.learner [OF learner_event.holes])
  then show ?thesis using assms(2) * by (simp add: msgs_def)
qed

lemma acts_reachable:
  "acts n strict xs (s, ms) = Some (s', ms') \<Longrightarrow> sys_net s = set ms \<Longrightarrow> reachable n cfg strict s \<Longrightarrow>
    reachable n cfg strict s'"
proof (induction xs arbitrary: s ms)
  case (Cons x xs)
  then obtain s1 ms1 where a: "act n strict x (s, ms) = Some (s1, ms1)" "acts n strict xs (s1, ms1) = Some (s', ms')"
    by (auto simp: bind_eq_Some_conv)
  then show ?case using act_step [OF a(1) Cons.prems(2), of cfg] Cons.IH Cons.prems(3) reachable.step by blast
qed simp

section \<open>A run that delivers\<close>

definition run_cfg :: paxos_config where
  "run_cfg = default_config\<lparr>proposer_preexec_window := 1\<rparr>"

definition run_init :: "nat \<Rightarrow> sys" where
  "run_init n = \<lparr>sys_acceptors = \<lambda>i. the (the (acceptor_new run_cfg (int i))),
     sys_proposers = \<lambda>i. the (evproposer_init_internal run_cfg (int i) (int n)),
     sys_learners = \<lambda>i. learner_new run_cfg (int n), sys_net = {}, sys_values = {}, sys_log = \<lambda>i. [],
     sys_moved = {}\<rparr>"

lemma run_init_reachable: "reachable n run_cfg strict (run_init n)"
proof (rule reachable.init)
  have "storage_backend run_cfg = PAXOS_MEM_STORAGE" by (simp add: run_cfg_def default_config_def)
  then have "acceptor_new run_cfg (int i) = Some (Some (the (the (acceptor_new run_cfg (int i)))))" for i
    by (metis acceptor_new_inv option.sel)
  moreover have "\<exists>p. evproposer_init_internal run_cfg (int i) (int n) = Some p" if "i < MAX_N_OF_PROPOSERS" for i
    using evproposer_init_ok [of "int i" run_cfg n] that by (auto simp: MAX_N_OF_PROPOSERS_def)
  ultimately show "sys_init n run_cfg (run_init n)"
    by (auto simp: sys_init_def run_init_def)
qed

definition val_a :: paxos_value where
  "val_a = value_of_bytes [7]"


lemmas run_eval = run_init_def run_cfg_def default_config_def run_clock_def val_a_def room_check_def

lemmas paxos_eval = khash_eval carray_eval value_eval acceptor_eval proposer_eval learner_eval run_eval

definition run_deliver :: "action list" where
  "run_deliver = [Preexec 0, ToAcceptor 0 0, Submit val_a, ToProposer 0 2, ToProposer 0 1, ToAcceptor 0 3,
     ToLearner 0 5, ToLearner 1 5]"

lemma run_deliver_log:
  "\<exists>s ms. acts 1 True run_deliver (run_init 1, []) = Some (s, ms) \<and>
    sys_log s 0 = [(1, Some [7], 1)] \<and> sys_log s 1 = [(1, Some [7], 1)] \<and> sys_values s = {[7]} \<and> sys_moved s = {}"
  by (simp add: run_deliver_def paxos_eval cong: bind_weak)

section \<open>A run with repeated records\<close>

text \<open>
  Acceptor 2 votes for the value of proposer 0 and then promises the higher ballot of proposer 1,
  whose own value acceptors 0 and 1 vote for. Asked to repeat, acceptor 2 sends its vote under
  the promised ballot, and learner 0 counts it together with the vote of acceptor 0.
\<close>

definition val_b :: paxos_value where
  "val_b = value_of_bytes [9]"

definition run_phase1 :: "action list" where
  "run_phase1 = [Submit val_a, Submit val_b, Preexec 0, Preexec 1, ToAcceptor 0 2, ToAcceptor 1 2,
     ToProposer 0 0, ToProposer 0 4, ToProposer 0 5, ToAcceptor 2 6]"

definition run_phase2 :: "action list" where
  "run_phase2 = [ToAcceptor 0 3, ToAcceptor 1 3, ToAcceptor 2 3, ToProposer 1 1, ToProposer 1 9,
     ToProposer 1 10, ToAcceptor 0 12, ToAcceptor 1 12, ToLearner 1 14, ToLearner 1 15]"

definition run_phase3 :: "action list" where
  "run_phase3 = [ToAcceptor 0 13, ToAcceptor 1 13, ToProposer 1 1, ToProposer 1 16, ToProposer 1 17,
     ToAcceptor 0 18, ToAcceptor 1 18, ToLearner 0 20, ToLearner 0 21, Holes 0, ToAcceptor 2 22,
     ToLearner 0 14, ToLearner 0 23]"

lemma run_repeat_log:
  "\<exists>s ms. acts 3 False (run_phase1 @ run_phase2 @ run_phase3) (run_init 3, []) = Some (s, ms) \<and>
    sys_log s 0 = [(1, Some [7], 1), (2, Some [9], 1)] \<and> sys_log s 1 = [(1, Some [9], 1)] \<and> sys_values s = {[9], [7]}"
  by (simp add: run_phase1_def run_phase2_def run_phase3_def val_b_def paxos_eval cong: bind_weak)

section \<open>A run with an empty value\<close>

text \<open>
  The acceptor votes for the empty value of proposer 0 and reports the vote to proposer 1, which
  takes a value of length 0 for no value and asks for its own.
\<close>

definition val_empty :: paxos_value where
  "val_empty = value_of_bytes []"

definition run_empty :: "action list" where
  "run_empty = [Submit val_empty, Submit val_b, Preexec 0, Preexec 1, ToAcceptor 0 2, ToProposer 0 0, ToProposer 0 4,
     ToAcceptor 0 5, ToLearner 0 7, ToAcceptor 0 3, ToProposer 1 1, ToProposer 1 8, ToAcceptor 0 9, ToLearner 1 11]"

lemma run_empty_log:
  "\<exists>s ms. acts 1 False run_empty (run_init 1, []) = Some (s, ms) \<and>
    sys_log s 0 = [(1, None, 0)] \<and> sys_log s 1 = [(1, Some [9], 1)] \<and> (\<forall>r. PAXOS_REPEAT r \<notin> sys_net s)"
  by (simp add: run_empty_def val_b_def val_empty_def msgs_def paxos_eval cong: bind_weak)

lemma run_reachable:
  assumes "acts n strict xs (run_init n, []) = Some (s, ms)"
  shows "reachable n run_cfg strict s"
  using assms by (rule acts_reachable) (simp_all add: run_init_reachable, simp add: run_init_def)

section \<open>Concrete processes\<close>

definition run_prepared :: prop_spec where
  "run_prepared = \<lparr>s_id = 0, s_acceptors = 1, s_values = [], s_max_trim = 0, s_next = 1,
      s_prep = [1 \<mapsto> \<lparr>i_iid = 1, i_ballot = 10, i_value = None, i_promised_value = None, i_value_ballot = 0,
        i_quorum = quorum_init 1, i_created_at = run_clock 0\<rparr>], s_acc = Map.empty\<rparr>"

text \<open>A new acceptor of the default configuration.\<close>

lemma fresh_acceptor:
  obtains a where "acceptor_new default_config 0 = Some (Some a)" "mem_acc_inv 0 a" "mem_acc_abs a = (Map.empty, 0)"
    "acceptor_room a"
proof -
  have "storage_backend default_config = PAXOS_MEM_STORAGE" by (simp add: default_config_def)
  from acceptor_new_inv [OF this, of 0] show thesis using that acceptor_room_empty by fastforce
qed

text \<open>A new proposer that prepared instance 1.\<close>

lemma prepared_proposer:
  obtains p p' where "proposer_new 0 1 = Some p" "proposer_prepare p (run_clock 0) = Some (p', zero_record\<lparr>iid := 1, ballot := 10\<rparr>)"
    "prop_repr p'" "prop_room p'" "spec_inv 1 {} (prop_abs p')"
    "prop_abs p' = run_prepared"
proof -
  obtain p where p: "proposer_new 0 (int 1) = Some p" "prop_ok 1 {} {} p"
    "prop_abs p = \<lparr>s_id = 0, s_acceptors = int 1, s_values = [], s_max_trim = 0, s_next = 0,
      s_prep = Map.empty, s_acc = Map.empty\<rparr>"
    by (rule proposer_new_ok [of 0 1 "{}"]) simp_all
  have next0: "p_next_prepare_iid p = 0" using arg_cong [OF p(3), of s_next] by simp
  have room: "prop_room p" by (simp add: prop_room_def prop_load_def p(3))
  have inv: "prop_repr p" "spec_inv 1 {} (prop_abs p)" using p(2) by (simp_all add: prop_ok_def prop_safe_def)
  obtain p' pr where p': "proposer_prepare p (run_clock 0) = Some (p', pr)"
    "prop_step 1 {} {} p [(ToAcceptors, PAXOS_PREPARE pr)] p'"
    by (rule proposer_prepare_step [OF p(2) room]) (simp add: next0)
  have "refines prop_abs prop_repr (proposer_prepare p (run_clock 0)) (spec_fresh (prop_abs p) (run_clock 0))"
    by (rule proposer_prepare_refines [OF inv(1) room inv(2)]) (simp add: next0)
  then have ab: "prop_repr p'" "pr = zero_record\<lparr>iid := 1, ballot := 10\<rparr>"
    "prop_abs p' = run_prepared"
    by (simp_all add: p'(1) p(3) refines_def spec_fresh_def fresh_inst_def instance_to_prepare_def run_prepared_def)
  have "prop_room p'" by (simp add: prop_room_def prop_load_def ab(3) run_prepared_def)
  moreover have "spec_inv 1 {} (prop_abs p')" using p'(2) by (simp add: prop_step_def prop_ok_def prop_safe_def)
  ultimately show thesis using p(1) p'(1) ab by (intro that [of p p']) simp_all
qed
text \<open>The state that a schedule leads to.\<close>

lemma run_deliver_state:
  obtains s where "reachable 1 run_cfg True s" "sys_log s 0 = [(1, Some [7], 1)]"
    "sys_log s 1 = [(1, Some [7], 1)]" "sys_values s = {[7]}" "sys_moved s = {}"
  using run_deliver_log run_reachable [of 1 True run_deliver] by blast

lemma run_deliver_vote:
  obtains s r q where "reachable 1 run_cfg True s" "PAXOS_ACCEPTED r \<in> sys_net s" "PAXOS_ACCEPT q \<in> sys_net s"
proof -
  obtain s where s: "reachable 1 run_cfg True s" "sys_log s 0 = [(1, Some [7], 1)]" by (rule run_deliver_state)
  have inv: "sys_inv 1 run_cfg s" using reachable_inv [OF s(1)] by simp
  have "(1, Some [7], 1) \<in> set (sys_log s 0)" by (simp add: s(2))
  then obtain r :: paxos_record where r: "chosen 1 (sys_net s) (iid r) (ballot r) (pvalue r)"
    by (rule delivered_chosen [OF inv]) blast
  obtain r' where r': "PAXOS_ACCEPTED r' \<in> sys_net s"
    using r by (fastforce simp: chosen_def paxos_quorum_numerals)
  obtain q where "PAXOS_ACCEPT q \<in> sys_net s"
    by (rule net_inv_accepted [OF sys_invD(1) [OF inv] r']) blast
  with s(1) r' show thesis by (rule that)
qed

end
