(* ===== verification/Ev_Message.thy ===== *)
theory Ev_Message
  imports Paxos_Types "HOL-Library.Sublist"
begin

text \<open>
  The stream format of the evpaxos library (\<open>evpaxos/paxos_types_pack.c\<close>, \<open>evpaxos/message.c\<close>). The
  bytes are made and read by the MessagePack library, which is a parameter: the record \<open>msgpack\<close> has
  the library calls that the code uses, and \<open>msgpack_law\<close> states what the library documents about them.
  A message is one array: its type, then its fields.
\<close>

section \<open>The library\<close>

text \<open>The objects that the library hands to the code, with a constructor for those the code never packs.\<close>

datatype msgpack_object =
    MSGPACK_POSITIVE_INTEGER "64 word"
  | MSGPACK_BIN "byte list"
  | MSGPACK_ARRAY "msgpack_object list"
  | MSGPACK_OTHER

text \<open>
  The bytes that the packing calls write, and \<open>msgpack_unpack_next\<close>: its return value, the object it
  read, and the offset behind it. The return value is positive when an object was read, 0 when the
  buffer ends inside one, and negative on an error.
\<close>

record msgpack =
  pack_array :: "nat \<Rightarrow> byte list"
  pack_u16 :: "u16 \<Rightarrow> byte list"
  pack_i16 :: "u16 \<Rightarrow> byte list"
  pack_u32 :: "32 word \<Rightarrow> byte list"
  pack_bin :: "nat \<Rightarrow> byte list"
  unpack_next :: "byte list \<Rightarrow> int \<times> msgpack_object \<times> nat"

text \<open>One element of an array as the code packs it: by its width, or as a byte string.\<close>

datatype item = U16 u16 | I16 u16 | U32 "32 word" | Bin "byte list"

fun item_bytes :: "msgpack \<Rightarrow> item \<Rightarrow> byte list" where
  "item_bytes mp (U16 w) = pack_u16 mp w"
| "item_bytes mp (I16 w) = pack_i16 mp w"
| "item_bytes mp (U32 w) = pack_u32 mp w"
| "item_bytes mp (Bin bs) = pack_bin mp (length bs) @ bs"

fun item_object :: "item \<Rightarrow> msgpack_object" where
  "item_object (U16 w) = MSGPACK_POSITIVE_INTEGER (ucast w)"
| "item_object (I16 w) = MSGPACK_POSITIVE_INTEGER (ucast w)"
| "item_object (U32 w) = MSGPACK_POSITIVE_INTEGER (ucast w)"
| "item_object (Bin bs) = MSGPACK_BIN bs"

definition array_bytes :: "msgpack \<Rightarrow> item list \<Rightarrow> byte list" where
  "array_bytes mp xs = pack_array mp (length xs) @ concat (map (item_bytes mp) xs)"

text \<open>The signed call is used for non-negative numbers only, and a byte string has a 32-bit length.\<close>

fun item_ok :: "item \<Rightarrow> bool" where
  "item_ok (I16 w) = (w < 32768)"
| "item_ok (Bin bs) = (length bs < 2 ^ 32)"
| "item_ok _ = True"

definition msgpack_law :: "msgpack \<Rightarrow> bool" where
  "msgpack_law mp \<longleftrightarrow> (\<forall>xs. length xs < 16 \<longrightarrow> list_all item_ok xs \<longrightarrow>
     (\<forall>rest. fst (unpack_next mp (array_bytes mp xs @ rest)) > 0 \<and>
        snd (unpack_next mp (array_bytes mp xs @ rest)) =
          (MSGPACK_ARRAY (map item_object xs), length (array_bytes mp xs))) \<and>
     (\<forall>bs. strict_prefix bs (array_bytes mp xs) \<longrightarrow> fst (unpack_next mp bs) = 0))"

lemma msgpack_law_array:
  assumes "msgpack_law mp" "length xs < 16" "list_all item_ok xs"
  shows "fst (unpack_next mp (array_bytes mp xs @ rest)) > 0"
    and "snd (unpack_next mp (array_bytes mp xs @ rest)) = (MSGPACK_ARRAY (map item_object xs), length (array_bytes mp xs))"
    and "strict_prefix bs (array_bytes mp xs) \<Longrightarrow> fst (unpack_next mp bs) = 0"
  using assms by (auto simp: msgpack_law_def)

section \<open>Packing\<close>

text \<open>The calls a packer gets become bytes at the end of the stream.\<close>

definition msgpack_pack_string :: "msgpack \<Rightarrow> cbuf \<Rightarrow> int \<Rightarrow> byte list option" where
  "msgpack_pack_string mp buffer n = do {
     bs \<leftarrow> mem_read buffer (size_of_int n);
     Some (pack_bin mp (size_of_int n) @ bs)
   }"

definition msgpack_pack_paxos_value :: "msgpack \<Rightarrow> paxos_value \<Rightarrow> byte list option" where
  "msgpack_pack_paxos_value mp v = msgpack_pack_string mp (paxos_value_val v) (paxos_value_len v)"

definition pack_record_fields :: "msgpack \<Rightarrow> paxos_record \<Rightarrow> byte list option" where
  "pack_record_fields mp v = do {
     bs \<leftarrow> msgpack_pack_paxos_value mp (pvalue v);
     Some (pack_u32 mp (iid v) @ pack_u16 mp (ballot v) @ pack_u16 mp (value_ballot v) @ pack_u16 mp (aid v) @ bs)
   }"

definition msgpack_pack_paxos_prepare :: "msgpack \<Rightarrow> paxos_prepare \<Rightarrow> byte list option" where
  "msgpack_pack_paxos_prepare mp v =
    map_option (\<lambda>bs. pack_array mp 6 @ pack_u16 mp 0 @ bs) (pack_record_fields mp v)"

definition msgpack_pack_paxos_promise :: "msgpack \<Rightarrow> paxos_promise \<Rightarrow> byte list option" where
  "msgpack_pack_paxos_promise mp v =
    map_option (\<lambda>bs. pack_array mp 6 @ pack_i16 mp 1 @ bs) (pack_record_fields mp v)"

definition msgpack_pack_paxos_accept :: "msgpack \<Rightarrow> paxos_accept \<Rightarrow> byte list option" where
  "msgpack_pack_paxos_accept mp v =
    map_option (\<lambda>bs. pack_array mp 6 @ pack_i16 mp 2 @ bs) (pack_record_fields mp v)"

definition msgpack_pack_paxos_accepted :: "msgpack \<Rightarrow> paxos_accepted \<Rightarrow> byte list option" where
  "msgpack_pack_paxos_accepted mp v =
    map_option (\<lambda>bs. pack_array mp 6 @ pack_i16 mp 3 @ bs) (pack_record_fields mp v)"

definition msgpack_pack_paxos_preempted :: "msgpack \<Rightarrow> paxos_preempted \<Rightarrow> byte list option" where
  "msgpack_pack_paxos_preempted mp v =
    map_option (\<lambda>bs. pack_array mp 6 @ pack_i16 mp 4 @ bs) (pack_record_fields mp v)"

definition msgpack_pack_paxos_repeat :: "msgpack \<Rightarrow> paxos_repeat \<Rightarrow> byte list option" where
  "msgpack_pack_paxos_repeat mp v =
    Some (pack_array mp 3 @ pack_i16 mp 5 @ pack_u32 mp (repeat_from v) @ pack_u32 mp (repeat_to v))"

definition msgpack_pack_paxos_trim :: "msgpack \<Rightarrow> paxos_trim \<Rightarrow> byte list option" where
  "msgpack_pack_paxos_trim mp v = Some (pack_array mp 2 @ pack_i16 mp 6 @ pack_u32 mp (trim_iid v))"

definition msgpack_pack_paxos_acceptor_state :: "msgpack \<Rightarrow> paxos_acceptor_state \<Rightarrow> byte list option" where
  "msgpack_pack_paxos_acceptor_state mp v =
    Some (pack_array mp 3 @ pack_i16 mp 7 @ pack_u32 mp (state_aid v) @ pack_u32 mp (state_trim_iid v))"

definition msgpack_pack_paxos_client_value :: "msgpack \<Rightarrow> paxos_client_value \<Rightarrow> byte list option" where
  "msgpack_pack_paxos_client_value mp v =
    map_option (\<lambda>bs. pack_array mp 2 @ pack_i16 mp 8 @ bs) (msgpack_pack_paxos_value mp (client_value v))"

fun msgpack_pack_paxos_message :: "msgpack \<Rightarrow> paxos_message \<Rightarrow> byte list option" where
  "msgpack_pack_paxos_message mp (PAXOS_PREPARE v) = msgpack_pack_paxos_prepare mp v"
| "msgpack_pack_paxos_message mp (PAXOS_PROMISE v) = msgpack_pack_paxos_promise mp v"
| "msgpack_pack_paxos_message mp (PAXOS_ACCEPT v) = msgpack_pack_paxos_accept mp v"
| "msgpack_pack_paxos_message mp (PAXOS_ACCEPTED v) = msgpack_pack_paxos_accepted mp v"
| "msgpack_pack_paxos_message mp (PAXOS_PREEMPTED v) = msgpack_pack_paxos_preempted mp v"
| "msgpack_pack_paxos_message mp (PAXOS_REPEAT v) = msgpack_pack_paxos_repeat mp v"
| "msgpack_pack_paxos_message mp (PAXOS_TRIM v) = msgpack_pack_paxos_trim mp v"
| "msgpack_pack_paxos_message mp (PAXOS_ACCEPTOR_STATE v) = msgpack_pack_paxos_acceptor_state mp v"
| "msgpack_pack_paxos_message mp (PAXOS_CLIENT_VALUE v) = msgpack_pack_paxos_client_value mp v"

section \<open>Unpacking\<close>

text \<open>
  The macro \<open>MSGPACK_OBJECT_AT\<close> reads element \<open>i\<close> of an array without asking for its type or its
  length; a read of the wrong member of the union, or past the array, is a fault.
\<close>

fun msgpack_object_at :: "msgpack_object \<Rightarrow> nat \<Rightarrow> msgpack_object option" where
  "msgpack_object_at (MSGPACK_ARRAY xs) i = array_read xs i"
| "msgpack_object_at _ i = None"

fun via_u64 :: "msgpack_object \<Rightarrow> 64 word option" where
  "via_u64 (MSGPACK_POSITIVE_INTEGER w) = Some w"
| "via_u64 _ = None"

fun via_bin :: "msgpack_object \<Rightarrow> byte list option" where
  "via_bin (MSGPACK_BIN bs) = Some bs"
| "via_bin _ = None"

definition msgpack_unpack_uint32_at :: "msgpack_object \<Rightarrow> nat \<Rightarrow> (32 word \<times> nat) option" where
  "msgpack_unpack_uint32_at obj i = do {
     x \<leftarrow> msgpack_object_at obj i;
     w \<leftarrow> via_u64 x;
     Some (ucast w, i + 1)
   }"

definition msgpack_unpack_uint16_at :: "msgpack_object \<Rightarrow> nat \<Rightarrow> (u16 \<times> nat) option" where
  "msgpack_unpack_uint16_at obj i = do {
     x \<leftarrow> msgpack_object_at obj i;
     w \<leftarrow> via_u64 x;
     Some (ucast w, i + 1)
   }"

definition msgpack_unpack_string_at :: "msgpack_object \<Rightarrow> nat \<Rightarrow> (cbuf \<times> int \<times> nat) option" where
  "msgpack_unpack_string_at obj i = do {
     x \<leftarrow> msgpack_object_at obj i;
     bs \<leftarrow> via_bin x;
     let n = signed_take_bit 31 (int (length bs));
     Some (if n > 0 then Some (take (nat n) bs) else None, n, i + 1)
   }"

definition msgpack_unpack_paxos_value_at :: "msgpack_object \<Rightarrow> nat \<Rightarrow> (paxos_value \<times> nat) option" where
  "msgpack_unpack_paxos_value_at obj i = do {
     (v, n, i) \<leftarrow> msgpack_unpack_string_at obj i;
     Some (\<lparr>paxos_value_len = n, paxos_value_val = v\<rparr>, i)
   }"

definition unpack_record_fields :: "msgpack_object \<Rightarrow> paxos_record option" where
  "unpack_record_fields obj = do {
     (k, i) \<leftarrow> msgpack_unpack_uint32_at obj 1;
     (b, i) \<leftarrow> msgpack_unpack_uint16_at obj i;
     (vb, i) \<leftarrow> msgpack_unpack_uint16_at obj i;
     (a, i) \<leftarrow> msgpack_unpack_uint16_at obj i;
     (v, i) \<leftarrow> msgpack_unpack_paxos_value_at obj i;
     Some \<lparr>iid = k, ballot = b, value_ballot = vb, aid = a, pvalue = v\<rparr>
   }"

definition msgpack_unpack_paxos_prepare :: "msgpack_object \<Rightarrow> paxos_prepare option" where
  "msgpack_unpack_paxos_prepare = unpack_record_fields"

definition msgpack_unpack_paxos_promise :: "msgpack_object \<Rightarrow> paxos_promise option" where
  "msgpack_unpack_paxos_promise = unpack_record_fields"

definition msgpack_unpack_paxos_accept :: "msgpack_object \<Rightarrow> paxos_accept option" where
  "msgpack_unpack_paxos_accept = unpack_record_fields"

definition msgpack_unpack_paxos_accepted :: "msgpack_object \<Rightarrow> paxos_accepted option" where
  "msgpack_unpack_paxos_accepted = unpack_record_fields"

definition msgpack_unpack_paxos_preempted :: "msgpack_object \<Rightarrow> paxos_preempted option" where
  "msgpack_unpack_paxos_preempted = unpack_record_fields"

definition msgpack_unpack_paxos_repeat :: "msgpack_object \<Rightarrow> paxos_repeat option" where
  "msgpack_unpack_paxos_repeat obj = do {
     (f, i) \<leftarrow> msgpack_unpack_uint32_at obj 1;
     (t, i) \<leftarrow> msgpack_unpack_uint32_at obj i;
     Some \<lparr>repeat_from = f, repeat_to = t\<rparr>
   }"

definition msgpack_unpack_paxos_trim :: "msgpack_object \<Rightarrow> paxos_trim option" where
  "msgpack_unpack_paxos_trim obj = do {
     (k, i) \<leftarrow> msgpack_unpack_uint32_at obj 1;
     Some \<lparr>trim_iid = k\<rparr>
   }"

definition msgpack_unpack_paxos_acceptor_state :: "msgpack_object \<Rightarrow> paxos_acceptor_state option" where
  "msgpack_unpack_paxos_acceptor_state obj = do {
     (a, i) \<leftarrow> msgpack_unpack_uint32_at obj 1;
     (t, i) \<leftarrow> msgpack_unpack_uint32_at obj i;
     Some \<lparr>state_aid = a, state_trim_iid = t\<rparr>
   }"

definition msgpack_unpack_paxos_client_value :: "msgpack_object \<Rightarrow> paxos_client_value option" where
  "msgpack_unpack_paxos_client_value obj = do {
     (v, i) \<leftarrow> msgpack_unpack_paxos_value_at obj 1;
     Some \<lparr>client_value = v\<rparr>
   }"

text \<open>The type is stored in an enumeration of 32 bits; an unknown one leaves the message without contents.\<close>

definition msgpack_unpack_paxos_message :: "msgpack_object \<Rightarrow> paxos_message option option" where
  "msgpack_unpack_paxos_message obj = do {
     x \<leftarrow> msgpack_object_at obj 0;
     w \<leftarrow> via_u64 x;
     let t = (ucast w :: 32 word);
     if t = 0 then map_option (\<lambda>v. Some (PAXOS_PREPARE v)) (msgpack_unpack_paxos_prepare obj)
     else if t = 1 then map_option (\<lambda>v. Some (PAXOS_PROMISE v)) (msgpack_unpack_paxos_promise obj)
     else if t = 2 then map_option (\<lambda>v. Some (PAXOS_ACCEPT v)) (msgpack_unpack_paxos_accept obj)
     else if t = 3 then map_option (\<lambda>v. Some (PAXOS_ACCEPTED v)) (msgpack_unpack_paxos_accepted obj)
     else if t = 4 then map_option (\<lambda>v. Some (PAXOS_PREEMPTED v)) (msgpack_unpack_paxos_preempted obj)
     else if t = 5 then map_option (\<lambda>v. Some (PAXOS_REPEAT v)) (msgpack_unpack_paxos_repeat obj)
     else if t = 6 then map_option (\<lambda>v. Some (PAXOS_TRIM v)) (msgpack_unpack_paxos_trim obj)
     else if t = 7 then map_option (\<lambda>v. Some (PAXOS_ACCEPTOR_STATE v)) (msgpack_unpack_paxos_acceptor_state obj)
     else if t = 8 then map_option (\<lambda>v. Some (PAXOS_CLIENT_VALUE v)) (msgpack_unpack_paxos_client_value obj)
     else Some None
   }"

section \<open>Sending and receiving\<close>

text \<open>The output side of a connection is the bytes written to it so far, oldest first.\<close>

type_synonym bufferevent = "byte list"

definition bufferevent_pack_data :: "bufferevent \<Rightarrow> byte list \<Rightarrow> bufferevent" where
  "bufferevent_pack_data bev buf = bev @ buf"

definition send_paxos_message :: "msgpack \<Rightarrow> bufferevent \<Rightarrow> paxos_message \<Rightarrow> bufferevent option" where
  "send_paxos_message mp bev msg = map_option (bufferevent_pack_data bev) (msgpack_pack_paxos_message mp msg)"

definition send_paxos_prepare :: "msgpack \<Rightarrow> bufferevent \<Rightarrow> paxos_prepare \<Rightarrow> bufferevent option" where
  "send_paxos_prepare mp bev p = send_paxos_message mp bev (PAXOS_PREPARE p)"

definition send_paxos_promise :: "msgpack \<Rightarrow> bufferevent \<Rightarrow> paxos_promise \<Rightarrow> bufferevent option" where
  "send_paxos_promise mp bev p = send_paxos_message mp bev (PAXOS_PROMISE p)"

definition send_paxos_accept :: "msgpack \<Rightarrow> bufferevent \<Rightarrow> paxos_accept \<Rightarrow> bufferevent option" where
  "send_paxos_accept mp bev p = send_paxos_message mp bev (PAXOS_ACCEPT p)"

definition send_paxos_accepted :: "msgpack \<Rightarrow> bufferevent \<Rightarrow> paxos_accepted \<Rightarrow> bufferevent option" where
  "send_paxos_accepted mp bev p = send_paxos_message mp bev (PAXOS_ACCEPTED p)"

definition send_paxos_preempted :: "msgpack \<Rightarrow> bufferevent \<Rightarrow> paxos_preempted \<Rightarrow> bufferevent option" where
  "send_paxos_preempted mp bev p = send_paxos_message mp bev (PAXOS_PREEMPTED p)"

definition send_paxos_repeat :: "msgpack \<Rightarrow> bufferevent \<Rightarrow> paxos_repeat \<Rightarrow> bufferevent option" where
  "send_paxos_repeat mp bev p = send_paxos_message mp bev (PAXOS_REPEAT p)"

definition send_paxos_trim :: "msgpack \<Rightarrow> bufferevent \<Rightarrow> paxos_trim \<Rightarrow> bufferevent option" where
  "send_paxos_trim mp bev p = send_paxos_message mp bev (PAXOS_TRIM p)"

definition paxos_submit :: "msgpack \<Rightarrow> bufferevent \<Rightarrow> cbuf \<Rightarrow> int \<Rightarrow> bufferevent option" where
  "paxos_submit mp bev data n = send_paxos_message mp bev
    (PAXOS_CLIENT_VALUE \<lparr>client_value = \<lparr>paxos_value_len = n, paxos_value_val = data\<rparr>\<rparr>)"

text \<open>
  The input side is the bytes not yet read. The result is the return value, what is left of the
  input, and the contents of the message. Every return value of the library but 0 counts as success.
\<close>

definition recv_paxos_message ::
  "msgpack \<Rightarrow> byte list \<Rightarrow> (int \<times> byte list \<times> paxos_message option) option" where
  "recv_paxos_message mp inp =
    (if inp = [] then Some (0, inp, None)
     else let (rv, obj, offset) = unpack_next mp inp in
       if rv \<noteq> 0 then do {
         m \<leftarrow> msgpack_unpack_paxos_message obj;
         Some (1, drop offset inp, m)
       }
       else Some (0, inp, None))"

section \<open>Round trip\<close>

text \<open>The array of a message, and what arrives at the other side.\<close>

definition record_items :: "paxos_record \<Rightarrow> item list" where
  "record_items v = [U32 (iid v), U16 (ballot v), U16 (value_ballot v), U16 (aid v), Bin (value_bytes (pvalue v))]"

fun message_items :: "paxos_message \<Rightarrow> item list" where
  "message_items (PAXOS_PREPARE v) = U16 0 # record_items v"
| "message_items (PAXOS_PROMISE v) = I16 1 # record_items v"
| "message_items (PAXOS_ACCEPT v) = I16 2 # record_items v"
| "message_items (PAXOS_ACCEPTED v) = I16 3 # record_items v"
| "message_items (PAXOS_PREEMPTED v) = I16 4 # record_items v"
| "message_items (PAXOS_REPEAT v) = [I16 5, U32 (repeat_from v), U32 (repeat_to v)]"
| "message_items (PAXOS_TRIM v) = [I16 6, U32 (trim_iid v)]"
| "message_items (PAXOS_ACCEPTOR_STATE v) = [I16 7, U32 (state_aid v), U32 (state_trim_iid v)]"
| "message_items (PAXOS_CLIENT_VALUE v) = [I16 8, Bin (value_bytes (client_value v))]"

definition sent_value :: "paxos_value \<Rightarrow> paxos_value" where
  "sent_value v = v\<lparr>paxos_value_val := if 0 < paxos_value_len v then Some (value_bytes v) else None\<rparr>"

fun arrives :: "paxos_message \<Rightarrow> paxos_message" where
  "arrives (PAXOS_PREPARE v) = PAXOS_PREPARE (v\<lparr>pvalue := sent_value (pvalue v)\<rparr>)"
| "arrives (PAXOS_PROMISE v) = PAXOS_PROMISE (v\<lparr>pvalue := sent_value (pvalue v)\<rparr>)"
| "arrives (PAXOS_ACCEPT v) = PAXOS_ACCEPT (v\<lparr>pvalue := sent_value (pvalue v)\<rparr>)"
| "arrives (PAXOS_ACCEPTED v) = PAXOS_ACCEPTED (v\<lparr>pvalue := sent_value (pvalue v)\<rparr>)"
| "arrives (PAXOS_PREEMPTED v) = PAXOS_PREEMPTED (v\<lparr>pvalue := sent_value (pvalue v)\<rparr>)"
| "arrives (PAXOS_CLIENT_VALUE v) = PAXOS_CLIENT_VALUE (v\<lparr>client_value := sent_value (client_value v)\<rparr>)"
| "arrives m = m"

fun message_wf :: "paxos_message \<Rightarrow> bool" where
  "message_wf (PAXOS_PREPARE v) = value_wf (pvalue v)"
| "message_wf (PAXOS_PROMISE v) = value_wf (pvalue v)"
| "message_wf (PAXOS_ACCEPT v) = value_wf (pvalue v)"
| "message_wf (PAXOS_ACCEPTED v) = value_wf (pvalue v)"
| "message_wf (PAXOS_PREEMPTED v) = value_wf (pvalue v)"
| "message_wf (PAXOS_CLIENT_VALUE v) = value_wf (client_value v)"
| "message_wf _ = True"

definition message_bytes :: "msgpack \<Rightarrow> paxos_message \<Rightarrow> byte list" where
  "message_bytes mp m = array_bytes mp (message_items m)"

lemma pack_value_items:
  assumes "value_wf v"
  shows "msgpack_pack_paxos_value mp v = Some (item_bytes mp (Bin (value_bytes v)))"
proof -
  have "size_of_int (paxos_value_len v) = nat (paxos_value_len v)"
    using assms by (simp add: value_wf_def size_of_int_nat)
  then show ?thesis using value_wf_read [OF assms] value_wf_len [OF assms]
    by (simp add: msgpack_pack_paxos_value_def msgpack_pack_string_def)
qed

lemma pack_record_items:
  "value_wf (pvalue v) \<Longrightarrow> pack_record_fields mp v = Some (concat (map (item_bytes mp) (record_items v)))"
  by (simp add: pack_record_fields_def pack_value_items record_items_def)

lemma pack_message_bytes: "message_wf m \<Longrightarrow> msgpack_pack_paxos_message mp m = Some (message_bytes mp m)"
  by (cases m) (simp_all add: message_bytes_def array_bytes_def pack_record_items pack_value_items
    msgpack_pack_paxos_prepare_def msgpack_pack_paxos_promise_def msgpack_pack_paxos_accept_def
    msgpack_pack_paxos_accepted_def msgpack_pack_paxos_preempted_def msgpack_pack_paxos_repeat_def
    msgpack_pack_paxos_trim_def msgpack_pack_paxos_acceptor_state_def msgpack_pack_paxos_client_value_def
    record_items_def eval_nat_numeral)

lemma unpack_value_items:
  assumes "value_wf v" "xs ! i = Bin (value_bytes v)" "i < length xs"
  shows "msgpack_unpack_paxos_value_at (MSGPACK_ARRAY (map item_object xs)) i = Some (sent_value v, i + 1)"
proof -
  have "length (value_bytes v) < 2 ^ 31" using assms(1) value_wf_len [OF assms(1)] by (simp add: value_wf_def)
  then have "signed_take_bit 31 (int (length (value_bytes v))) = paxos_value_len v"
    using value_wf_len [OF assms(1)] by (simp only: signed_take_bit_31)
  then show ?thesis using assms value_wf_len [OF assms(1)]
    by (simp add: msgpack_unpack_paxos_value_at_def msgpack_unpack_string_at_def array_read_def sent_value_def)
qed

lemma unpack_int_items:
  assumes "i < length xs"
  shows "xs ! i = U32 w \<Longrightarrow> msgpack_unpack_uint32_at (MSGPACK_ARRAY (map item_object xs)) i = Some (w, i + 1)"
    and "xs ! i = U16 w' \<Longrightarrow> msgpack_unpack_uint16_at (MSGPACK_ARRAY (map item_object xs)) i = Some (w', i + 1)"
  using assms
  by (simp_all add: msgpack_unpack_uint32_at_def msgpack_unpack_uint16_at_def array_read_def unsigned_ucast_eq take_bit_word_eq_self)

lemma unpack_record_items:
  assumes "value_wf (pvalue v)"
  shows "unpack_record_fields (MSGPACK_ARRAY (map item_object (x # record_items v))) =
    Some (v\<lparr>pvalue := sent_value (pvalue v)\<rparr>)"
proof -
  let ?xs = "x # record_items v"
  have "msgpack_unpack_uint32_at (MSGPACK_ARRAY (map item_object ?xs)) 1 = Some (iid v, 2)"
    "msgpack_unpack_uint16_at (MSGPACK_ARRAY (map item_object ?xs)) 2 = Some (ballot v, 3)"
    "msgpack_unpack_uint16_at (MSGPACK_ARRAY (map item_object ?xs)) 3 = Some (value_ballot v, 4)"
    "msgpack_unpack_uint16_at (MSGPACK_ARRAY (map item_object ?xs)) 4 = Some (aid v, 5)"
    "msgpack_unpack_paxos_value_at (MSGPACK_ARRAY (map item_object ?xs)) 5 = Some (sent_value (pvalue v), 6)"
    using unpack_int_items(1) [of 1 ?xs "iid v"] unpack_int_items(2) [of 2 ?xs "ballot v"]
      unpack_int_items(2) [of 3 ?xs "value_ballot v"] unpack_int_items(2) [of 4 ?xs "aid v"]
      unpack_value_items [OF assms, of ?xs 5]
    by (simp_all add: record_items_def eval_nat_numeral)
  then show ?thesis by (simp add: unpack_record_fields_def del: list.map)
qed

lemma unpack_message_items:
  assumes "message_wf m"
  shows "msgpack_unpack_paxos_message (MSGPACK_ARRAY (map item_object (message_items m))) = Some (Some (arrives m))"
proof -
  note records = unpack_record_items [of _ "U16 0"] unpack_record_items [of _ "I16 1"] unpack_record_items [of _ "I16 2"]
    unpack_record_items [of _ "I16 3"] unpack_record_items [of _ "I16 4"]
  show ?thesis
    using assms unpack_value_items [of _ "message_items m" 1]
    by (cases m) (simp_all add: msgpack_unpack_paxos_message_def array_read_def msgpack_unpack_paxos_prepare_def
      msgpack_unpack_paxos_promise_def msgpack_unpack_paxos_accept_def msgpack_unpack_paxos_accepted_def
      msgpack_unpack_paxos_preempted_def msgpack_unpack_paxos_repeat_def msgpack_unpack_paxos_trim_def
      msgpack_unpack_paxos_acceptor_state_def msgpack_unpack_paxos_client_value_def records [simplified]
      msgpack_unpack_uint32_at_def unsigned_ucast_eq take_bit_word_eq_self)
qed

lemma message_items_ok: "message_wf m \<Longrightarrow> length (message_items m) < 16 \<and> list_all item_ok (message_items m)"
  by (cases m) (auto simp: record_items_def value_wf_def value_bytes_def buf_len_def split: option.splits)

lemma msgpack_lawD:
  assumes "msgpack_law mp" "message_wf m"
  shows "fst (unpack_next mp (message_bytes mp m @ rest)) > 0"
    and "snd (unpack_next mp (message_bytes mp m @ rest)) =
      (MSGPACK_ARRAY (map item_object (message_items m)), length (message_bytes mp m))"
    and "strict_prefix bs (message_bytes mp m) \<Longrightarrow> fst (unpack_next mp bs) = 0"
  using msgpack_law_array [OF assms(1), of "message_items m"] message_items_ok [OF assms(2)]
  by (simp_all add: message_bytes_def)

lemma message_bytes_nonempty:
  assumes "msgpack_law mp" "message_wf m"
  shows "message_bytes mp m \<noteq> []"
proof
  assume "message_bytes mp m = []"
  then have "snd (unpack_next mp (array_bytes mp [])) = (MSGPACK_ARRAY (map item_object (message_items m)), 0)"
    using msgpack_lawD(2) [OF assms, of "array_bytes mp []"] by simp
  moreover have "fst (snd (unpack_next mp (array_bytes mp [] @ []))) = MSGPACK_ARRAY []"
    using msgpack_law_array(2) [OF assms(1), of "[]" "[]"] by simp
  ultimately show False by (cases m) simp_all
qed

text \<open>A whole message at the front of the input is read and removed; part of one is left alone.\<close>

lemma recv_message:
  assumes "msgpack_law mp" "message_wf m"
  shows "recv_paxos_message mp (message_bytes mp m @ rest) = Some (1, rest, Some (arrives m))"
  using msgpack_lawD(1,2) [OF assms, of rest] message_bytes_nonempty [OF assms] unpack_message_items [OF assms(2)]
  by (cases "unpack_next mp (message_bytes mp m @ rest)") (auto simp: recv_paxos_message_def)

lemma recv_incomplete:
  assumes "msgpack_law mp" "message_wf m" "strict_prefix bs (message_bytes mp m)"
  shows "recv_paxos_message mp bs = Some (0, bs, None)"
  using msgpack_lawD(3) [OF assms] by (cases "unpack_next mp bs") (auto simp: recv_paxos_message_def)

lemma send_bytes: "message_wf m \<Longrightarrow> send_paxos_message mp bev m = Some (bev @ message_bytes mp m)"
  by (simp add: send_paxos_message_def pack_message_bytes bufferevent_pack_data_def)

end
