(* ===== verification/Net_Message.thy ===== *)
theory Net_Message
  imports Paxos_Types
begin

text \<open>
  The datagram format of the in-network library (\<open>net/message_pack.c\<close>). A buffer is the list of
  its bytes; a read or write that leaves it is a fault. Numbers travel in network byte order at fixed
  offsets: the type in bytes 0 and 1, then the fields, then the length and the bytes of the value.
\<close>

unbundle bit_operations_syntax

section \<open>Numbers\<close>

definition htonl :: "32 word \<Rightarrow> byte list" where
  "htonl w = [ucast (drop_bit 24 w), ucast (drop_bit 16 w), ucast (drop_bit 8 w), ucast w]"

definition htons :: "u16 \<Rightarrow> byte list" where
  "htons w = [ucast (drop_bit 8 w), ucast w]"

definition ntohl :: "byte list \<Rightarrow> 32 word" where
  "ntohl bs = push_bit 24 (ucast (bs ! 0)) OR push_bit 16 (ucast (bs ! 1)) OR push_bit 8 (ucast (bs ! 2)) OR
     ucast (bs ! 3)"

definition ntohs :: "byte list \<Rightarrow> u16" where
  "ntohs bs = push_bit 8 (ucast (bs ! 0)) OR ucast (bs ! 1)"

lemmas word_bits = bit_or_iff bit_push_bit_iff bit_unsigned_iff bit_drop_bit_eq comp_def

lemma ntohl_htonl [simp]: "ntohl (htonl w) = w"
proof (rule bit_word_eqI)
  fix n assume "n < LENGTH(32)"
  then show "bit (ntohl (htonl w)) n = bit w n"
    unfolding ntohl_def htonl_def word_bits
    by (cases "24 \<le> n"; cases "16 \<le> n"; cases "8 \<le> n") (auto simp: possible_bit_word bit_unsigned_iff bit_drop_bit_eq)
qed

lemma ntohs_htons [simp]: "ntohs (htons w) = w"
proof (rule bit_word_eqI)
  fix n assume "n < LENGTH(16)"
  then show "bit (ntohs (htons w)) n = bit w n"
    unfolding ntohs_def htons_def word_bits by (cases "8 \<le> n") (auto simp: possible_bit_word bit_unsigned_iff bit_drop_bit_eq)
qed

lemma length_hton [simp]: "length (htonl w) = 4" "length (htons w') = 2"
  by (simp_all add: htonl_def htons_def)

definition pack_uint32 :: "byte list \<Rightarrow> 32 word \<Rightarrow> nat \<Rightarrow> byte list option" where
  "pack_uint32 p v offset = mem_write p offset (htonl v)"

definition pack_uint16 :: "byte list \<Rightarrow> u16 \<Rightarrow> nat \<Rightarrow> byte list option" where
  "pack_uint16 p v offset = mem_write p offset (htons v)"

definition pack_value :: "byte list \<Rightarrow> paxos_value \<Rightarrow> nat \<Rightarrow> byte list option" where
  "pack_value p v offset = do {
     p \<leftarrow> pack_uint32 p (word_of_int (paxos_value_len v)) offset;
     bs \<leftarrow> mem_read (paxos_value_val v) (size_of_int (paxos_value_len v));
     mem_write p (offset + 4) bs
   }"

definition unpack_uint32 :: "byte list \<Rightarrow> nat \<Rightarrow> 32 word option" where
  "unpack_uint32 p offset = map_option ntohl (mem_get p offset 4)"

definition unpack_uint16 :: "byte list \<Rightarrow> nat \<Rightarrow> u16 option" where
  "unpack_uint16 p offset = map_option ntohs (mem_get p offset 2)"

text \<open>The copy of a value has one byte more than its length says: the string terminator.\<close>

definition unpack_value :: "byte list \<Rightarrow> nat \<Rightarrow> paxos_value option" where
  "unpack_value p offset = do {
     w \<leftarrow> unpack_uint32 p offset;
     let n = sint w;
     if n > 0 then do {
       c_assert (n + 1 < 2 ^ 31);
       bs \<leftarrow> mem_get p (offset + 4) (nat n);
       Some \<lparr>paxos_value_len = n, paxos_value_val = Some (bs @ [0])\<rparr>
     }
     else Some \<lparr>paxos_value_len = n, paxos_value_val = None\<rparr>
   }"

section \<open>Messages\<close>

text \<open>The offsets of the fields.\<close>

definition MSGTYPE_OFFSET :: nat where "MSGTYPE_OFFSET = 0"
definition IID_OFFSET :: nat where "IID_OFFSET = 2"
definition BALLOT_OFFSET :: nat where "BALLOT_OFFSET = 6"
definition VALUE_BALLOT_OFFSET :: nat where "VALUE_BALLOT_OFFSET = 8"
definition AID_OFFSET :: nat where "AID_OFFSET = 10"
definition VALUE_OFFSET :: nat where "VALUE_OFFSET = 12"
definition FROM_OFFSET :: nat where "FROM_OFFSET = 2"
definition TO_OFFSET :: nat where "TO_OFFSET = 6"
definition TRIM_OFFSET :: nat where "TRIM_OFFSET = 2"
definition STATE_AID_OFFSET :: nat where "STATE_AID_OFFSET = 2"
definition TRIM_IID_OFFSET :: nat where "TRIM_IID_OFFSET = 6"

lemmas offsets = MSGTYPE_OFFSET_def IID_OFFSET_def BALLOT_OFFSET_def VALUE_BALLOT_OFFSET_def AID_OFFSET_def
  VALUE_OFFSET_def FROM_OFFSET_def TO_OFFSET_def TRIM_OFFSET_def STATE_AID_OFFSET_def TRIM_IID_OFFSET_def

text \<open>The fields that the five messages with a record share.\<close>

definition pack_fields :: "u16 \<Rightarrow> byte list \<Rightarrow> paxos_record \<Rightarrow> byte list option" where
  "pack_fields msgtype p v = do {
     p \<leftarrow> pack_uint16 p msgtype MSGTYPE_OFFSET;
     p \<leftarrow> pack_uint32 p (iid v) IID_OFFSET;
     p \<leftarrow> pack_uint16 p (ballot v) BALLOT_OFFSET;
     p \<leftarrow> pack_uint16 p (value_ballot v) VALUE_BALLOT_OFFSET;
     p \<leftarrow> pack_uint16 p (aid v) AID_OFFSET;
     pack_value p (pvalue v) VALUE_OFFSET
   }"

definition unpack_fields :: "byte list \<Rightarrow> paxos_record option" where
  "unpack_fields p = do {
     i \<leftarrow> unpack_uint32 p IID_OFFSET;
     b \<leftarrow> unpack_uint16 p BALLOT_OFFSET;
     vb \<leftarrow> unpack_uint16 p VALUE_BALLOT_OFFSET;
     a \<leftarrow> unpack_uint16 p AID_OFFSET;
     v \<leftarrow> unpack_value p VALUE_OFFSET;
     Some \<lparr>iid = i, ballot = b, value_ballot = vb, aid = a, pvalue = v\<rparr>
   }"

definition pack_paxos_prepare :: "byte list \<Rightarrow> paxos_prepare \<Rightarrow> byte list option" where
  "pack_paxos_prepare = pack_fields 0"

definition unpack_paxos_prepare :: "byte list \<Rightarrow> paxos_prepare option" where
  "unpack_paxos_prepare = unpack_fields"

definition pack_paxos_promise :: "byte list \<Rightarrow> paxos_promise \<Rightarrow> byte list option" where
  "pack_paxos_promise = pack_fields 1"

definition unpack_paxos_promise :: "byte list \<Rightarrow> paxos_promise option" where
  "unpack_paxos_promise = unpack_fields"

definition pack_paxos_accept :: "byte list \<Rightarrow> paxos_accept \<Rightarrow> byte list option" where
  "pack_paxos_accept = pack_fields 2"

definition unpack_paxos_accept :: "byte list \<Rightarrow> paxos_accept option" where
  "unpack_paxos_accept = unpack_fields"

definition pack_paxos_accepted :: "byte list \<Rightarrow> paxos_accepted \<Rightarrow> byte list option" where
  "pack_paxos_accepted = pack_fields 3"

definition unpack_paxos_accepted :: "byte list \<Rightarrow> paxos_accepted option" where
  "unpack_paxos_accepted = unpack_fields"

definition pack_paxos_preempted :: "byte list \<Rightarrow> paxos_preempted \<Rightarrow> byte list option" where
  "pack_paxos_preempted = pack_fields 4"

definition unpack_paxos_preempted :: "byte list \<Rightarrow> paxos_preempted option" where
  "unpack_paxos_preempted = unpack_fields"

definition pack_paxos_repeat :: "byte list \<Rightarrow> paxos_repeat \<Rightarrow> byte list option" where
  "pack_paxos_repeat p v = do {
     p \<leftarrow> pack_uint16 p 5 MSGTYPE_OFFSET;
     p \<leftarrow> pack_uint32 p (repeat_from v) FROM_OFFSET;
     pack_uint32 p (repeat_to v) TO_OFFSET
   }"

definition unpack_paxos_repeat :: "byte list \<Rightarrow> paxos_repeat option" where
  "unpack_paxos_repeat p = do {
     f \<leftarrow> unpack_uint32 p FROM_OFFSET;
     t \<leftarrow> unpack_uint32 p TO_OFFSET;
     Some \<lparr>repeat_from = f, repeat_to = t\<rparr>
   }"

definition pack_paxos_trim :: "byte list \<Rightarrow> paxos_trim \<Rightarrow> byte list option" where
  "pack_paxos_trim p v = do {
     p \<leftarrow> pack_uint16 p 6 MSGTYPE_OFFSET;
     pack_uint32 p (trim_iid v) TRIM_OFFSET
   }"

definition unpack_paxos_trim :: "byte list \<Rightarrow> paxos_trim option" where
  "unpack_paxos_trim p = do {
     i \<leftarrow> unpack_uint32 p TRIM_OFFSET;
     Some \<lparr>trim_iid = i\<rparr>
   }"

definition pack_paxos_acceptor_state :: "byte list \<Rightarrow> paxos_acceptor_state \<Rightarrow> byte list option" where
  "pack_paxos_acceptor_state p v = do {
     p \<leftarrow> pack_uint16 p 7 MSGTYPE_OFFSET;
     p \<leftarrow> pack_uint32 p (state_aid v) STATE_AID_OFFSET;
     pack_uint32 p (state_trim_iid v) TRIM_IID_OFFSET
   }"

definition unpack_paxos_acceptor_state :: "byte list \<Rightarrow> paxos_acceptor_state option" where
  "unpack_paxos_acceptor_state p = do {
     a \<leftarrow> unpack_uint32 p STATE_AID_OFFSET;
     t \<leftarrow> unpack_uint32 p TRIM_IID_OFFSET;
     Some \<lparr>state_aid = a, state_trim_iid = t\<rparr>
   }"

text \<open>A client value is packed without its message type.\<close>

definition pack_paxos_client_value :: "byte list \<Rightarrow> paxos_client_value \<Rightarrow> byte list option" where
  "pack_paxos_client_value p v = pack_value p (client_value v) 2"

definition unpack_paxos_client_value :: "byte list \<Rightarrow> paxos_client_value option" where
  "unpack_paxos_client_value p = do {
     v \<leftarrow> unpack_value p 2;
     Some \<lparr>client_value = v\<rparr>
   }"

text \<open>
  The size of the packed struct \<open>paxos_message\<close> on a 64-bit machine: 4 bytes for the enumeration and
  22 for the largest member of the union. It is the length of the datagram, to which the length of the
  value is added for three of the messages.
\<close>

definition sizeof_paxos_message :: int where
  "sizeof_paxos_message = 26"

fun pack_paxos_message :: "byte list \<Rightarrow> paxos_message \<Rightarrow> (byte list \<times> nat) option" where
  "pack_paxos_message p (PAXOS_PREPARE v) =
     map_option (\<lambda>p. (p, size_of_int sizeof_paxos_message)) (pack_paxos_prepare p v)"
| "pack_paxos_message p (PAXOS_PROMISE v) =
     map_option (\<lambda>p. (p, size_of_int (sizeof_paxos_message + paxos_value_len (pvalue v)))) (pack_paxos_promise p v)"
| "pack_paxos_message p (PAXOS_ACCEPT v) =
     map_option (\<lambda>p. (p, size_of_int (sizeof_paxos_message + paxos_value_len (pvalue v)))) (pack_paxos_accept p v)"
| "pack_paxos_message p (PAXOS_ACCEPTED v) =
     map_option (\<lambda>p. (p, size_of_int (sizeof_paxos_message + paxos_value_len (pvalue v)))) (pack_paxos_accepted p v)"
| "pack_paxos_message p (PAXOS_PREEMPTED v) =
     map_option (\<lambda>p. (p, size_of_int sizeof_paxos_message)) (pack_paxos_preempted p v)"
| "pack_paxos_message p (PAXOS_REPEAT v) =
     map_option (\<lambda>p. (p, size_of_int sizeof_paxos_message)) (pack_paxos_repeat p v)"
| "pack_paxos_message p (PAXOS_TRIM v) =
     map_option (\<lambda>p. (p, size_of_int sizeof_paxos_message)) (pack_paxos_trim p v)"
| "pack_paxos_message p (PAXOS_ACCEPTOR_STATE v) =
     map_option (\<lambda>p. (p, size_of_int sizeof_paxos_message)) (pack_paxos_acceptor_state p v)"
| "pack_paxos_message p (PAXOS_CLIENT_VALUE v) =
     map_option (\<lambda>p. (p, size_of_int sizeof_paxos_message)) (pack_paxos_client_value p v)"

text \<open>An unknown type leaves the message without contents: \<^term>\<open>Some None\<close>.\<close>

definition unpack_paxos_message :: "byte list \<Rightarrow> paxos_message option option" where
  "unpack_paxos_message p = do {
     t \<leftarrow> unpack_uint16 p MSGTYPE_OFFSET;
     if t = 0 then map_option (\<lambda>v. Some (PAXOS_PREPARE v)) (unpack_paxos_prepare p)
     else if t = 1 then map_option (\<lambda>v. Some (PAXOS_PROMISE v)) (unpack_paxos_promise p)
     else if t = 2 then map_option (\<lambda>v. Some (PAXOS_ACCEPT v)) (unpack_paxos_accept p)
     else if t = 3 then map_option (\<lambda>v. Some (PAXOS_ACCEPTED v)) (unpack_paxos_accepted p)
     else if t = 4 then map_option (\<lambda>v. Some (PAXOS_PREEMPTED v)) (unpack_paxos_preempted p)
     else if t = 5 then map_option (\<lambda>v. Some (PAXOS_REPEAT v)) (unpack_paxos_repeat p)
     else if t = 6 then map_option (\<lambda>v. Some (PAXOS_TRIM v)) (unpack_paxos_trim p)
     else if t = 7 then map_option (\<lambda>v. Some (PAXOS_ACCEPTOR_STATE v)) (unpack_paxos_acceptor_state p)
     else if t = 8 then map_option (\<lambda>v. Some (PAXOS_CLIENT_VALUE v)) (unpack_paxos_client_value p)
     else Some None
   }"

section \<open>Round trips\<close>

text \<open>What a receiver gets for a value: its bytes with a terminator, or a null pointer for no bytes.\<close>

definition nul_value :: "paxos_value \<Rightarrow> paxos_value" where
  "nul_value v = (if 0 < paxos_value_len v then v\<lparr>paxos_value_val := Some (value_bytes v @ [0])\<rparr>
     else v\<lparr>paxos_value_val := None\<rparr>)"

definition value_image :: "paxos_value \<Rightarrow> byte list" where
  "value_image v = htonl (word_of_int (paxos_value_len v)) @ value_bytes v"

definition record_image :: "u16 \<Rightarrow> paxos_record \<Rightarrow> byte list" where
  "record_image t v = htons t @ htonl (iid v) @ htons (ballot v) @ htons (value_ballot v) @ htons (aid v) @
     value_image (pvalue v)"

definition fits :: "paxos_value \<Rightarrow> bool" where
  "fits v \<longleftrightarrow> value_wf v \<and> paxos_value_len v + 1 < 2 ^ 31"

lemma pack_value_image:
  assumes "take n p = pre" "n + 4 + nat (paxos_value_len v) = m" "m \<le> length p" "value_wf v"
  obtains p' where "pack_value p v n = Some p'" "take m p' = pre @ value_image v" "length p' = length p"
proof -
  have len: "nat (paxos_value_len v) = length (value_bytes v)" using assms(4) by (simp add: value_wf_len)
  have read: "mem_read (paxos_value_val v) (size_of_int (paxos_value_len v)) = Some (value_bytes v)"
    using value_wf_read [OF assms(4)] assms(4) by (simp add: size_of_int_nat value_wf_def)
  obtain p1 where p1: "mem_write p n (htonl (word_of_int (paxos_value_len v))) = Some p1"
    "take (n + 4) p1 = pre @ htonl (word_of_int (paxos_value_len v))" "length p1 = length p"
    by (rule mem_write_next [where bs = "htonl (word_of_int (paxos_value_len v))" and m = "n + 4", OF assms(1)]) (use assms(2,3) in simp_all)
  obtain p2 where p2: "mem_write p1 (n + 4) (value_bytes v) = Some p2"
    "take m p2 = (pre @ htonl (word_of_int (paxos_value_len v))) @ value_bytes v" "length p2 = length p1"
    by (rule mem_write_next [where bs = "value_bytes v" and m = "m", OF p1(2)]) (use assms(2,3) p1(3) len in simp_all)
  show thesis
    by (rule that [of p2]) (use p1 p2 read in \<open>simp_all add: pack_value_def pack_uint32_def value_image_def\<close>)
qed

lemma unpack_value_image:
  assumes "take n p = pre @ value_image v" "fits v"
  shows "unpack_value p (length pre) = Some (nul_value v)"
proof -
  have len: "paxos_value_len v = int (length (value_bytes v))" using assms(2) by (simp add: fits_def value_wf_len)
  have "mem_get p (length pre) 4 = Some (htonl (word_of_int (paxos_value_len v)))"
    using mem_get_prefix [OF assms(1), of "length pre" 4] by (simp add: value_image_def)
  moreover have "mem_get p (length pre + 4) (length (value_bytes v)) = Some (value_bytes v)"
    using mem_get_prefix [OF assms(1), of "length pre + 4" "length (value_bytes v)"] by (simp add: value_image_def)
  moreover have "sint (word_of_int (paxos_value_len v) :: 32 word) = paxos_value_len v"
    using assms(2) by (simp add: fits_def value_wf_def sint_sbintrunc' signed_take_bit_int_eq_self)
  ultimately show ?thesis
    using assms(2) by (auto simp: unpack_value_def unpack_uint32_def nul_value_def Let_def fits_def len)
qed

lemma pack_fields_image:
  assumes "value_wf (pvalue v)" "16 + nat (paxos_value_len (pvalue v)) \<le> length p"
  obtains p' where "pack_fields t p v = Some p'" "take (16 + nat (paxos_value_len (pvalue v))) p' = record_image t v"
    "length p' = length p"
proof -
  obtain p1 where p1: "mem_write p 0 (htons t) = Some p1" "take 2 p1 = [] @ htons t" "length p1 = length p"
    by (rule mem_write_next [where bs = "htons t" and m = 2, of 0 p "[]"]) (use assms(2) in simp_all)
  obtain p2 where p2: "mem_write p1 2 (htonl (iid v)) = Some p2" "take 6 p2 = ([] @ htons t) @ htonl (iid v)" "length p2 = length p1"
    by (rule mem_write_next [where bs = "htonl (iid v)" and m = 6, OF p1(2)]) (use assms(2) p1(3) in simp_all)
  obtain p3 where p3: "mem_write p2 6 (htons (ballot v)) = Some p3"
    "take 8 p3 = (([] @ htons t) @ htonl (iid v)) @ htons (ballot v)" "length p3 = length p2"
    by (rule mem_write_next [where bs = "htons (ballot v)" and m = 8, OF p2(2)]) (use assms(2) p1(3) p2(3) in simp_all)
  obtain p4 where p4: "mem_write p3 8 (htons (value_ballot v)) = Some p4"
    "take 10 p4 = ((([] @ htons t) @ htonl (iid v)) @ htons (ballot v)) @ htons (value_ballot v)" "length p4 = length p3"
    by (rule mem_write_next [where bs = "htons (value_ballot v)" and m = 10, OF p3(2)]) (use assms(2) p1(3) p2(3) p3(3) in simp_all)
  obtain p5 where p5: "mem_write p4 10 (htons (aid v)) = Some p5"
    "take 12 p5 = (((([] @ htons t) @ htonl (iid v)) @ htons (ballot v)) @ htons (value_ballot v)) @ htons (aid v)"
    "length p5 = length p4"
    by (rule mem_write_next [where bs = "htons (aid v)" and m = 12, OF p4(2)]) (use assms(2) p1(3) p2(3) p3(3) p4(3) in simp_all)
  obtain p6 where p6: "pack_value p5 (pvalue v) 12 = Some p6"
    "take (16 + nat (paxos_value_len (pvalue v))) p6 =
      ((((([] @ htons t) @ htonl (iid v)) @ htons (ballot v)) @ htons (value_ballot v)) @ htons (aid v)) @ value_image (pvalue v)"
    "length p6 = length p5"
    by (rule pack_value_image [where m = "16 + nat (paxos_value_len (pvalue v))", OF p5(2) _ _ assms(1)]) (use assms(2) p1(3) p2(3) p3(3) p4(3) p5(3) in simp_all)
  have "pack_fields t p v = Some p6"
    by (simp add: pack_fields_def pack_uint16_def pack_uint32_def offsets p1(1) p2(1) p3(1) p4(1) p5(1) p6(1))
  moreover have "take (16 + nat (paxos_value_len (pvalue v))) p6 = record_image t v"
    using p6(2) by (simp only: record_image_def append.assoc append_Nil)
  moreover have "length p6 = length p" using p1(3) p2(3) p3(3) p4(3) p5(3) p6(3) by simp
  ultimately show thesis by (rule that)
qed

lemma unpack_fields_image:
  assumes "take n p = record_image t v" "fits (pvalue v)"
  shows "unpack_fields p = Some (v\<lparr>pvalue := nul_value (pvalue v)\<rparr>)" "unpack_uint16 p 0 = Some t"
proof -
  let ?pre = "htons t @ htonl (iid v) @ htons (ballot v) @ htons (value_ballot v) @ htons (aid v)"
  have "unpack_value p 12 = Some (nul_value (pvalue v))"
    using unpack_value_image [of n p ?pre] assms by (simp add: record_image_def)
  moreover note get = mem_get_prefix [OF assms(1), unfolded record_image_def]
  have "mem_get p 2 4 = Some (htonl (iid v))" "mem_get p 6 2 = Some (htons (ballot v))"
    "mem_get p 8 2 = Some (htons (value_ballot v))" "mem_get p 10 2 = Some (htons (aid v))" "mem_get p 0 2 = Some (htons t)"
    using get [of 2 4] get [of 6 2] get [of 8 2] get [of 10 2] get [of 0 2] by simp_all
  ultimately show "unpack_fields p = Some (v\<lparr>pvalue := nul_value (pvalue v)\<rparr>)" "unpack_uint16 p 0 = Some t"
    by (simp_all add: unpack_fields_def unpack_uint32_def unpack_uint16_def offsets)
qed

text \<open>What a message carries on the wire, and what the receiver gets.\<close>

fun wire_len :: "paxos_message \<Rightarrow> nat" where
  "wire_len (PAXOS_PREPARE v) = 16 + nat (paxos_value_len (pvalue v))"
| "wire_len (PAXOS_PROMISE v) = 16 + nat (paxos_value_len (pvalue v))"
| "wire_len (PAXOS_ACCEPT v) = 16 + nat (paxos_value_len (pvalue v))"
| "wire_len (PAXOS_ACCEPTED v) = 16 + nat (paxos_value_len (pvalue v))"
| "wire_len (PAXOS_PREEMPTED v) = 16 + nat (paxos_value_len (pvalue v))"
| "wire_len (PAXOS_REPEAT _) = 10"
| "wire_len (PAXOS_TRIM _) = 6"
| "wire_len (PAXOS_ACCEPTOR_STATE _) = 10"
| "wire_len (PAXOS_CLIENT_VALUE v) = 6 + nat (paxos_value_len (client_value v))"

fun message_fits :: "paxos_message \<Rightarrow> bool" where
  "message_fits (PAXOS_PREPARE v) = fits (pvalue v)"
| "message_fits (PAXOS_PROMISE v) = fits (pvalue v)"
| "message_fits (PAXOS_ACCEPT v) = fits (pvalue v)"
| "message_fits (PAXOS_ACCEPTED v) = fits (pvalue v)"
| "message_fits (PAXOS_PREEMPTED v) = fits (pvalue v)"
| "message_fits (PAXOS_CLIENT_VALUE v) = fits (client_value v)"
| "message_fits _ = True"

fun received :: "paxos_message \<Rightarrow> paxos_message" where
  "received (PAXOS_PREPARE v) = PAXOS_PREPARE (v\<lparr>pvalue := nul_value (pvalue v)\<rparr>)"
| "received (PAXOS_PROMISE v) = PAXOS_PROMISE (v\<lparr>pvalue := nul_value (pvalue v)\<rparr>)"
| "received (PAXOS_ACCEPT v) = PAXOS_ACCEPT (v\<lparr>pvalue := nul_value (pvalue v)\<rparr>)"
| "received (PAXOS_ACCEPTED v) = PAXOS_ACCEPTED (v\<lparr>pvalue := nul_value (pvalue v)\<rparr>)"
| "received (PAXOS_PREEMPTED v) = PAXOS_PREEMPTED (v\<lparr>pvalue := nul_value (pvalue v)\<rparr>)"
| "received (PAXOS_CLIENT_VALUE v) = PAXOS_CLIENT_VALUE (v\<lparr>client_value := nul_value (client_value v)\<rparr>)"
| "received m = m"

lemmas pack_defs = pack_paxos_prepare_def pack_paxos_promise_def pack_paxos_accept_def pack_paxos_accepted_def
  pack_paxos_preempted_def pack_paxos_repeat_def pack_paxos_trim_def pack_paxos_acceptor_state_def
  pack_paxos_client_value_def pack_uint16_def pack_uint32_def offsets

lemmas unpack_defs = unpack_paxos_message_def unpack_paxos_prepare_def unpack_paxos_promise_def unpack_paxos_accept_def
  unpack_paxos_accepted_def unpack_paxos_preempted_def unpack_paxos_repeat_def unpack_paxos_trim_def
  unpack_paxos_acceptor_state_def unpack_paxos_client_value_def unpack_uint16_def unpack_uint32_def offsets

text \<open>The bytes of a message, and the length of its datagram.\<close>

fun message_image :: "paxos_message \<Rightarrow> byte list" where
  "message_image (PAXOS_PREPARE v) = record_image 0 v"
| "message_image (PAXOS_PROMISE v) = record_image 1 v"
| "message_image (PAXOS_ACCEPT v) = record_image 2 v"
| "message_image (PAXOS_ACCEPTED v) = record_image 3 v"
| "message_image (PAXOS_PREEMPTED v) = record_image 4 v"
| "message_image (PAXOS_REPEAT v) = htons 5 @ htonl (repeat_from v) @ htonl (repeat_to v)"
| "message_image (PAXOS_TRIM v) = htons 6 @ htonl (trim_iid v)"
| "message_image (PAXOS_ACCEPTOR_STATE v) = htons 7 @ htonl (state_aid v) @ htonl (state_trim_iid v)"
| "message_image (PAXOS_CLIENT_VALUE v) = []"

fun dgram_len :: "paxos_message \<Rightarrow> int" where
  "dgram_len (PAXOS_PROMISE v) = sizeof_paxos_message + paxos_value_len (pvalue v)"
| "dgram_len (PAXOS_ACCEPT v) = sizeof_paxos_message + paxos_value_len (pvalue v)"
| "dgram_len (PAXOS_ACCEPTED v) = sizeof_paxos_message + paxos_value_len (pvalue v)"
| "dgram_len _ = sizeof_paxos_message"

abbreviation is_client_value :: "paxos_message \<Rightarrow> bool" where
  "is_client_value m \<equiv> (\<exists>v. m = PAXOS_CLIENT_VALUE v)"

lemma trim_image:
  assumes "6 \<le> length p"
  obtains p1 p2 where "mem_write p 0 (htons t) = Some p1" "mem_write p1 2 (htonl a) = Some p2"
    "take 6 p2 = htons t @ htonl a" "length p2 = length p"
proof -
  obtain p1 where p1: "mem_write p 0 (htons t) = Some p1" "take 2 p1 = [] @ htons t" "length p1 = length p"
    by (rule mem_write_next [where bs = "htons t" and m = 2, of 0 p "[]"]) (use assms in simp_all)
  obtain p2 where p2: "mem_write p1 2 (htonl a) = Some p2" "take 6 p2 = ([] @ htons t) @ htonl a" "length p2 = length p1"
    by (rule mem_write_next [where bs = "htonl a" and m = 6, OF p1(2)]) (use assms p1(3) in simp_all)
  show thesis by (rule that [OF p1(1) p2(1)]) (use p1 p2 in simp_all)
qed

text \<open>Two numbers after the type: repeat requests and acceptor states.\<close>

lemma pair_image:
  assumes "10 \<le> length p"
  obtains p1 p2 p3 where "mem_write p 0 (htons t) = Some p1" "mem_write p1 2 (htonl a) = Some p2"
    "mem_write p2 6 (htonl b) = Some p3" "take 10 p3 = htons t @ htonl a @ htonl b" "length p3 = length p"
proof -
  obtain p1 p2 where p: "mem_write p 0 (htons t) = Some p1" "mem_write p1 2 (htonl a) = Some p2"
    "take 6 p2 = htons t @ htonl a" "length p2 = length p"
    by (rule trim_image [of p t a]) (use assms in simp_all)
  obtain p3 where p3: "mem_write p2 6 (htonl b) = Some p3" "take 10 p3 = (htons t @ htonl a) @ htonl b"
    "length p3 = length p2"
    by (rule mem_write_next [where bs = "htonl b" and m = 10, OF p(3)]) (use assms p(4) in simp_all)
  show thesis by (rule that [OF p(1,2) p3(1)]) (use p(4) p3(2,3) in simp_all)
qed

lemma pack_message_image:
  assumes "message_fits m" "wire_len m \<le> length p" "\<not> is_client_value m"
  shows "\<exists>p'. pack_paxos_message p m = Some (p', size_of_int (dgram_len m)) \<and> take (wire_len m) p' = message_image m \<and>
    length p' = length p"
proof -
  have records: "\<exists>p'. map_option (\<lambda>p. (p, k)) (pack_fields t p v) = Some (p', k) \<and>
      take (16 + nat (paxos_value_len (pvalue v))) p' = record_image t v \<and> length p' = length p"
    if "fits (pvalue v)" "16 + nat (paxos_value_len (pvalue v)) \<le> length p" for t v k
    by (rule pack_fields_image [of v p t]) (use that in \<open>auto simp: fits_def\<close>)
  show ?thesis
  proof (cases m)
    case (PAXOS_PREPARE v)
    then show ?thesis using assms records [of v "size_of_int (dgram_len m)" 0] by (simp add: pack_defs)
  next
    case (PAXOS_PROMISE v)
    then show ?thesis using assms records [of v "size_of_int (dgram_len m)" 1] by (simp add: pack_defs)
  next
    case (PAXOS_ACCEPT v)
    then show ?thesis using assms records [of v "size_of_int (dgram_len m)" 2] by (simp add: pack_defs)
  next
    case (PAXOS_ACCEPTED v)
    then show ?thesis using assms records [of v "size_of_int (dgram_len m)" 3] by (simp add: pack_defs)
  next
    case (PAXOS_PREEMPTED v)
    then show ?thesis using assms records [of v "size_of_int (dgram_len m)" 4] by (simp add: pack_defs)
  next
    case (PAXOS_REPEAT v)
    then show ?thesis using assms
      by (auto simp: pack_defs intro: pair_image [of p 5 "repeat_from v" "repeat_to v"])
  next
    case (PAXOS_TRIM v)
    then show ?thesis using assms by (auto simp: pack_defs intro: trim_image [of p 6 "trim_iid v"])
  next
    case (PAXOS_ACCEPTOR_STATE v)
    then show ?thesis using assms
      by (auto simp: pack_defs intro: pair_image [of p 7 "state_aid v" "state_trim_iid v"])
  qed (use assms(3) in simp)
qed

lemma unpack_message_image:
  assumes "take n q = message_image m" "message_fits m" "\<not> is_client_value m"
  shows "unpack_paxos_message q = Some (Some (received m))"
proof -
  have records: "unpack_fields q = Some (v\<lparr>pvalue := nul_value (pvalue v)\<rparr>)" "mem_get q 0 2 = Some (htons t)"
    if "take n q = record_image t v" "fits (pvalue v)" for t v
    using unpack_fields_image(1) [OF that] mem_get_prefix [OF that(1), of 0 2] by (simp_all add: record_image_def)
  note get = mem_get_prefix [OF assms(1)]
  show ?thesis
  proof (cases m)
    case (PAXOS_PREPARE v)
    then show ?thesis using assms records [of 0 v] by (simp add: unpack_defs)
  next
    case (PAXOS_PROMISE v)
    then show ?thesis using assms records [of 1 v] by (simp add: unpack_defs)
  next
    case (PAXOS_ACCEPT v)
    then show ?thesis using assms records [of 2 v] by (simp add: unpack_defs)
  next
    case (PAXOS_ACCEPTED v)
    then show ?thesis using assms records [of 3 v] by (simp add: unpack_defs)
  next
    case (PAXOS_PREEMPTED v)
    then show ?thesis using assms records [of 4 v] by (simp add: unpack_defs)
  qed (use assms(3) get [of 0 2] get [of 2 4] get [of 6 4] in \<open>simp_all add: unpack_defs\<close>)
qed

lemma message_round_trip:
  assumes "message_fits m" "wire_len m \<le> length p" "\<not> is_client_value m"
  shows "\<exists>p' n. pack_paxos_message p m = Some (p', n) \<and> unpack_paxos_message p' = Some (Some (received m))"
  using pack_message_image [OF assms] unpack_message_image [OF _ assms(1,3)] by blast

lemma mem_write_Some: "mem_write p off bs = Some p' \<Longrightarrow> off + length bs \<le> length p \<and> length p' = length p"
  by (auto simp: mem_write_def split: if_splits)

lemma pack_value_room:
  assumes "pack_value p v off = Some p'" "value_wf v"
  shows "off + 4 + nat (paxos_value_len v) \<le> length p"
proof -
  have read: "mem_read (paxos_value_val v) (size_of_int (paxos_value_len v)) = Some (value_bytes v)"
    using value_wf_read [OF assms(2)] assms(2) by (simp add: size_of_int_nat value_wf_def)
  then show ?thesis
    using assms value_wf_len [OF assms(2)]
    by (auto simp: pack_value_def pack_uint32_def bind_eq_Some_conv dest!: mem_write_Some)
qed

text \<open>A message that does not fit is written past the end of the buffer.\<close>

lemma pack_fields_room:
  assumes "pack_fields t p v = Some p'" "value_wf (pvalue v)"
  shows "16 + nat (paxos_value_len (pvalue v)) \<le> length p"
  using assms(1)
  by (auto simp: pack_fields_def pack_uint16_def pack_uint32_def offsets bind_eq_Some_conv
    dest!: mem_write_Some pack_value_room [OF _ assms(2)])

lemma message_overflow:
  assumes "message_fits m" "length p < wire_len m"
  shows "pack_paxos_message p m = None"
proof (rule ccontr)
  assume "pack_paxos_message p m \<noteq> None"
  then obtain p' n where "pack_paxos_message p m = Some (p', n)" by auto
  then have "wire_len m \<le> length p"
    using assms(1)
    by (cases m) (auto simp: pack_defs bind_eq_Some_conv fits_def dest!: mem_write_Some
      dest: pack_fields_room pack_value_room)
  then show False using assms(2) by simp
qed

text \<open>
  The type of a client value is not written: the receiver takes the type that the buffer had before.
  In a cleared buffer a client value arrives as a prepare message.
\<close>

lemma client_value_keeps_type:
  assumes "fits (client_value v)" "6 + nat (paxos_value_len (client_value v)) \<le> length p"
  shows "\<exists>p'. pack_paxos_message p (PAXOS_CLIENT_VALUE v) = Some (p', size_of_int sizeof_paxos_message) \<and> take 2 p' = take 2 p"
proof -
  have wf: "value_wf (client_value v)" using assms(1) by (simp add: fits_def)
  have read: "mem_read (paxos_value_val (client_value v)) (size_of_int (paxos_value_len (client_value v))) =
      Some (value_bytes (client_value v))"
    using value_wf_read [OF wf] wf by (simp add: size_of_int_nat value_wf_def)
  show ?thesis
    using assms(2) read value_wf_len [OF wf]
    by (simp add: pack_defs pack_value_def mem_write_def)
qed

lemma client_value_type_lost:
  assumes "take 2 p' = [0, 0]"
  shows "unpack_paxos_message p' \<noteq> Some (Some (PAXOS_CLIENT_VALUE v'))"
proof -
  have "mem_get p' 0 2 = Some (htons 0)" using mem_get_prefix [of 2 p' "[0, 0]" 0 2] assms by (simp add: htons_def)
  then show ?thesis by (auto simp: unpack_defs)
qed

end
