(* ===== verification/Msgpack_Format.thy ===== *)
theory Msgpack_Format
  imports Ev_Message Net_Message
begin

text \<open>
  An instance of the MessagePack parameter: the encodings of fixed width of the format, with a decoder
  for them. It shows that the laws can hold and makes the stream functions executable.
\<close>

definition take_bytes :: "nat \<Rightarrow> byte list \<Rightarrow> (byte list \<times> byte list) option" where
  "take_bytes n bs = (if n \<le> length bs then Some (take n bs, drop n bs) else None)"

definition get_item :: "byte list \<Rightarrow> (msgpack_object \<times> byte list) option" where
  "get_item bs = (case bs of [] \<Rightarrow> None | b # r \<Rightarrow>
     if b = 205 then map_option (\<lambda>(xs, r). (MSGPACK_POSITIVE_INTEGER (ucast (ntohs xs)), r)) (take_bytes 2 r)
     else if b = 206 then map_option (\<lambda>(xs, r). (MSGPACK_POSITIVE_INTEGER (ucast (ntohl xs)), r)) (take_bytes 4 r)
     else if b = 198 then do {
       (xs, r) \<leftarrow> take_bytes 4 r;
       map_option (\<lambda>(xs, r). (MSGPACK_BIN xs, r)) (take_bytes (unat (ntohl xs)) r)
     }
     else None)"

fun get_items :: "nat \<Rightarrow> byte list \<Rightarrow> (msgpack_object list \<times> byte list) option" where
  "get_items 0 bs = Some ([], bs)"
| "get_items (Suc n) bs = do {
     (x, r) \<leftarrow> get_item bs;
     (xs, r) \<leftarrow> get_items n r;
     Some (x # xs, r)
   }"

definition mp_fixed :: msgpack where
  "mp_fixed = \<lparr>pack_array = (\<lambda>n. [144 + of_nat n]), pack_u16 = (\<lambda>w. 205 # htons w), pack_i16 = (\<lambda>w. 205 # htons w),
     pack_u32 = (\<lambda>w. 206 # htonl w), pack_bin = (\<lambda>n. 198 # htonl (of_nat n)),
     unpack_next = (\<lambda>bs. case bs of [] \<Rightarrow> (0, MSGPACK_OTHER, 0)
       | b # r \<Rightarrow> if 144 \<le> b \<and> b < 160 then
           (case get_items (unat (b - 144)) r of
              Some (xs, r') \<Rightarrow> (2, MSGPACK_ARRAY xs, length bs - length r')
            | None \<Rightarrow> (0, MSGPACK_OTHER, 0))
         else (- 1, MSGPACK_OTHER, 0))\<rparr>"

lemma get_item_bytes: "item_ok x \<Longrightarrow> get_item (item_bytes mp_fixed x @ rest) = Some (item_object x, rest)"
  by (cases x) (simp_all add: get_item_def take_bytes_def mp_fixed_def unat_of_nat)

lemma get_items_bytes:
  "list_all item_ok xs \<Longrightarrow> get_items (length xs) (concat (map (item_bytes mp_fixed) xs) @ rest) = Some (map item_object xs, rest)"
  by (induction xs) (simp_all add: get_item_bytes)

lemma take_bytes_mono: "take_bytes n bs = Some (xs, r) \<Longrightarrow> take_bytes n (bs @ ext) = Some (xs, r @ ext)"
  by (simp add: take_bytes_def split: if_splits)

lemma get_item_mono:
  assumes "get_item bs = Some (x, r)"
  shows "get_item (bs @ ext) = Some (x, r @ ext)"
proof -
  obtain b bs' where bs: "bs = b # bs'" using assms by (cases bs) (simp_all add: get_item_def)
  have "get_item (b # bs') = Some (x, r)" using assms bs by simp
  then show ?thesis
    unfolding bs get_item_def
    by (simp split: if_splits Option.bind_splits prod.splits) (auto dest: take_bytes_mono [where ext = ext], metis take_bytes_mono option.inject prod.inject)
qed

lemma get_items_mono: "get_items n bs = Some (xs, r) \<Longrightarrow> get_items n (bs @ ext) = Some (xs, r @ ext)"
proof (induction n arbitrary: bs xs r)
  case (Suc n)
  then obtain x r1 ys where "get_item bs = Some (x, r1)" "get_items n r1 = Some (ys, r)" "xs = x # ys"
    by (auto split: Option.bind_splits)
  then show ?case using Suc.IH get_item_mono by simp
qed simp

lemma array_byte: "n < 16 \<Longrightarrow> 144 \<le> (144 + of_nat n :: byte) \<and> (144 + of_nat n :: byte) < 160"
  by (simp add: word_le_nat_alt word_less_nat_alt unat_word_ariths unat_of_nat)

lemma mp_fixed_law: "msgpack_law mp_fixed"
  unfolding msgpack_law_def
proof (intro allI impI conjI)
  fix xs :: "item list" and rest bs
  assume len: "length xs < 16" and ok: "list_all item_ok xs"
  let ?body = "concat (map (item_bytes mp_fixed) xs)"
  have bytes: "array_bytes mp_fixed xs = (144 + of_nat (length xs)) # ?body"
    by (simp add: array_bytes_def mp_fixed_def)
  have count: "unat (of_nat (length xs) :: byte) = length xs" using len by (simp add: unat_of_nat)
  note tag = array_byte [OF len]
  show "fst (unpack_next mp_fixed (array_bytes mp_fixed xs @ rest)) > 0"
    using get_items_bytes [OF ok, of rest] tag count by (simp add: bytes) (simp add: mp_fixed_def)
  show "snd (unpack_next mp_fixed (array_bytes mp_fixed xs @ rest)) =
      (MSGPACK_ARRAY (map item_object xs), length (array_bytes mp_fixed xs))"
    using get_items_bytes [OF ok, of rest] tag count by (simp add: bytes) (simp add: mp_fixed_def)
  show "fst (unpack_next mp_fixed bs) = 0" if pre: "strict_prefix bs (array_bytes mp_fixed xs)"
  proof (cases bs)
    case Nil
    then show ?thesis by (simp add: mp_fixed_def)
  next
    case (Cons b r)
    then obtain ext where ext: "b = 144 + of_nat (length xs)" "?body = r @ ext" "ext \<noteq> []"
      using pre by (auto simp: bytes strict_prefix_def prefix_def)
    have "get_items (length xs) r = None"
    proof (rule ccontr)
      assume "get_items (length xs) r \<noteq> None"
      then obtain ys r' where "get_items (length xs) r = Some (ys, r')" by auto
      from get_items_mono [OF this, of ext] show False
        using get_items_bytes [OF ok, of "[]"] ext(2,3) by simp
    qed
    then show ?thesis using Cons ext(1) tag count by (simp add: mp_fixed_def)
  qed
qed

end
