(* ===== verification/Storage_Lmdb.thy ===== *)
theory Storage_Lmdb
  imports Acceptor Net_Message
begin

text \<open>
  The backend on disk (\<open>paxos/storage_lmdb.c\<close>, \<open>paxos/storage_utils.c\<close>). The LMDB library and the file
  system are parameters: the record \<open>mdb\<close> has the calls that the code makes, over a state \<open>'w\<close> of the
  library and the disk, and \<open>mdb_law\<close> states what the library documents about transactions and
  cursors. Under these laws the backend satisfies the storage contract, so that the lemmas of the
  acceptor hold for it too.
\<close>

section \<open>Records as bytes\<close>

text \<open>Numbers in the order of a little-endian host, and \<open>%d\<close>.\<close>

definition host32 :: "32 word \<Rightarrow> byte list" where
  "host32 w = rev (htonl w)"

definition host16 :: "u16 \<Rightarrow> byte list" where
  "host16 w = rev (htons w)"

definition read32 :: "byte list \<Rightarrow> 32 word" where
  "read32 bs = ntohl (rev (take 4 bs))"

definition read16 :: "byte list \<Rightarrow> u16" where
  "read16 bs = ntohs (rev (take 2 bs))"

definition print_int :: "int \<Rightarrow> string" where
  "print_int i = (if i < 0 then CHR ''-'' # decimal (nat (- i)) else decimal (nat i))"

text \<open>
  A record is stored as its packed struct of 22 bytes, with the pointer to the value, followed by the
  bytes of the value. \<open>ptr_bytes\<close> gives the eight bytes of a pointer.
\<close>

definition sizeof_paxos_accepted :: nat where
  "sizeof_paxos_accepted = 22"

definition paxos_accepted_to_buffer :: "(cbuf \<Rightarrow> byte list) \<Rightarrow> paxos_accepted \<Rightarrow> byte list option" where
  "paxos_accepted_to_buffer ptr_bytes acc = do {
     let len = size_of_int (paxos_value_len (pvalue acc));
     bs \<leftarrow> (if len > 0 then mem_read (paxos_value_val (pvalue acc)) len else Some []);
     Some (host32 (iid acc) @ host16 (ballot acc) @ host16 (value_ballot acc) @ host16 (aid acc) @
       host32 (word_of_int (paxos_value_len (pvalue acc))) @ ptr_bytes (paxos_value_val (pvalue acc)) @ bs)
   }"

text \<open>
  A pointer that was read back is not valid any more. It is replaced when the value has bytes;
  otherwise nothing reads it, and it stands for a null pointer here.
\<close>

definition paxos_accepted_from_buffer :: "byte list \<Rightarrow> paxos_accepted option" where
  "paxos_accepted_from_buffer buffer = do {
     h \<leftarrow> mem_get buffer 0 sizeof_paxos_accepted;
     let len = sint (read32 (drop 10 h));
     v \<leftarrow> (if len > 0 then map_option Some (mem_get buffer sizeof_paxos_accepted (nat len)) else Some None);
     Some \<lparr>iid = read32 h, ballot = read16 (drop 4 h), value_ballot = read16 (drop 6 h), aid = read16 (drop 8 h),
       pvalue = \<lparr>paxos_value_len = len, paxos_value_val = v\<rparr>\<rparr>
   }"

section \<open>The library\<close>

definition MDB_NOTFOUND :: int where
  "MDB_NOTFOUND = - 30798"

text \<open>
  The calls return their result code and the new state; \<open>mdb_open\<close> also the handle, \<open>mdb_get\<close> and
  \<open>mdb_cursor_get\<close> the data. All keys have the four bytes of an instance. The comparison function
  is an argument of \<open>mdb_set_compare\<close>.
\<close>

record 'w mdb =
  mdb_env_create :: "'w \<Rightarrow> int \<times> 'w"
  mdb_env_set_mapsize :: "nat \<Rightarrow> 'w \<Rightarrow> int \<times> 'w"
  mdb_env_open :: "string \<Rightarrow> bool \<Rightarrow> 'w \<Rightarrow> int \<times> 'w"
  mdb_env_close :: "'w \<Rightarrow> 'w"
  mdb_open :: "'w \<Rightarrow> int \<times> nat \<times> 'w"
  mdb_set_compare :: "(iid_t \<Rightarrow> iid_t \<Rightarrow> int) \<Rightarrow> 'w \<Rightarrow> int \<times> 'w"
  mdb_close :: "'w \<Rightarrow> 'w"
  mdb_txn_begin :: "'w \<Rightarrow> int \<times> 'w"
  mdb_txn_commit :: "'w \<Rightarrow> int \<times> 'w"
  mdb_txn_abort :: "'w \<Rightarrow> 'w"
  mdb_get :: "iid_t \<Rightarrow> 'w \<Rightarrow> int \<times> byte list"
  mdb_put :: "iid_t \<Rightarrow> byte list \<Rightarrow> 'w \<Rightarrow> int \<times> 'w"
  mdb_cursor_open :: "'w \<Rightarrow> int \<times> 'w"
  mdb_cursor_get :: "'w \<Rightarrow> int \<times> iid_t \<times> byte list \<times> 'w"
  mdb_cursor_del :: "'w \<Rightarrow> int \<times> 'w"
  mdb_cursor_close :: "'w \<Rightarrow> 'w"
  fs_stat :: "string \<Rightarrow> 'w \<Rightarrow> bool"
  fs_mkdir :: "string \<Rightarrow> 'w \<Rightarrow> int \<times> 'w"
  fs_remove :: "string \<Rightarrow> 'w \<Rightarrow> 'w"
  mem_ptr_bytes :: "cbuf \<Rightarrow> byte list"

section \<open>Operations\<close>

text \<open>
  The handle, with the state of the library and the disk. \<open>ls_live\<close> is false once the handle was
  freed; \<open>ls_env\<close> and \<open>ls_txn\<close> tell whether the pointers are set.
\<close>

record 'w lmdb_storage =
  ls_live :: bool
  ls_world :: 'w
  ls_env :: bool
  ls_txn :: bool
  ls_dbi :: nat
  ls_acceptor_id :: int

definition lmdb_compare_iid :: "iid_t \<Rightarrow> iid_t \<Rightarrow> int" where
  "lmdb_compare_iid lid rid = (if lid = rid then 0 else if lid < rid then - 1 else 1)"

definition lmdb_init_error :: "'w mdb \<Rightarrow> bool \<Rightarrow> bool \<Rightarrow> nat \<Rightarrow> 'w \<Rightarrow> 'w" where
  "lmdb_init_error mdb env txn dbi w =
    (let w = (if txn then mdb_txn_abort mdb w else w);
         w = (if dbi \<noteq> 0 then mdb_close mdb w else w)
     in if env then mdb_env_close mdb w else w)"

text \<open>
  A failed \<open>mdb_txn_commit\<close> has freed the transaction, and the error path aborts it once more: that
  is a fault.
\<close>

definition lmdb_storage_init ::
  "'w mdb \<Rightarrow> paxos_config \<Rightarrow> 'w lmdb_storage \<Rightarrow> string \<Rightarrow> (int \<times> 'w lmdb_storage) option" where
  "lmdb_storage_init mdb cfg s db_env_path =
    (let (result, w) = mdb_env_create mdb (ls_world s) in
     if result \<noteq> 0 then Some (- 1, s\<lparr>ls_world := lmdb_init_error mdb False False 0 w\<rparr>)
     else let (result, w) = mdb_env_set_mapsize mdb (lmdb_mapsize cfg) w in
     if result \<noteq> 0 then Some (- 1, s\<lparr>ls_world := lmdb_init_error mdb True False 0 w\<rparr>)
     else let (result, w) = mdb_env_open mdb db_env_path (lmdb_sync cfg = 0) w in
     if result \<noteq> 0 then Some (- 1, s\<lparr>ls_world := lmdb_init_error mdb True False 0 w\<rparr>)
     else let (result, w) = mdb_txn_begin mdb w in
     if result \<noteq> 0 then Some (- 1, s\<lparr>ls_world := lmdb_init_error mdb True False 0 w\<rparr>)
     else let (result, dbi, w) = mdb_open mdb w in
     if result \<noteq> 0 then Some (- 1, s\<lparr>ls_world := lmdb_init_error mdb True True 0 w\<rparr>)
     else let (result, w) = mdb_set_compare mdb lmdb_compare_iid w in
     if result \<noteq> 0 then Some (- 1, s\<lparr>ls_world := lmdb_init_error mdb True True dbi w\<rparr>)
     else let (result, w) = mdb_txn_commit mdb w in
     if result \<noteq> 0 then None
     else Some (0, s\<lparr>ls_world := w, ls_env := True, ls_dbi := dbi\<rparr>))"

definition lmdb_storage_new :: "'w \<Rightarrow> int \<Rightarrow> 'w lmdb_storage" where
  "lmdb_storage_new w acceptor_id =
    \<lparr>ls_live = True, ls_world = w, ls_env = False, ls_txn = False, ls_dbi = 0, ls_acceptor_id = acceptor_id\<rparr>"

definition lmdb_storage_close :: "'w mdb \<Rightarrow> 'w lmdb_storage \<Rightarrow> 'w lmdb_storage option" where
  "lmdb_storage_close mdb s = do {
     c_assert (ls_live s);
     let w = (if ls_txn s then mdb_txn_abort mdb (ls_world s) else ls_world s);
     let w = (if ls_dbi s \<noteq> 0 then mdb_close mdb w else w);
     let w = (if ls_env s then mdb_env_close mdb w else w);
     Some (s\<lparr>ls_live := False, ls_world := w\<rparr>)
   }"

text \<open>The command that removes old files is built in a buffer of 600 bytes.\<close>

definition lmdb_storage_open :: "'w mdb \<Rightarrow> paxos_config \<Rightarrow> 'w lmdb_storage \<Rightarrow> (int \<times> 'w lmdb_storage) option" where
  "lmdb_storage_open mdb cfg s = do {
     c_assert (ls_live s);
     let path = lmdb_env_path cfg @ CHR ''_'' # print_int (ls_acceptor_id s);
     w \<leftarrow> (if trash_files cfg \<noteq> 0 then do {
            c_assert (length ''rm -r '' + length path < 600);
            Some (fs_remove mdb path (ls_world s))
          } else Some (ls_world s));
     let (rv, w) = (if fs_stat mdb path w then (0, w) else fs_mkdir mdb path w);
     if rv \<noteq> 0 then do {
       s \<leftarrow> lmdb_storage_close mdb (s\<lparr>ls_world := w\<rparr>);
       Some (- 1, s)
     }
     else do {
       (rv, s) \<leftarrow> lmdb_storage_init mdb cfg (s\<lparr>ls_world := w\<rparr>) path;
       if rv \<noteq> 0 then do {
         s \<leftarrow> lmdb_storage_close mdb s;
         Some (1, s)
       }
       else Some (0, s)
     }
   }"

definition lmdb_storage_tx_begin :: "'w mdb \<Rightarrow> 'w lmdb_storage \<Rightarrow> (int \<times> 'w lmdb_storage) option" where
  "lmdb_storage_tx_begin mdb s = do {
     c_assert (ls_live s);
     c_assert (\<not> ls_txn s);
     let (result, w) = mdb_txn_begin mdb (ls_world s);
     Some (result, s\<lparr>ls_world := w, ls_txn := (result = 0)\<rparr>)
   }"

definition lmdb_storage_tx_commit :: "'w mdb \<Rightarrow> 'w lmdb_storage \<Rightarrow> (int \<times> 'w lmdb_storage) option" where
  "lmdb_storage_tx_commit mdb s = do {
     c_assert (ls_live s);
     c_assert (ls_txn s);
     let (result, w) = mdb_txn_commit mdb (ls_world s);
     Some (result, s\<lparr>ls_world := w, ls_txn := False\<rparr>)
   }"

definition lmdb_storage_tx_abort :: "'w mdb \<Rightarrow> 'w lmdb_storage \<Rightarrow> 'w lmdb_storage option" where
  "lmdb_storage_tx_abort mdb s = do {
     c_assert (ls_live s);
     Some (if ls_txn s then s\<lparr>ls_world := mdb_txn_abort mdb (ls_world s), ls_txn := False\<rparr> else s)
   }"

text \<open>The library reads through the transaction, which must be there.\<close>

definition lmdb_storage_get ::
  "'w mdb \<Rightarrow> 'w lmdb_storage \<Rightarrow> iid_t \<Rightarrow> paxos_accepted \<Rightarrow> (int \<times> paxos_accepted \<times> 'w lmdb_storage) option" where
  "lmdb_storage_get mdb s i out = do {
     c_assert (ls_live s \<and> ls_txn s);
     let (result, data) = mdb_get mdb i (ls_world s);
     if result \<noteq> 0 then Some (0, out, s)
     else do {
       out \<leftarrow> paxos_accepted_from_buffer data;
       c_assert (i = iid out);
       Some (1, out, s)
     }
   }"

definition lmdb_storage_put :: "'w mdb \<Rightarrow> 'w lmdb_storage \<Rightarrow> paxos_accepted \<Rightarrow> (int \<times> 'w lmdb_storage) option" where
  "lmdb_storage_put mdb s acc = do {
     buffer \<leftarrow> paxos_accepted_to_buffer (mem_ptr_bytes mdb) acc;
     c_assert (ls_live s \<and> ls_txn s);
     let (result, w) = mdb_put mdb (iid acc) buffer (ls_world s);
     Some (result, s\<lparr>ls_world := w\<rparr>)
   }"

definition lmdb_storage_get_trim_instance :: "'w mdb \<Rightarrow> 'w lmdb_storage \<Rightarrow> (iid_t \<times> 'w lmdb_storage) option" where
  "lmdb_storage_get_trim_instance mdb s = do {
     c_assert (ls_live s \<and> ls_txn s);
     let (result, data) = mdb_get mdb 0 (ls_world s);
     if result \<noteq> 0 then do {
       c_assert (result = MDB_NOTFOUND);
       Some (0, s)
     }
     else do {
       bs \<leftarrow> mem_get data 0 4;
       Some (read32 bs, s)
     }
   }"

definition lmdb_storage_put_trim_instance ::
  "'w mdb \<Rightarrow> 'w lmdb_storage \<Rightarrow> iid_t \<Rightarrow> (int \<times> 'w lmdb_storage) option" where
  "lmdb_storage_put_trim_instance mdb s i = do {
     c_assert (ls_live s \<and> ls_txn s);
     let (result, w) = mdb_put mdb 0 (host32 i) (ls_world s);
     c_assert (result = 0);
     Some (0, s\<lparr>ls_world := w\<rparr>)
   }"

text \<open>
  The loop over the cursor: it ends at the first key behind \<open>i\<close>, at the end, or on an error. A
  cursor that never ends is a call that does not return.
\<close>

partial_function (option) lmdb_trim_loop :: "'w mdb \<Rightarrow> iid_t \<Rightarrow> 'w \<Rightarrow> 'w option" where
  "lmdb_trim_loop mdb i w =
    (case mdb_cursor_get mdb w of (result, k, _, w) \<Rightarrow>
       if result \<noteq> 0 then Some w
       else if k \<noteq> 0 \<and> k \<le> i then
         (case mdb_cursor_del mdb w of (result, w) \<Rightarrow>
            if result \<noteq> 0 then Some w
            else lmdb_trim_loop mdb i w)
       else if k \<le> i then lmdb_trim_loop mdb i w
       else Some w)"

definition lmdb_storage_trim :: "'w mdb \<Rightarrow> 'w lmdb_storage \<Rightarrow> iid_t \<Rightarrow> (int \<times> 'w lmdb_storage) option" where
  "lmdb_storage_trim mdb s i =
    (if i = 0 then Some (0, s)
     else do {
       (_, s) \<leftarrow> lmdb_storage_put_trim_instance mdb s i;
       let (result, w) = mdb_cursor_open mdb (ls_world s);
       if result \<noteq> 0 then Some (0, s\<lparr>ls_world := w\<rparr>)
       else do {
         w \<leftarrow> lmdb_trim_loop mdb i w;
         Some (0, s\<lparr>ls_world := mdb_cursor_close mdb w\<rparr>)
       }
     })"

definition lmdb_api :: "'w mdb \<Rightarrow> paxos_config \<Rightarrow> 'w lmdb_storage storage_api" where
  "lmdb_api mdb cfg =
    \<lparr>api_open = lmdb_storage_open mdb cfg, api_close = (\<lambda>s. map_option (\<lambda>_. ()) (lmdb_storage_close mdb s)),
     api_tx_begin = lmdb_storage_tx_begin mdb, api_tx_commit = lmdb_storage_tx_commit mdb,
     api_tx_abort = lmdb_storage_tx_abort mdb, api_get = lmdb_storage_get mdb, api_put = lmdb_storage_put mdb,
     api_trim = lmdb_storage_trim mdb, api_get_trim_instance = lmdb_storage_get_trim_instance mdb\<rparr>"

definition storage_init_lmdb :: "'w mdb \<Rightarrow> paxos_config \<Rightarrow> 'w \<Rightarrow> int \<Rightarrow> 'w lmdb_storage storage" where
  "storage_init_lmdb mdb cfg w acceptor_id = \<lparr>handle = lmdb_storage_new w acceptor_id, api = lmdb_api mdb cfg\<rparr>"

section \<open>Round trip of records\<close>

lemma host_read [simp]: "read32 (host32 w @ bs) = w" "read16 (host16 w' @ bs) = w'" "read32 (host32 w) = w"
  by (simp_all add: read32_def read16_def host32_def host16_def)

lemma length_host [simp]: "length (host32 w) = 4" "length (host16 w') = 2"
  by (simp_all add: host32_def host16_def)

definition lmdb_storable :: "paxos_value \<Rightarrow> bool" where
  "lmdb_storable v \<longleftrightarrow> value_wf v \<and> value_copy v = v"

lemma lmdb_storable_bytes: "lmdb_storable v \<Longrightarrow> \<not> 0 < paxos_value_len v \<Longrightarrow> paxos_value_val v = None"
  by (metis lmdb_storable_def value_copy_def paxos_value.select_convs(2) paxos_value.surjective paxos_value.update_convs(2))

lemma buffer_round_trip:
  assumes wf: "lmdb_storable (pvalue r)" and ptr: "length (ptr_bytes (paxos_value_val (pvalue r))) = 8"
  shows "\<exists>d. paxos_accepted_to_buffer ptr_bytes r = Some d \<and> paxos_accepted_from_buffer d = Some r"
proof -
  let ?v = "pvalue r" and ?n = "paxos_value_len (pvalue r)"
  let ?h = "host32 (iid r) @ host16 (ballot r) @ host16 (value_ballot r) @ host16 (aid r) @
    host32 (word_of_int ?n) @ ptr_bytes (paxos_value_val ?v)"
  have v: "value_wf ?v" using wf by (simp add: lmdb_storable_def)
  then have n: "0 \<le> ?n" "?n < 2 ^ 31" by (auto simp: value_wf_def)
  then have size: "size_of_int ?n = nat ?n" by (simp add: size_of_int_nat)
  have sint: "sint (word_of_int ?n :: 32 word) = ?n"
    using n by (simp add: sint_sbintrunc' signed_take_bit_int_eq_self)
  have to: "paxos_accepted_to_buffer ptr_bytes r = Some (?h @ value_bytes ?v)"
    using value_wf_read [OF v] value_wf_pos [OF v] size by (auto simp: paxos_accepted_to_buffer_def Let_def)
  have head: "mem_get (?h @ value_bytes ?v) 0 22 = Some ?h" using ptr by (simp add: mem_get_def)
  have tail: "mem_get (?h @ value_bytes ?v) 22 (nat ?n) = Some (value_bytes ?v)"
    using value_wf_len [OF v] ptr by (simp add: mem_get_def)
  have val: "paxos_value_val ?v = (if 0 < ?n then Some (value_bytes ?v) else None)"
    using v lmdb_storable_bytes [OF wf] by (auto simp: value_bytes_def value_wf_def buf_len_def split: option.splits)
  have "paxos_accepted_from_buffer (?h @ value_bytes ?v) =
      Some \<lparr>iid = iid r, ballot = ballot r, value_ballot = value_ballot r, aid = aid r,
        pvalue = \<lparr>paxos_value_len = ?n, paxos_value_val = paxos_value_val ?v\<rparr>\<rparr>"
    unfolding paxos_accepted_from_buffer_def sizeof_paxos_accepted_def head
    using tail val by (cases "0 < ?n") (simp_all add: Let_def sint)
  then show ?thesis using to by simp
qed

section \<open>The laws of the library\<close>

text \<open>
  What the laws speak about: whether the environment is open and works, whether one more entry fits,
  the directory of the environment, whether a directory holds a database that can be opened and what
  it holds, the committed entries, the entries that the open transaction sees, the entries that the
  cursor has not read yet, the key it stands on, and the state that a crash leaves behind.
\<close>

record 'w mdb_view =
  mv_usable :: "'w \<Rightarrow> bool"
  mv_room :: "'w \<Rightarrow> bool"
  mv_path :: "'w \<Rightarrow> string"
  mv_valid :: "'w \<Rightarrow> string \<Rightarrow> bool"
  mv_disk :: "'w \<Rightarrow> string \<Rightarrow> iid_t \<Rightarrow> byte list option"
  mv_committed :: "'w \<Rightarrow> iid_t \<Rightarrow> byte list option"
  mv_active :: "'w \<Rightarrow> (iid_t \<Rightarrow> byte list option) option"
  mv_unread :: "'w \<Rightarrow> (iid_t \<times> byte list) list"
  mv_at :: "'w \<Rightarrow> iid_t option"
  mv_crash :: "'w \<Rightarrow> 'w"

definition mdb_keeps :: "'w mdb_view \<Rightarrow> 'w \<Rightarrow> 'w \<Rightarrow> bool" where
  "mdb_keeps v w w' \<longleftrightarrow> mv_usable v w' \<and> mv_path v w' = mv_path v w \<and> mv_committed v w' = mv_committed v w"

text \<open>
  A transaction sees its own changes, which a commit makes permanent and an abort drops.
\<close>

definition mdb_txn_law :: "'w mdb \<Rightarrow> 'w mdb_view \<Rightarrow> 'w \<Rightarrow> (iid_t \<Rightarrow> byte list option) \<Rightarrow> bool" where
  "mdb_txn_law mdb v w m \<longleftrightarrow>
    (\<exists>w'. mdb_txn_commit mdb w = (0, w') \<and> mv_usable v w' \<and> mv_path v w' = mv_path v w \<and>
       mv_active v w' = None \<and> mv_committed v w' = m) \<and>
    mdb_keeps v w (mdb_txn_abort mdb w) \<and> mv_active v (mdb_txn_abort mdb w) = None \<and>
    (\<forall>k. case m k of None \<Rightarrow> fst (mdb_get mdb k w) = MDB_NOTFOUND | Some d \<Rightarrow> mdb_get mdb k w = (0, d)) \<and>
    (mv_room v w \<longrightarrow> (\<forall>k d. \<exists>w'. mdb_put mdb k d w = (0, w') \<and> mdb_keeps v w w' \<and> mv_active v w' = Some (m(k \<mapsto> d))))"

text \<open>
  A cursor reads the entries in the order of the comparison function, and deletes the entry that it
  stands on.
\<close>

definition mdb_cursor_law :: "'w mdb \<Rightarrow> 'w mdb_view \<Rightarrow> 'w \<Rightarrow> (iid_t \<Rightarrow> byte list option) \<Rightarrow> bool" where
  "mdb_cursor_law mdb v w m \<longleftrightarrow>
    (\<exists>w'. mdb_cursor_open mdb w = (0, w') \<and> mdb_keeps v w w' \<and> mv_active v w' = Some m \<and>
       map_of (mv_unread v w') = m \<and> sorted_wrt (\<lambda>a b. lmdb_compare_iid (fst a) (fst b) < 0) (mv_unread v w')) \<and>
    (\<exists>rv k d w'. mdb_cursor_get mdb w = (rv, k, d, w') \<and> mdb_keeps v w w' \<and> mv_active v w' = Some m \<and>
       (case mv_unread v w of [] \<Rightarrow> rv \<noteq> 0
        | x # xs \<Rightarrow> rv = 0 \<and> x = (k, d) \<and> mv_unread v w' = xs \<and> mv_at v w' = Some k)) \<and>
    (\<forall>k. mv_at v w = Some k \<longrightarrow> (\<exists>w'. mdb_cursor_del mdb w = (0, w') \<and> mdb_keeps v w w' \<and>
       mv_active v w' = Some (m(k := None)) \<and> mv_unread v w' = mv_unread v w)) \<and>
    mdb_keeps v w (mdb_cursor_close mdb w) \<and> mv_active v (mdb_cursor_close mdb w) = Some m"

definition mdb_law :: "'w mdb \<Rightarrow> 'w mdb_view \<Rightarrow> bool" where
  "mdb_law mdb v \<longleftrightarrow> (\<forall>p. length (mem_ptr_bytes mdb p) = 8) \<and>
    (\<forall>w. mv_usable v w \<longrightarrow> (case mv_active v w of
       None \<Rightarrow> \<exists>w'. mdb_txn_begin mdb w = (0, w') \<and> mdb_keeps v w w' \<and> mv_active v w' = Some (mv_committed v w) \<and>
         (mv_room v w \<longrightarrow> mv_room v w')
     | Some m \<Rightarrow> mdb_txn_law mdb v w m \<and> mdb_cursor_law mdb v w m))"

text \<open>
  An environment that is closed leaves its directory with the committed entries, and opening such a
  directory finds them. A crash leaves them too, with or without an open transaction, but only if the
  environment was opened without \<open>MDB_NOSYNC\<close>: with that flag a commit does not wait for the disk.
  The calls are those of \<open>lmdb_storage_init\<close>, with results 0.
\<close>

definition mdb_opens :: "'w mdb \<Rightarrow> nat \<Rightarrow> string \<Rightarrow> bool \<Rightarrow> 'w \<Rightarrow> 'w \<Rightarrow> bool" where
  "mdb_opens mdb mapsize path nosync w w' \<longleftrightarrow>
    (\<exists>w1 w2 w3 w4 dbi w5 w6. mdb_env_create mdb w = (0, w1) \<and> mdb_env_set_mapsize mdb mapsize w1 = (0, w2) \<and>
       mdb_env_open mdb path nosync w2 = (0, w3) \<and> mdb_txn_begin mdb w3 = (0, w4) \<and> mdb_open mdb w4 = (0, dbi, w5) \<and>
       dbi \<noteq> 0 \<and> mdb_set_compare mdb lmdb_compare_iid w5 = (0, w6) \<and> mdb_txn_commit mdb w6 = (0, w'))"

definition mdb_left :: "'w mdb \<Rightarrow> 'w mdb_view \<Rightarrow> 'w \<Rightarrow> string \<Rightarrow> (iid_t \<Rightarrow> byte list option) \<Rightarrow> bool" where
  "mdb_left mdb v w path m \<longleftrightarrow> fs_stat mdb path w \<and> mv_valid v w path \<and> mv_disk v w path = m"

definition mdb_open_law :: "'w mdb \<Rightarrow> 'w mdb_view \<Rightarrow> nat \<Rightarrow> bool \<Rightarrow> bool" where
  "mdb_open_law mdb v mapsize nosync \<longleftrightarrow>
    (\<forall>w path. fs_stat mdb path w \<longrightarrow> mv_valid v w path \<longrightarrow> (\<exists>w'. mdb_opens mdb mapsize path nosync w w' \<and>
       mv_usable v w' \<and> mv_path v w' = path \<and> mv_active v w' = None \<and> mv_committed v w' = mv_disk v w path)) \<and>
    (\<forall>w. mv_usable v w \<and> mv_active v w = None \<longrightarrow>
       mdb_left mdb v (mdb_env_close mdb (mdb_close mdb w)) (mv_path v w) (mv_committed v w)) \<and>
    (\<forall>w. mv_usable v w \<longrightarrow> \<not> nosync \<longrightarrow> mdb_left mdb v (mv_crash v w) (mv_path v w) (mv_committed v w))"

section \<open>The contract\<close>

text \<open>The entries that the next operation works on, and the store that they stand for.\<close>

definition lmdb_entries :: "'w mdb_view \<Rightarrow> 'w lmdb_storage \<Rightarrow> iid_t \<Rightarrow> byte list option" where
  "lmdb_entries v s = (case mv_active v (ls_world s) of None \<Rightarrow> mv_committed v (ls_world s) | Some m \<Rightarrow> m)"

definition entries_recs :: "(iid_t \<Rightarrow> byte list option) \<Rightarrow> iid_t \<Rightarrow> paxos_accepted option" where
  "entries_recs m i = (if i = 0 then None else Option.bind (m i) paxos_accepted_from_buffer)"

definition entries_trim :: "(iid_t \<Rightarrow> byte list option) \<Rightarrow> iid_t" where
  "entries_trim m = (case m 0 of None \<Rightarrow> 0 | Some d \<Rightarrow> read32 d)"

definition entries_ok :: "(iid_t \<Rightarrow> byte list option) \<Rightarrow> bool" where
  "entries_ok m \<longleftrightarrow> (\<forall>i d. m i = Some d \<longrightarrow> (if i = 0 then length d = 4
     else \<exists>r. paxos_accepted_from_buffer d = Some r \<and> iid r = i \<and> lmdb_storable (pvalue r)))"

definition lmdb_recs :: "'w mdb_view \<Rightarrow> 'w lmdb_storage \<Rightarrow> iid_t \<Rightarrow> paxos_accepted option" where
  "lmdb_recs v s = entries_recs (lmdb_entries v s)"

definition lmdb_trimmed :: "'w mdb_view \<Rightarrow> 'w lmdb_storage \<Rightarrow> iid_t" where
  "lmdb_trimmed v s = entries_trim (lmdb_entries v s)"

text \<open>The directory of an acceptor, and a handle whose environment is open on it.\<close>

definition lmdb_path :: "paxos_config \<Rightarrow> int \<Rightarrow> string" where
  "lmdb_path cfg i = lmdb_env_path cfg @ CHR ''_'' # print_int i"

definition lmdb_opened :: "'w mdb_view \<Rightarrow> paxos_config \<Rightarrow> int \<Rightarrow> 'w lmdb_storage \<Rightarrow> bool" where
  "lmdb_opened v cfg j s \<longleftrightarrow> ls_live s \<and> ls_env s \<and> ls_dbi s \<noteq> 0 \<and> mv_usable v (ls_world s) \<and>
     ls_acceptor_id s = j \<and> mv_path v (ls_world s) = lmdb_path cfg j"

definition lmdb_inv :: "'w mdb_view \<Rightarrow> paxos_config \<Rightarrow> int \<Rightarrow> 'w lmdb_storage \<Rightarrow> bool" where
  "lmdb_inv v cfg j s \<longleftrightarrow> lmdb_opened v cfg j s \<and> \<not> ls_txn s \<and> mv_active v (ls_world s) = None \<and>
     entries_ok (lmdb_entries v s)"

definition lmdb_inside :: "'w mdb_view \<Rightarrow> paxos_config \<Rightarrow> int \<Rightarrow> 'w lmdb_storage \<Rightarrow> bool" where
  "lmdb_inside v cfg j s \<longleftrightarrow> lmdb_opened v cfg j s \<and> ls_txn s \<and> mv_active v (ls_world s) \<noteq> None \<and>
     entries_ok (lmdb_entries v s)"

definition lmdb_room :: "'w mdb_view \<Rightarrow> 'w lmdb_storage \<Rightarrow> bool" where
  "lmdb_room v s \<longleftrightarrow> mv_room v (ls_world s)"

lemmas lmdb_views = lmdb_recs_def lmdb_trimmed_def lmdb_entries_def lmdb_room_def

lemma lmdb_insideE:
  assumes "lmdb_inside v cfg j s" "mdb_law mdb v"
  obtains m where "lmdb_opened v cfg j s" "ls_live s" "ls_txn s" "mv_usable v (ls_world s)" "mv_active v (ls_world s) = Some m" "entries_ok m"
    "mdb_txn_law mdb v (ls_world s) m" "mdb_cursor_law mdb v (ls_world s) m" "lmdb_recs v s = entries_recs m"
    "lmdb_trimmed v s = entries_trim m"
  using assms by (force simp: lmdb_inside_def lmdb_opened_def mdb_law_def lmdb_views)

lemma lmdb_inside_entries:
  assumes "lmdb_opened v cfg j s" "ls_txn s" "mv_usable v w" "mv_path v w = mv_path v (ls_world s)"
    "mv_active v w = Some m" "entries_ok m"
  shows "lmdb_inside v cfg j (s\<lparr>ls_world := w\<rparr>)" "lmdb_recs v (s\<lparr>ls_world := w\<rparr>) = entries_recs m"
    "lmdb_trimmed v (s\<lparr>ls_world := w\<rparr>) = entries_trim m"
  using assms by (simp_all add: lmdb_inside_def lmdb_opened_def lmdb_views)

lemma lmdb_tx_begin:
  assumes "mdb_law mdb v" "lmdb_inv v cfg j s"
  shows "\<exists>s'. lmdb_storage_tx_begin mdb s = Some (0, s') \<and> lmdb_inside v cfg j s' \<and> lmdb_recs v s' = lmdb_recs v s \<and>
    lmdb_trimmed v s' = lmdb_trimmed v s \<and> (lmdb_room v s \<longrightarrow> lmdb_room v s')"
proof -
  from assms obtain w' where w': "mdb_txn_begin mdb (ls_world s) = (0, w')" "mdb_keeps v (ls_world s) w'"
    "mv_active v w' = Some (mv_committed v (ls_world s))" "mv_room v (ls_world s) \<longrightarrow> mv_room v w'"
    by (force simp: lmdb_inv_def lmdb_opened_def mdb_law_def)
  show ?thesis using assms(2) w'
    by (intro exI [of _ "s\<lparr>ls_world := w', ls_txn := True\<rparr>"])
      (auto simp: lmdb_storage_tx_begin_def lmdb_inv_def lmdb_inside_def lmdb_opened_def mdb_keeps_def lmdb_views)
qed

lemma lmdb_tx_commit:
  assumes "mdb_law mdb v" "lmdb_inside v cfg j s"
  shows "\<exists>s'. lmdb_storage_tx_commit mdb s = Some (0, s') \<and> lmdb_inv v cfg j s' \<and> lmdb_recs v s' = lmdb_recs v s \<and>
    lmdb_trimmed v s' = lmdb_trimmed v s"
proof -
  from assms(2,1) obtain m where s: "lmdb_opened v cfg j s" "ls_txn s" "entries_ok m" "mdb_txn_law mdb v (ls_world s) m"
    "lmdb_recs v s = entries_recs m" "lmdb_trimmed v s = entries_trim m"
    by (rule lmdb_insideE)
  from s(4) obtain w' where "mdb_txn_commit mdb (ls_world s) = (0, w')" "mv_usable v w'" "mv_path v w' = mv_path v (ls_world s)"
    "mv_active v w' = None" "mv_committed v w' = m"
    by (auto simp: mdb_txn_law_def)
  then show ?thesis using s
    by (intro exI [of _ "s\<lparr>ls_world := w', ls_txn := False\<rparr>"])
      (simp add: lmdb_storage_tx_commit_def lmdb_inv_def lmdb_opened_def lmdb_views)
qed

lemma lmdb_tx_abort:
  assumes "mdb_law mdb v" "lmdb_inside v cfg j s" "entries_ok (mv_committed v (ls_world s))"
  shows "\<exists>s'. lmdb_storage_tx_abort mdb s = Some s' \<and> lmdb_inv v cfg j s' \<and>
    lmdb_recs v s' = entries_recs (mv_committed v (ls_world s)) \<and> lmdb_trimmed v s' = entries_trim (mv_committed v (ls_world s))"
proof -
  from assms(2,1) obtain m where s: "lmdb_opened v cfg j s" "ls_txn s" "mdb_txn_law mdb v (ls_world s) m"
    by (rule lmdb_insideE)
  then show ?thesis using assms(3)
    by (simp add: lmdb_storage_tx_abort_def lmdb_inv_def lmdb_opened_def lmdb_views mdb_txn_law_def mdb_keeps_def)
qed

lemma lmdb_get:
  assumes "mdb_law mdb v" "lmdb_inside v cfg j s" "i \<noteq> 0"
  shows "lmdb_storage_get mdb s i out = Some (case lmdb_recs v s i of None \<Rightarrow> (0, out, s) | Some r \<Rightarrow> (1, r, s))"
proof -
  from assms(2,1) obtain m where s: "lmdb_opened v cfg j s" "ls_txn s" "entries_ok m" "mdb_txn_law mdb v (ls_world s) m"
    "lmdb_recs v s = entries_recs m"
    by (rule lmdb_insideE)
  have get: "case m i of None \<Rightarrow> fst (mdb_get mdb i (ls_world s)) = MDB_NOTFOUND | Some d \<Rightarrow> mdb_get mdb i (ls_world s) = (0, d)"
    using s(4) by (simp add: mdb_txn_law_def)
  show ?thesis
  proof (cases "m i")
    case None
    then show ?thesis using get s assms(3)
      by (cases "mdb_get mdb i (ls_world s)") (simp add: lmdb_storage_get_def lmdb_opened_def entries_recs_def MDB_NOTFOUND_def)
  next
    case (Some d)
    then obtain r where "paxos_accepted_from_buffer d = Some r" "iid r = i"
      using s(3) assms(3) by (auto simp: entries_ok_def split: if_splits)
    then show ?thesis using get s assms(3) Some
      by (simp add: lmdb_storage_get_def lmdb_opened_def entries_recs_def)
  qed
qed

lemma entries_recs_ok:
  assumes "entries_ok m" "entries_recs m i = Some r"
  shows "iid r = i \<and> lmdb_storable (pvalue r)"
proof -
  obtain d where "i \<noteq> 0" "m i = Some d" "paxos_accepted_from_buffer d = Some r"
    using assms(2) by (auto simp: entries_recs_def bind_eq_Some_conv split: if_splits)
  then show ?thesis using assms(1) by (fastforce simp: entries_ok_def)
qed

lemma entries_put:
  assumes "entries_ok m" "paxos_accepted_from_buffer d = Some r" "iid r \<noteq> 0" "lmdb_storable (pvalue r)"
  shows "entries_ok (m(iid r \<mapsto> d))" "entries_recs (m(iid r \<mapsto> d)) = (entries_recs m)(iid r \<mapsto> r)"
    "entries_trim (m(iid r \<mapsto> d)) = entries_trim m"
  using assms by (auto simp: entries_ok_def entries_recs_def entries_trim_def fun_eq_iff)

lemma lmdb_put:
  assumes "mdb_law mdb v" "lmdb_inside v cfg j s" "lmdb_room v s" "lmdb_storable (pvalue r)" "iid r \<noteq> 0"
  shows "\<exists>s'. lmdb_storage_put mdb s r = Some (0, s') \<and> lmdb_inside v cfg j s' \<and>
    lmdb_recs v s' = (lmdb_recs v s)(iid r \<mapsto> r) \<and> lmdb_trimmed v s' = lmdb_trimmed v s"
proof -
  from assms(2,1) obtain m where s: "lmdb_opened v cfg j s" "ls_txn s" "entries_ok m" "mdb_txn_law mdb v (ls_world s) m"
    "lmdb_recs v s = entries_recs m" "lmdb_trimmed v s = entries_trim m"
    by (rule lmdb_insideE)
  have "length (mem_ptr_bytes mdb (paxos_value_val (pvalue r))) = 8" using assms(1) by (simp add: mdb_law_def)
  from buffer_round_trip [where ptr_bytes = "mem_ptr_bytes mdb", OF assms(4) this] obtain d where
    d: "paxos_accepted_to_buffer (mem_ptr_bytes mdb) r = Some d" "paxos_accepted_from_buffer d = Some r"
    by blast
  from s(4) assms(3) obtain w' where w': "mdb_put mdb (iid r) d (ls_world s) = (0, w')" "mv_usable v w'"
    "mv_path v w' = mv_path v (ls_world s)" "mv_active v w' = Some (m(iid r \<mapsto> d))"
    unfolding mdb_txn_law_def mdb_keeps_def lmdb_room_def by meson
  note entries = entries_put [OF s(3) d(2) assms(5,4)]
  show ?thesis
    using lmdb_inside_entries [OF s(1,2) w'(2-4) entries(1)] entries s d(1) w'(1)
    by (simp add: lmdb_storage_put_def lmdb_opened_def)
qed

lemma lmdb_get_trim_instance:
  assumes "mdb_law mdb v" "lmdb_inside v cfg j s"
  shows "lmdb_storage_get_trim_instance mdb s = Some (lmdb_trimmed v s, s)"
proof -
  from assms(2,1) obtain m where s: "lmdb_opened v cfg j s" "ls_txn s" "entries_ok m" "mdb_txn_law mdb v (ls_world s) m"
    "lmdb_trimmed v s = entries_trim m"
    by (rule lmdb_insideE)
  have get: "case m 0 of None \<Rightarrow> fst (mdb_get mdb 0 (ls_world s)) = MDB_NOTFOUND | Some d \<Rightarrow> mdb_get mdb 0 (ls_world s) = (0, d)"
    using s(4) by (simp add: mdb_txn_law_def)
  show ?thesis
  proof (cases "m 0")
    case None
    then show ?thesis using get s
      by (cases "mdb_get mdb 0 (ls_world s)") (simp add: lmdb_storage_get_trim_instance_def lmdb_opened_def entries_trim_def MDB_NOTFOUND_def)
  next
    case (Some d)
    then have "length d = 4" using s(3) by (auto simp: entries_ok_def)
    then show ?thesis using get s Some
      by (simp add: lmdb_storage_get_trim_instance_def lmdb_opened_def entries_trim_def mem_get_def)
  qed
qed

text \<open>The loop deletes the keys up to \<open>i\<close> that the cursor still has to read, except 0.\<close>

lemma lmdb_trim_loop_spec:
  assumes "mdb_law mdb v" "mv_usable v w" "mv_active v w = Some m"
    and "sorted_wrt (\<lambda>a b. lmdb_compare_iid (fst a) (fst b) < 0) (mv_unread v w)"
  shows "\<exists>w'. lmdb_trim_loop mdb i w = Some w' \<and> mv_usable v w' \<and> mv_path v w' = mv_path v w \<and>
    mv_active v w' = Some (m |` {k. \<not> (k \<in> fst ` set (mv_unread v w) \<and> k \<noteq> 0 \<and> k \<le> i)})"
  using assms(2-4)
proof (induction "mv_unread v w" arbitrary: w m)
  case Nil
  obtain rv k d w' where "mdb_cursor_get mdb w = (rv, k, d, w')" "mv_usable v w'" "mv_path v w' = mv_path v w" "mv_active v w' = Some m" "rv \<noteq> 0"
    using assms(1) Nil by (force simp: mdb_law_def mdb_cursor_law_def mdb_keeps_def)
  then show ?case using Nil.hyps by (simp add: lmdb_trim_loop.simps)
next
  case (Cons x xs)
  have "mdb_cursor_law mdb v w m" using assms(1) Cons.prems(1,2) by (force simp: mdb_law_def)
  then obtain k d w1 where w1: "mdb_cursor_get mdb w = (0, k, d, w1)" "mv_usable v w1" "mv_active v w1 = Some m"
    "x = (k, d)" "mv_unread v w1 = xs" "mv_at v w1 = Some k" "mv_path v w1 = mv_path v w"
    using Cons.hyps(2) [symmetric] by (auto simp: mdb_cursor_law_def mdb_keeps_def)
  have later: "k < k'" if "k' \<in> fst ` set xs" for k'
    using Cons.prems(3) Cons.hyps(2) that w1(4) by (auto simp: lmdb_compare_iid_def split: if_splits simp flip: Cons.hyps(2))
  have sorted: "sorted_wrt (\<lambda>a b. lmdb_compare_iid (fst a) (fst b) < 0) xs" using Cons.prems(3) by (simp flip: Cons.hyps(2))
  have law1: "mdb_cursor_law mdb v w1 m" using assms(1) w1(2,3) by (force simp: mdb_law_def)
  consider "k \<noteq> 0" "k \<le> i" | "k = 0" | "i < k" by force
  then show ?case
  proof cases
    case 1
    from law1 w1(6) obtain w2 where w2: "mdb_cursor_del mdb w1 = (0, w2)" "mv_usable v w2"
      "mv_active v w2 = Some (m(k := None))" "mv_unread v w2 = xs" "mv_path v w2 = mv_path v w"
      using w1(5,7) by (auto simp: mdb_cursor_law_def mdb_keeps_def)
    from Cons.hyps(1) [OF w2(4) [symmetric] w2(2,3)] sorted w2(4,5) obtain w' where
      "lmdb_trim_loop mdb i w2 = Some w'" "mv_usable v w'" "mv_path v w' = mv_path v w"
      "mv_active v w' = Some (m(k := None) |` {k. \<not> (k \<in> fst ` set xs \<and> k \<noteq> 0 \<and> k \<le> i)})"
      by auto
    moreover have "m(k := None) |` {k. \<not> (k \<in> fst ` set xs \<and> k \<noteq> 0 \<and> k \<le> i)} =
        m |` {k. \<not> (k \<in> fst ` set (mv_unread v w) \<and> k \<noteq> 0 \<and> k \<le> i)}"
      using 1 w1(4) by (auto simp: restrict_map_def fun_eq_iff simp flip: Cons.hyps(2))
    ultimately show ?thesis using 1 w1(1) w2(1) by (subst lmdb_trim_loop.simps) simp
  next
    case 2
    from Cons.hyps(1) [OF w1(5) [symmetric] w1(2,3)] sorted w1(5,7) obtain w' where
      "lmdb_trim_loop mdb i w1 = Some w'" "mv_usable v w'" "mv_path v w' = mv_path v w"
      "mv_active v w' = Some (m |` {k. \<not> (k \<in> fst ` set xs \<and> k \<noteq> 0 \<and> k \<le> i)})"
      by auto
    moreover have "m |` {k. \<not> (k \<in> fst ` set xs \<and> k \<noteq> 0 \<and> k \<le> i)} =
        m |` {k. \<not> (k \<in> fst ` set (mv_unread v w) \<and> k \<noteq> 0 \<and> k \<le> i)}"
      using 2 w1(4) by (auto simp: restrict_map_def fun_eq_iff simp flip: Cons.hyps(2))
    ultimately show ?thesis using 2 w1(1) by (subst lmdb_trim_loop.simps) simp
  next
    case 3
    have k: "\<not> k \<le> i" "k \<noteq> 0" using 3 iid_above [of k i] by auto
    have "m |` {k. \<not> (k \<in> fst ` set (mv_unread v w) \<and> k \<noteq> 0 \<and> k \<le> i)} = m"
      using 3 w1(4) later by (fastforce simp: restrict_map_def fun_eq_iff simp flip: Cons.hyps(2))
    then show ?thesis using k w1(1-3,7) by (subst lmdb_trim_loop.simps) simp
  qed
qed

lemma entries_trimmed:
  assumes "entries_ok m" "m' = m(0 \<mapsto> host32 i) |` {k. \<not> (k \<noteq> 0 \<and> k \<le> i)}"
  shows "entries_ok m'" "entries_recs m' = entries_recs m |` {k. i < k}" "entries_trim m' = i"
proof -
  show "entries_ok m'" using assms by (auto simp: entries_ok_def restrict_map_def split: if_splits)
  show "entries_trim m' = i" using assms(2) by (simp add: entries_trim_def)
  have "k \<noteq> 0" if "i < k" for k using that iid_above [of k i] by (auto simp: not_le)
  then show "entries_recs m' = entries_recs m |` {k. i < k}"
    using assms(2) by (auto simp: entries_recs_def restrict_map_def fun_eq_iff not_le)
qed

lemma lmdb_trim:
  assumes "mdb_law mdb v" "lmdb_inside v cfg j s" "lmdb_room v s" "0 < i"
  shows "\<exists>s'. lmdb_storage_trim mdb s i = Some (0, s') \<and> lmdb_inside v cfg j s' \<and>
    lmdb_recs v s' = lmdb_recs v s |` {k. i < k} \<and> lmdb_trimmed v s' = i"
proof -
  from assms(2,1) obtain m where s: "lmdb_opened v cfg j s" "ls_txn s" "entries_ok m" "mdb_txn_law mdb v (ls_world s) m"
    "lmdb_recs v s = entries_recs m"
    by (rule lmdb_insideE)
  let ?m = "m(0 \<mapsto> host32 i)"
  from s(4) assms(3) obtain w1 where w1: "mdb_put mdb 0 (host32 i) (ls_world s) = (0, w1)" "mv_usable v w1"
    "mv_active v w1 = Some ?m" "mv_path v w1 = mv_path v (ls_world s)"
    unfolding mdb_txn_law_def mdb_keeps_def lmdb_room_def by meson
  have "mdb_cursor_law mdb v w1 ?m" using assms(1) w1(2,3) by (force simp: mdb_law_def)
  then obtain w2 where w2: "mdb_cursor_open mdb w1 = (0, w2)" "mv_usable v w2" "mv_active v w2 = Some ?m"
    "map_of (mv_unread v w2) = ?m" "sorted_wrt (\<lambda>a b. lmdb_compare_iid (fst a) (fst b) < 0) (mv_unread v w2)"
    "mv_path v w2 = mv_path v (ls_world s)"
    using w1(4) by (auto simp: mdb_cursor_law_def mdb_keeps_def)
  let ?m' = "?m |` {k. \<not> (k \<in> fst ` set (mv_unread v w2) \<and> k \<noteq> 0 \<and> k \<le> i)}"
  from lmdb_trim_loop_spec [OF assms(1) w2(2,3,5)] obtain w3 where
    w3: "lmdb_trim_loop mdb i w2 = Some w3" "mv_usable v w3" "mv_active v w3 = Some ?m'"
      "mv_path v w3 = mv_path v (ls_world s)"
    using w2(6) by auto
  have "dom ?m = fst ` set (mv_unread v w2)" using w2(4) dom_map_of_conv_image_fst by metis
  then have m': "?m' = ?m |` {k. \<not> (k \<noteq> 0 \<and> k \<le> i)}"
    by (auto simp: restrict_map_def fun_eq_iff dom_def)
  note entries = entries_trimmed [OF s(3) m']
  have "mdb_cursor_law mdb v w3 ?m'" using assms(1) w3(2,3) by (force simp: mdb_law_def)
  then have w4: "mv_usable v (mdb_cursor_close mdb w3)" "mv_path v (mdb_cursor_close mdb w3) = mv_path v (ls_world s)" "mv_active v (mdb_cursor_close mdb w3) = Some ?m'"
    using w3(4) by (auto simp: mdb_cursor_law_def mdb_keeps_def)
  have "lmdb_storage_trim mdb s i = Some (0, s\<lparr>ls_world := mdb_cursor_close mdb w3\<rparr>)"
    using assms(4) s(1,2) w1(1) w2(1) w3(1)
    by (simp add: lmdb_storage_trim_def lmdb_storage_put_trim_instance_def lmdb_opened_def word_gt_0)
  then show ?thesis
    using lmdb_inside_entries [OF s(1,2) w4 entries(1)] entries(2,3) s(5) by simp
qed

text \<open>The backend satisfies the contract for every instance but 0, where it keeps the trim instance.\<close>

lemma lmdb_contract:
  assumes law: "mdb_law mdb v"
  shows "storage_contract (lmdb_api mdb cfg) (lmdb_inv v cfg j) (lmdb_inside v cfg j) (lmdb_room v) (lmdb_room v) (\<lambda>i. i \<noteq> 0)
    lmdb_storable (lmdb_recs v) (lmdb_trimmed v)"
proof unfold_locales
  show "lmdb_storable no_value" by (simp add: lmdb_storable_def value_copy_def no_value_def)
      (simp add: value_wf_def buf_len_def)
  show "lmdb_storable (value_copy x)" if "value_wf x" for x
    using that value_copy_wf [OF that] by (auto simp: lmdb_storable_def value_copy_def)
  show "\<exists>s'. api_tx_begin (lmdb_api mdb cfg) s = Some (0, s') \<and> lmdb_inside v cfg j s' \<and> lmdb_recs v s' = lmdb_recs v s \<and>
      lmdb_trimmed v s' = lmdb_trimmed v s \<and> (lmdb_room v s \<longrightarrow> lmdb_room v s') \<and> (lmdb_room v s \<longrightarrow> lmdb_room v s')"
    if "lmdb_inv v cfg j s" for s
    using lmdb_tx_begin [OF law that] by (auto simp: lmdb_api_def)
  show "iid r = i \<and> lmdb_storable (pvalue r)" if "lmdb_inv v cfg j s" "lmdb_recs v s i = Some r" for s i r
    using that entries_recs_ok by (auto simp: lmdb_inv_def lmdb_recs_def)
  show "api_get (lmdb_api mdb cfg) s i out = Some (1, r, s)" if "lmdb_inside v cfg j s" "lmdb_recs v s i = Some r" for s i r out
  proof -
    have "i \<noteq> 0" using that(2) by (auto simp: lmdb_recs_def entries_recs_def)
    from lmdb_get [OF law that(1) this] show ?thesis using that(2) by (simp add: lmdb_api_def)
  qed
  show "\<exists>s' rv. api_trim (lmdb_api mdb cfg) s i = Some (rv, s') \<and> lmdb_inside v cfg j s' \<and>
      lmdb_recs v s' = lmdb_recs v s |` {k. i < k} \<and> lmdb_trimmed v s' = i" if "lmdb_inside v cfg j s" "lmdb_room v s" "0 < i" for s i
    using lmdb_trim [OF law that] by (auto simp: lmdb_api_def)
qed (simp_all add: lmdb_api_def lmdb_tx_commit [OF law] lmdb_get [OF law] lmdb_put [OF law] lmdb_get_trim_instance [OF law])

section \<open>The acceptor on disk\<close>

abbreviation lmdb_acc_inv :: "'w mdb \<Rightarrow> 'w mdb_view \<Rightarrow> paxos_config \<Rightarrow> int \<Rightarrow> 'w lmdb_storage acceptor \<Rightarrow> bool" where
  "lmdb_acc_inv mdb v cfg j \<equiv> acc_inv (lmdb_api mdb cfg) (lmdb_inv v cfg j) (lmdb_trimmed v)"

abbreviation lmdb_acc_abs :: "'w mdb_view \<Rightarrow> 'w lmdb_storage acceptor \<Rightarrow> acc_spec" where
  "lmdb_acc_abs v \<equiv> acc_abs (lmdb_recs v)"

lemmas lmdb_prepare_refines = storage_contract.receive_prepare_refines [OF lmdb_contract]
lemmas lmdb_accept_refines = storage_contract.receive_accept_refines [OF lmdb_contract]
lemmas lmdb_trim_refines = storage_contract.receive_trim_refines [OF lmdb_contract]
lemmas lmdb_repeat_refines = storage_contract.receive_repeat_refines [OF lmdb_contract]

lemma lmdb_open_ok:
  assumes "mdb_opens mdb (lmdb_mapsize cfg) (lmdb_path cfg i) (lmdb_sync cfg = 0) w w'" "trash_files cfg = 0"
    "fs_stat mdb (lmdb_path cfg i) w"
  obtains dbi where "dbi \<noteq> 0" "lmdb_storage_open mdb cfg (lmdb_storage_new w i) =
    Some (0, \<lparr>ls_live = True, ls_world = w', ls_env = True, ls_txn = False, ls_dbi = dbi, ls_acceptor_id = i\<rparr>)"
  using assms that
  by (auto simp: mdb_opens_def lmdb_storage_open_def lmdb_storage_init_def lmdb_storage_new_def lmdb_path_def)

lemma lmdb_start:
  assumes law: "mdb_law mdb v" and opens: "mdb_open_law mdb v (lmdb_mapsize cfg) (lmdb_sync cfg = 0)"
    and cfg: "trash_files cfg = 0" and left: "mdb_left mdb v w (lmdb_path cfg i) m" and ok: "entries_ok m"
  obtains a where "acceptor_start (storage_init_lmdb mdb cfg w i) i = Some (Some a)" "lmdb_acc_inv mdb v cfg i a" "a_id a = i"
    "lmdb_acc_abs v a = (entries_recs m, entries_trim m)"
proof -
  have dir: "fs_stat mdb (lmdb_path cfg i) w" and valid: "mv_valid v w (lmdb_path cfg i)"
    and disk: "mv_disk v w (lmdb_path cfg i) = m" using left by (simp_all add: mdb_left_def)
  from opens dir valid obtain w' where w': "mdb_opens mdb (lmdb_mapsize cfg) (lmdb_path cfg i) (lmdb_sync cfg = 0) w w'"
    "mv_usable v w'" "mv_path v w' = lmdb_path cfg i" "mv_active v w' = None"
    "mv_committed v w' = m"
    unfolding mdb_open_law_def disk [symmetric] by meson
  obtain dbi where dbi: "dbi \<noteq> 0" "lmdb_storage_open mdb cfg (lmdb_storage_new w i) =
      Some (0, \<lparr>ls_live = True, ls_world = w', ls_env = True, ls_txn = False, ls_dbi = dbi, ls_acceptor_id = i\<rparr>)"
    using lmdb_open_ok [OF w'(1) cfg dir] by blast
  define s where "s = \<lparr>ls_live = True, ls_world = w', ls_env = True, ls_txn = False, ls_dbi = dbi, ls_acceptor_id = i\<rparr>"
  have entries: "lmdb_entries v s = m" using w'(4,5) by (simp add: s_def lmdb_entries_def)
  have s: "lmdb_storage_open mdb cfg (lmdb_storage_new w i) = Some (0, s)" "lmdb_inv v cfg i s"
    "lmdb_entries v s = m"
    using dbi w'(2-4) ok entries by (simp_all add: lmdb_inv_def lmdb_opened_def) (simp_all add: s_def)
  from lmdb_tx_begin [OF law s(2)] obtain s1 where s1: "lmdb_storage_tx_begin mdb s = Some (0, s1)" "lmdb_inside v cfg i s1"
    "lmdb_recs v s1 = lmdb_recs v s" "lmdb_trimmed v s1 = lmdb_trimmed v s"
    by blast
  note trim = lmdb_get_trim_instance [OF law s1(2)]
  from lmdb_tx_commit [OF law s1(2)] obtain s2 where s2: "lmdb_storage_tx_commit mdb s1 = Some (0, s2)" "lmdb_inv v cfg i s2"
    "lmdb_recs v s2 = lmdb_recs v s1" "lmdb_trimmed v s2 = lmdb_trimmed v s1"
    by blast
  let ?a = "\<lparr>a_id = i, a_trim_iid = lmdb_trimmed v s1, a_store = \<lparr>handle = s2, api = lmdb_api mdb cfg\<rparr>\<rparr>"
  have "acceptor_start (storage_init_lmdb mdb cfg w i) i = Some (Some ?a)"
    using s(1) s1(1) s2(1) trim
    by (simp add: acceptor_start_def storage_init_lmdb_def storage_dispatch lmdb_api_def)
  moreover have "lmdb_acc_inv mdb v cfg i ?a" using s2 by (simp add: acc_inv_def)
  moreover have "lmdb_acc_abs v ?a = (entries_recs m, entries_trim m)"
    using s(3) s1(3,4) s2(3) by (simp add: acc_abs_def lmdb_recs_def lmdb_trimmed_def)
  ultimately show thesis using that by simp
qed

lemma lmdb_restart:
  assumes law: "mdb_law mdb v" and opens: "mdb_open_law mdb v (lmdb_mapsize cfg) (lmdb_sync cfg = 0)"
    and cfg: "trash_files cfg = 0"
    and inv: "lmdb_acc_inv mdb v cfg (a_id a) a" and s: "s = handle (a_store a)"
  obtains s' b where "lmdb_storage_close mdb s = Some s'" "acceptor_free a = Some ()"
    "acceptor_start (storage_init_lmdb mdb cfg (ls_world s') (a_id a)) (a_id a) = Some (Some b)"
    "lmdb_acc_inv mdb v cfg (a_id a) b" "a_id b = a_id a" "lmdb_acc_abs v b = lmdb_acc_abs v a"
proof -
  have h: "lmdb_inv v cfg (a_id a) s" "lmdb_trimmed v s = a_trim_iid a" "api (a_store a) = lmdb_api mdb cfg"
    using inv s by (auto simp: acc_inv_def)
  let ?w = "mdb_env_close mdb (mdb_close mdb (ls_world s))"
  have close: "lmdb_storage_close mdb s = Some (s\<lparr>ls_live := False, ls_world := ?w\<rparr>)"
    using h(1) by (simp add: lmdb_storage_close_def lmdb_inv_def lmdb_opened_def)
  have left: "mdb_left mdb v ?w (lmdb_path cfg (a_id a)) (lmdb_entries v s)"
    using opens h(1) by (auto simp: mdb_open_law_def lmdb_inv_def lmdb_opened_def lmdb_entries_def)
  have "entries_ok (lmdb_entries v s)" using h(1) by (simp add: lmdb_inv_def)
  from lmdb_start [OF law opens cfg left this] obtain b where
    b: "acceptor_start (storage_init_lmdb mdb cfg ?w (a_id a)) (a_id a) = Some (Some b)" "lmdb_acc_inv mdb v cfg (a_id a) b"
      "a_id b = a_id a" "lmdb_acc_abs v b = (entries_recs (lmdb_entries v s), entries_trim (lmdb_entries v s))"
    by blast
  have "acceptor_free a = Some ()" using close s h(3) by (simp add: acceptor_free_def storage_close_def lmdb_api_def)
  moreover have "lmdb_acc_abs v b = lmdb_acc_abs v a"
    using b(4) h(2) s by (simp add: acc_abs_def lmdb_recs_def lmdb_trimmed_def)
  ultimately show thesis using that close b(1-3) by simp
qed

lemma lmdb_crash:
  assumes law: "mdb_law mdb v" and opens: "mdb_open_law mdb v (lmdb_mapsize cfg) (lmdb_sync cfg = 0)"
    and cfg: "trash_files cfg = 0" and sync: "lmdb_sync cfg \<noteq> 0"
    and inv: "lmdb_acc_inv mdb v cfg (a_id a) a"
  obtains b where
    "acceptor_start (storage_init_lmdb mdb cfg (mv_crash v (ls_world (handle (a_store a)))) (a_id a)) (a_id a) = Some (Some b)"
    "lmdb_acc_inv mdb v cfg (a_id a) b" "a_id b = a_id a" "lmdb_acc_abs v b = lmdb_acc_abs v a"
proof -
  let ?s = "handle (a_store a)"
  have h: "lmdb_inv v cfg (a_id a) ?s" "lmdb_trimmed v ?s = a_trim_iid a" using inv by (auto simp: acc_inv_def)
  let ?w = "mv_crash v (ls_world ?s)"
  have left: "mdb_left mdb v ?w (lmdb_path cfg (a_id a)) (lmdb_entries v ?s)"
    using opens h(1) sync by (auto simp: mdb_open_law_def lmdb_inv_def lmdb_opened_def lmdb_entries_def)
  have "entries_ok (lmdb_entries v ?s)" using h(1) by (simp add: lmdb_inv_def)
  from lmdb_start [OF law opens cfg left this] obtain b where
    b: "acceptor_start (storage_init_lmdb mdb cfg ?w (a_id a)) (a_id a) = Some (Some b)" "lmdb_acc_inv mdb v cfg (a_id a) b"
      "a_id b = a_id a" "lmdb_acc_abs v b = (entries_recs (lmdb_entries v ?s), entries_trim (lmdb_entries v ?s))"
    by blast
  moreover have "lmdb_acc_abs v b = lmdb_acc_abs v a"
    using b(4) h(2) by (simp add: acc_abs_def lmdb_recs_def lmdb_trimmed_def)
  ultimately show thesis using that by simp
qed

text \<open>
  The life of an acceptor: requests, with clean restarts and crashes between them. A crash may happen
  only if commits wait for the disk (\<open>lmdb_sync\<close>). The answers are those of an abstract acceptor that
  never stops.
\<close>

datatype acc_request = Req_prepare paxos_prepare | Req_accept paxos_accept | Req_trim paxos_trim | Restart | Crash

fun request_wf :: "paxos_config \<Rightarrow> acc_request \<Rightarrow> bool" where
  "request_wf cfg (Req_accept r) = value_wf (pvalue r)"
| "request_wf cfg Crash = (lmdb_sync cfg \<noteq> 0)"
| "request_wf cfg _ = True"

fun lmdb_serve :: "'w mdb \<Rightarrow> ('w \<Rightarrow> 'w) \<Rightarrow> paxos_config \<Rightarrow> 'w lmdb_storage acceptor \<Rightarrow> acc_request \<Rightarrow>
    ('w lmdb_storage acceptor \<times> paxos_message option) option" where
  "lmdb_serve mdb crash cfg a (Req_prepare r) = acceptor_receive_prepare a r"
| "lmdb_serve mdb crash cfg a (Req_accept r) = acceptor_receive_accept a r"
| "lmdb_serve mdb crash cfg a (Req_trim t) = map_option (\<lambda>(a, _). (a, None)) (acceptor_receive_trim a t)"
| "lmdb_serve mdb crash cfg a Restart = do {
     s \<leftarrow> lmdb_storage_close mdb (handle (a_store a));
     b \<leftarrow> acceptor_start (storage_init_lmdb mdb cfg (ls_world s) (a_id a)) (a_id a);
     map_option (\<lambda>b. (b, None)) b
   }"
| "lmdb_serve mdb crash cfg a Crash = do {
     b \<leftarrow> acceptor_start (storage_init_lmdb mdb cfg (crash (ls_world (handle (a_store a)))) (a_id a)) (a_id a);
     map_option (\<lambda>b. (b, None)) b
   }"

fun lmdb_run :: "'w mdb \<Rightarrow> ('w \<Rightarrow> 'w) \<Rightarrow> paxos_config \<Rightarrow> 'w lmdb_storage acceptor \<Rightarrow> acc_request list \<Rightarrow>
    ('w lmdb_storage acceptor \<times> paxos_message option list) option" where
  "lmdb_run mdb crash cfg a [] = Some (a, [])"
| "lmdb_run mdb crash cfg a (q # qs) = do {
     (a, out) \<leftarrow> lmdb_serve mdb crash cfg a q;
     (a, outs) \<leftarrow> lmdb_run mdb crash cfg a qs;
     Some (a, out # outs)
   }"

text \<open>There is room in the environment whenever a request may write.\<close>

fun writes :: "acc_request \<Rightarrow> bool" where
  "writes Restart = False"
| "writes Crash = False"
| "writes _ = True"

fun lmdb_run_room :: "'w mdb \<Rightarrow> 'w mdb_view \<Rightarrow> paxos_config \<Rightarrow> 'w lmdb_storage acceptor \<Rightarrow> acc_request list \<Rightarrow> bool" where
  "lmdb_run_room mdb v cfg a [] = True"
| "lmdb_run_room mdb v cfg a (q # qs) = ((writes q \<longrightarrow> lmdb_room v (handle (a_store a))) \<and>
     (case lmdb_serve mdb (mv_crash v) cfg a q of None \<Rightarrow> True | Some (b, _) \<Rightarrow> lmdb_run_room mdb v cfg b qs))"

fun spec_serve :: "int \<Rightarrow> acc_spec \<Rightarrow> acc_request \<Rightarrow> acc_spec \<times> paxos_message option" where
  "spec_serve i s (Req_prepare r) = spec_prepare i s r"
| "spec_serve i s (Req_accept r) = spec_accept i s r"
| "spec_serve i s (Req_trim t) = (fst (spec_trim s t), None)"
| "spec_serve i s _ = (s, None)"

fun spec_run :: "int \<Rightarrow> acc_spec \<Rightarrow> acc_request list \<Rightarrow> acc_spec \<times> paxos_message option list" where
  "spec_run i s [] = (s, [])"
| "spec_run i s (q # qs) = (let (s, out) = spec_serve i s q; (s, outs) = spec_run i s qs in (s, out # outs))"

lemma lmdb_serve_refines:
  assumes law: "mdb_law mdb v" and opens: "mdb_open_law mdb v (lmdb_mapsize cfg) (lmdb_sync cfg = 0)"
    and cfg: "trash_files cfg = 0" and room: "writes q \<Longrightarrow> lmdb_room v (handle (a_store a))"
    and inv: "lmdb_acc_inv mdb v cfg (a_id a) a" and wf: "request_wf cfg q"
  shows "refines (lmdb_acc_abs v) (\<lambda>b. lmdb_acc_inv mdb v cfg (a_id a) b \<and> a_id b = a_id a) (lmdb_serve mdb (mv_crash v) cfg a q)
    (spec_serve (a_id a) (lmdb_acc_abs v a) q)"
proof (cases q)
  case (Req_prepare r)
  then show ?thesis using lmdb_prepare_refines [OF law inv] room by simp
next
  case (Req_accept r)
  then show ?thesis using lmdb_accept_refines [OF law inv] room wf by simp
next
  case (Req_trim t)
  then show ?thesis using lmdb_trim_refines [OF law inv, of t] room
    by (cases "spec_trim (lmdb_acc_abs v a) t") (auto simp: refines_def)
next
  case Restart
  obtain s b where "lmdb_storage_close mdb (handle (a_store a)) = Some s"
    "acceptor_start (storage_init_lmdb mdb cfg (ls_world s) (a_id a)) (a_id a) = Some (Some b)"
    "lmdb_acc_inv mdb v cfg (a_id a) b" "a_id b = a_id a" "lmdb_acc_abs v b = lmdb_acc_abs v a"
    by (rule lmdb_restart [OF law opens cfg inv refl])
  then show ?thesis by (simp add: Restart refines_def)
next
  case Crash
  obtain b where
    "acceptor_start (storage_init_lmdb mdb cfg (mv_crash v (ls_world (handle (a_store a)))) (a_id a)) (a_id a) = Some (Some b)"
    "lmdb_acc_inv mdb v cfg (a_id a) b" "a_id b = a_id a" "lmdb_acc_abs v b = lmdb_acc_abs v a"
    by (rule lmdb_crash [OF law opens cfg _ inv]) (use wf Crash in simp)
  then show ?thesis by (simp add: Crash refines_def)
qed

lemma lmdb_run_refines:
  assumes law: "mdb_law mdb v" and opens: "mdb_open_law mdb v (lmdb_mapsize cfg) (lmdb_sync cfg = 0)"
    and cfg: "trash_files cfg = 0"
    and "lmdb_acc_inv mdb v cfg (a_id a) a" "list_all (request_wf cfg) qs" "lmdb_run_room mdb v cfg a qs"
  shows "refines (lmdb_acc_abs v) (\<lambda>b. lmdb_acc_inv mdb v cfg (a_id a) b \<and> a_id b = a_id a) (lmdb_run mdb (mv_crash v) cfg a qs)
    (spec_run (a_id a) (lmdb_acc_abs v a) qs)"
  using assms(4-6)
proof (induction qs arbitrary: a)
  case Nil
  then show ?case by (simp add: refines_def)
next
  case (Cons q qs)
  then have "refines (lmdb_acc_abs v) (\<lambda>b. lmdb_acc_inv mdb v cfg (a_id a) b \<and> a_id b = a_id a)
      (lmdb_serve mdb (mv_crash v) cfg a q) (spec_serve (a_id a) (lmdb_acc_abs v a) q)"
    by (intro lmdb_serve_refines [OF law opens cfg]) simp_all
  moreover obtain s out where so: "spec_serve (a_id a) (lmdb_acc_abs v a) q = (s, out)"
    by (cases "spec_serve (a_id a) (lmdb_acc_abs v a) q")
  ultimately obtain b where b: "lmdb_serve mdb (mv_crash v) cfg a q = Some (b, out)" "lmdb_acc_inv mdb v cfg (a_id b) b"
    "a_id b = a_id a" "lmdb_acc_abs v b = s"
    by (auto simp: refines_def)
  obtain t outs where to: "spec_run (a_id a) s qs = (t, outs)" by (cases "spec_run (a_id a) s qs")
  have "refines (lmdb_acc_abs v) (\<lambda>c. lmdb_acc_inv mdb v cfg (a_id a) c \<and> a_id c = a_id a) (lmdb_run mdb (mv_crash v) cfg b qs) (t, outs)"
    using Cons.IH [OF b(2)] Cons.prems(2,3) b(1,3,4) to by simp
  then obtain c where "lmdb_run mdb (mv_crash v) cfg b qs = Some (c, outs)" "lmdb_acc_inv mdb v cfg (a_id a) c" "a_id c = a_id a"
    "lmdb_acc_abs v c = t"
    by (auto simp: refines_def)
  then show ?case using b(1) so to by (simp add: refines_def)
qed

text \<open>Two acceptors in the same abstract state, one in memory and one on disk, give the same answers.\<close>

lemma refines_agree:
  assumes "refines absf P res spec" "refines absf' P' res' spec"
  shows "\<exists>a b out. res = Some (a, out) \<and> res' = Some (b, out) \<and> absf a = absf' b"
  using assms by (auto simp: refines_def)

lemma backends_agree:
  assumes law: "mdb_law mdb v" and mem: "mem_acc_inv i a" "acceptor_room a"
    and disk: "lmdb_acc_inv mdb v cfg i b" "a_id b = i" "lmdb_room v (handle (a_store b))"
    and same: "mem_acc_abs a = lmdb_acc_abs v b"
  shows "\<exists>a' b' out. acceptor_receive_prepare a req = Some (a', out) \<and> acceptor_receive_prepare b req = Some (b', out) \<and>
      mem_acc_abs a' = lmdb_acc_abs v b'" (is ?prepare)
    and "value_wf (pvalue acc) \<Longrightarrow> \<exists>a' b' out. acceptor_receive_accept a acc = Some (a', out) \<and>
      acceptor_receive_accept b acc = Some (b', out) \<and> mem_acc_abs a' = lmdb_acc_abs v b'" (is "_ \<Longrightarrow> ?accept")
    and "\<exists>a' b' out. acceptor_receive_trim a t = Some (a', out) \<and> acceptor_receive_trim b t = Some (b', out) \<and>
      mem_acc_abs a' = lmdb_acc_abs v b'" (is ?trim)
proof -
  note prepare = lmdb_prepare_refines [OF law disk(1,3), of req, unfolded disk(2), folded same]
  show ?prepare by (rule refines_agree [OF mem_prepare_refines [OF mem] prepare])
  note trim = lmdb_trim_refines [OF law disk(1,3), of t, folded same]
  show ?trim by (rule refines_agree [OF mem_trim_refines [OF mem(1)] trim])
  show ?accept if wf: "value_wf (pvalue acc)"
    by (rule refines_agree [OF mem_accept_refines [OF mem wf] lmdb_accept_refines [OF law disk(1,3) wf, unfolded disk(2), folded same]])
qed

end
