(* ===== verification/Lmdb_Instance.thy ===== *)
theory Lmdb_Instance
  imports Storage_Lmdb
begin

text \<open>
  An instance of the LMDB parameter: a directory holds a list of entries in the order of the keys. It
  shows that the laws can hold and makes the backend executable.
\<close>

type_synonym entries = "(iid_t \<times> byte list) list"

record mdb_world =
  mw_disk :: "string \<Rightarrow> entries"
  mw_path :: "string option"
  mw_txn :: "entries option"
  mw_unread :: entries
  mw_at :: "iid_t option"

definition put_entry :: "iid_t \<Rightarrow> byte list \<Rightarrow> entries \<Rightarrow> entries" where
  "put_entry k d xs = filter (\<lambda>x. fst x < k) xs @ (k, d) # filter (\<lambda>x. k < fst x) xs"

definition del_entry :: "iid_t \<Rightarrow> entries \<Rightarrow> entries" where
  "del_entry k xs = filter (\<lambda>x. fst x \<noteq> k) xs"

definition txn_entries :: "mdb_world \<Rightarrow> entries" where
  "txn_entries w = (case mw_txn w of None \<Rightarrow> [] | Some xs \<Rightarrow> xs)"

definition disk_entries :: "mdb_world \<Rightarrow> entries" where
  "disk_entries w = (case mw_path w of None \<Rightarrow> [] | Some p \<Rightarrow> mw_disk w p)"

definition sorted_entries :: "entries \<Rightarrow> bool" where
  "sorted_entries xs \<longleftrightarrow> sorted_wrt (\<lambda>a b. lmdb_compare_iid (fst a) (fst b) < 0) xs"

definition mdb_list :: "mdb_world mdb" where
  "mdb_list = \<lparr>mdb_env_create = (\<lambda>w. (0, w)), mdb_env_set_mapsize = (\<lambda>_ w. (0, w)),
     mdb_env_open = (\<lambda>p _ w. (0, w\<lparr>mw_path := Some p\<rparr>)), mdb_env_close = (\<lambda>w. w\<lparr>mw_path := None\<rparr>),
     mdb_open = (\<lambda>w. (0, 1, w)), mdb_set_compare = (\<lambda>_ w. (0, w)), mdb_close = (\<lambda>w. w),
     mdb_txn_begin = (\<lambda>w. (0, w\<lparr>mw_txn := Some (disk_entries w)\<rparr>)),
     mdb_txn_commit = (\<lambda>w. (0, w\<lparr>mw_disk := (case mw_path w of None \<Rightarrow> mw_disk w
       | Some p \<Rightarrow> (mw_disk w)(p := txn_entries w)), mw_txn := None\<rparr>)),
     mdb_txn_abort = (\<lambda>w. w\<lparr>mw_txn := None\<rparr>),
     mdb_get = (\<lambda>k w. case map_of (txn_entries w) k of None \<Rightarrow> (MDB_NOTFOUND, []) | Some d \<Rightarrow> (0, d)),
     mdb_put = (\<lambda>k d w. (0, w\<lparr>mw_txn := Some (put_entry k d (txn_entries w))\<rparr>)),
     mdb_cursor_open = (\<lambda>w. (0, w\<lparr>mw_unread := txn_entries w, mw_at := None\<rparr>)),
     mdb_cursor_get = (\<lambda>w. case mw_unread w of [] \<Rightarrow> (MDB_NOTFOUND, 0, [], w)
       | (k, d) # xs \<Rightarrow> (0, k, d, w\<lparr>mw_unread := xs, mw_at := Some k\<rparr>)),
     mdb_cursor_del = (\<lambda>w. case mw_at w of None \<Rightarrow> (22, w)
       | Some k \<Rightarrow> (0, w\<lparr>mw_txn := Some (del_entry k (txn_entries w))\<rparr>)),
     mdb_cursor_close = (\<lambda>w. w), fs_stat = (\<lambda>_ _. True), fs_mkdir = (\<lambda>_ w. (0, w)),
     fs_remove = (\<lambda>p w. w\<lparr>mw_disk := (mw_disk w)(p := [])\<rparr>), mem_ptr_bytes = (\<lambda>_. replicate 8 0)\<rparr>"

definition mdb_list_view :: "mdb_world mdb_view" where
  "mdb_list_view = \<lparr>mv_usable = (\<lambda>w. mw_path w \<noteq> None \<and> sorted_entries (disk_entries w) \<and> sorted_entries (txn_entries w)),
     mv_room = (\<lambda>_. True), mv_path = (\<lambda>w. the (mw_path w)),
     mv_valid = (\<lambda>w p. sorted_entries (mw_disk w p)), mv_disk = (\<lambda>w p. map_of (mw_disk w p)),
     mv_committed = (\<lambda>w. map_of (disk_entries w)), mv_active = (\<lambda>w. map_option map_of (mw_txn w)),
     mv_unread = mw_unread, mv_at = mw_at,
     mv_crash = (\<lambda>w. w\<lparr>mw_path := None, mw_txn := None\<rparr>)\<rparr>"

lemma compare_less: "lmdb_compare_iid a b < 0 \<longleftrightarrow> a < b"
  by (auto simp: lmdb_compare_iid_def)

lemma map_of_filter_key: "map_of (filter (\<lambda>x. P (fst x)) xs) k = (if P k then map_of xs k else None)"
  by (induction xs) auto

lemma map_of_put: "map_of (put_entry k d xs) = (map_of xs)(k \<mapsto> d)"
proof
  fix k'
  have "k' < k \<Longrightarrow> \<not> k < k'" "k' \<noteq> k \<Longrightarrow> \<not> k' < k \<Longrightarrow> k < k'" by auto
  then show "map_of (put_entry k d xs) k' = ((map_of xs)(k \<mapsto> d)) k'"
    by (auto simp: put_entry_def map_add_def map_of_filter_key [where P = "\<lambda>x. x < k"]
      map_of_filter_key [where P = "\<lambda>x. k < x"] split: option.split)
qed

lemma map_of_del: "map_of (del_entry k xs) = (map_of xs)(k := None)"
  unfolding del_entry_def by (auto simp: fun_eq_iff map_of_filter_key [where P = "\<lambda>x. x \<noteq> k"])

lemma sorted_put: "sorted_entries xs \<Longrightarrow> sorted_entries (put_entry k d xs)"
  by (auto simp: sorted_entries_def put_entry_def compare_less sorted_wrt_append sorted_wrt_filter)

lemma sorted_del: "sorted_entries xs \<Longrightarrow> sorted_entries (del_entry k xs)"
  by (simp add: sorted_entries_def del_entry_def sorted_wrt_filter)

lemmas mdb_list_simps = mdb_list_def mdb_list_view_def mdb_keeps_def

lemma mdb_list_entries:
  "mw_txn w = Some xs \<Longrightarrow> txn_entries w = xs" "mw_path w = Some p \<Longrightarrow> disk_entries w = mw_disk w p"
  by (simp_all add: txn_entries_def disk_entries_def)

lemma mdb_list_law: "mdb_law mdb_list mdb_list_view"
proof -
  have start: "\<exists>w'. mdb_txn_begin mdb_list w = (0, w') \<and> mdb_keeps mdb_list_view w w' \<and>
      mv_active mdb_list_view w' = Some (mv_committed mdb_list_view w) \<and> (mv_room mdb_list_view w \<longrightarrow> mv_room mdb_list_view w')"
    if "mv_usable mdb_list_view w" for w
    using that by (auto simp: mdb_list_simps txn_entries_def disk_entries_def)
  have txn: "mdb_txn_law mdb_list mdb_list_view w (map_of xs)" "mdb_cursor_law mdb_list mdb_list_view w (map_of xs)"
    if usable: "mv_usable mdb_list_view w" and xs: "mw_txn w = Some xs" for w xs
  proof -
    obtain p where p: "mw_path w = Some p" "sorted_entries (mw_disk w p)" "sorted_entries xs"
      using usable xs by (auto simp: mdb_list_simps mdb_list_entries)
    show "mdb_txn_law mdb_list mdb_list_view w (map_of xs)"
      using p xs by (auto simp: mdb_txn_law_def mdb_list_simps txn_entries_def disk_entries_def map_of_put sorted_put
        sorted_entries_def [of "[]"] split: option.split)
    show "mdb_cursor_law mdb_list mdb_list_view w (map_of xs)"
      using p xs by (auto simp: mdb_cursor_law_def mdb_list_simps txn_entries_def disk_entries_def map_of_del sorted_del
        MDB_NOTFOUND_def sorted_entries_def [symmetric] split: list.split)
  qed
  show ?thesis
    unfolding mdb_law_def
  proof (intro conjI allI impI)
    show "length (mem_ptr_bytes mdb_list p) = 8" for p by (simp add: mdb_list_def)
    fix w
    assume usable: "mv_usable mdb_list_view w"
    show "case mv_active mdb_list_view w of
        None \<Rightarrow> \<exists>w'. mdb_txn_begin mdb_list w = (0, w') \<and> mdb_keeps mdb_list_view w w' \<and>
          mv_active mdb_list_view w' = Some (mv_committed mdb_list_view w) \<and> (mv_room mdb_list_view w \<longrightarrow> mv_room mdb_list_view w')
      | Some m \<Rightarrow> mdb_txn_law mdb_list mdb_list_view w m \<and> mdb_cursor_law mdb_list mdb_list_view w m"
      using start [OF usable] txn [OF usable]
      by (cases "mw_txn w") (simp_all add: mdb_list_view_def)
  qed
qed

lemma mdb_list_open_law: "mdb_open_law mdb_list mdb_list_view mapsize nosync"
  unfolding mdb_open_law_def mdb_opens_def
proof (intro conjI allI impI)
  fix w path
  assume "mv_valid mdb_list_view w path"
  then have "sorted_entries (mw_disk w path)" by (simp add: mdb_list_view_def)
  then show "\<exists>w'. (\<exists>w1 w2 w3 w4 dbi w5 w6. mdb_env_create mdb_list w = (0, w1) \<and>
      mdb_env_set_mapsize mdb_list mapsize w1 = (0, w2) \<and> mdb_env_open mdb_list path nosync w2 = (0, w3) \<and>
      mdb_txn_begin mdb_list w3 = (0, w4) \<and> mdb_open mdb_list w4 = (0, dbi, w5) \<and> dbi \<noteq> 0 \<and>
      mdb_set_compare mdb_list lmdb_compare_iid w5 = (0, w6) \<and> mdb_txn_commit mdb_list w6 = (0, w')) \<and>
      mv_usable mdb_list_view w' \<and> mv_path mdb_list_view w' = path \<and> mv_active mdb_list_view w' = None \<and>
      mv_committed mdb_list_view w' = mv_disk mdb_list_view w path"
    by (simp add: mdb_list_simps txn_entries_def disk_entries_def sorted_entries_def [of "[]"])
next
  fix w
  assume "mv_usable mdb_list_view w \<and> mv_active mdb_list_view w = None"
  then obtain p where "mw_path w = Some p" "sorted_entries (mw_disk w p)" by (auto simp: mdb_list_simps disk_entries_def)
  then show "mdb_left mdb_list mdb_list_view (mdb_env_close mdb_list (mdb_close mdb_list w)) (mv_path mdb_list_view w)
      (mv_committed mdb_list_view w)"
    by (simp add: mdb_left_def mdb_list_simps disk_entries_def)
next
  fix w
  assume "mv_usable mdb_list_view w"
  then obtain p where "mw_path w = Some p" "sorted_entries (mw_disk w p)" by (auto simp: mdb_list_simps disk_entries_def)
  then show "mdb_left mdb_list mdb_list_view (mv_crash mdb_list_view w) (mv_path mdb_list_view w) (mv_committed mdb_list_view w)"
    by (simp add: mdb_left_def mdb_list_simps disk_entries_def)
qed

definition empty_disk :: mdb_world where
  "empty_disk = \<lparr>mw_disk = (\<lambda>_. []), mw_path = None, mw_txn = None, mw_unread = [], mw_at = None\<rparr>"

lemma mdb_list_room: "lmdb_room mdb_list_view s"
  by (simp add: lmdb_room_def mdb_list_view_def)

lemma empty_disk_start:
  assumes "trash_files cfg = 0"
  obtains b where "acceptor_start (storage_init_lmdb mdb_list cfg empty_disk 0) 0 = Some (Some b)"
    "lmdb_acc_inv mdb_list mdb_list_view cfg 0 b" "a_id b = 0" "lmdb_acc_abs mdb_list_view b = (Map.empty, 0)"
proof -
  have left: "mdb_left mdb_list mdb_list_view empty_disk (lmdb_path cfg 0) Map.empty"
    by (simp add: mdb_left_def mdb_list_def mdb_list_view_def empty_disk_def sorted_entries_def)
  moreover have "entries_ok Map.empty" by (simp add: entries_ok_def)
  moreover have "entries_recs Map.empty = Map.empty" "entries_trim Map.empty = 0"
    by (simp_all add: entries_recs_def entries_trim_def fun_eq_iff)
  ultimately show thesis using lmdb_start [OF mdb_list_law mdb_list_open_law assms left] that by metis
qed

end
