(* ===== verification/Net_Paxos.thy ===== *)
theory Net_Paxos
  imports Net_Message Evpaxos "HOL-Library.Sublist"
begin

text \<open>
  The processes of the in-network library (\<open>net/acceptor.c\<close>, \<open>net/coordinator.c\<close>, \<open>net/learner.c\<close>,
  \<open>net/proposer.c\<close>, \<open>net/sequencer.c\<close>, \<open>net/netpaxos.c\<close>, \<open>net/netutils.c\<close>): they run the paxos library
  over datagrams of at most 128 bytes. A handler takes the bytes of a datagram and returns the new
  context and the datagrams that it sends, each with its destination. A buffer on the stack that is
  not initialised is an argument. \<open>sendto\<close> does not fail; a failed \<open>recvfrom\<close> is the missing datagram.
\<close>

section \<open>The context\<close>

definition BUFSIZE :: nat where
  "BUFSIZE = 128"

datatype net_dest = Remote | Coordinator | Acceptors | Learners

type_synonym datagrams = "(net_dest \<times> byte list) list"

text \<open>The pointers to the states of the roles are null where the process does not have the role.\<close>

record paxos_ctx =
  ctx_acceptor :: "mem_storage acceptor option"
  ctx_proposer :: "proposer option"
  ctx_learner :: "learner option"
  ctx_sequencer :: "32 word option"
  ctx_buffer :: "byte list"
  ctx_at_second :: int
  ctx_message_per_second :: int

definition init_paxos_ctx :: "byte list \<Rightarrow> paxos_ctx" where
  "init_paxos_ctx buffer =
    \<lparr>ctx_acceptor = None, ctx_proposer = None, ctx_learner = None, ctx_sequencer = None, ctx_buffer = buffer,
     ctx_at_second = 0, ctx_message_per_second = 0\<rparr>"

definition on_perf :: "paxos_ctx \<Rightarrow> paxos_ctx" where
  "on_perf ctx = ctx\<lparr>ctx_at_second := ctx_at_second ctx + 1, ctx_message_per_second := 0\<rparr>"

text \<open>The first byte of the address in memory, where the address is in network order.\<close>

definition net_ip__is_multicast_ip :: "(string \<Rightarrow> 32 word) \<Rightarrow> string \<Rightarrow> int" where
  "net_ip__is_multicast_ip inet_addr ip_address =
    (let i = uint (ucast (inet_addr ip_address) :: byte) in if i \<ge> 224 \<and> i \<le> 239 then 1 else 0)"

text \<open>Packing a message into a buffer, and the bytes of the buffer that are sent.\<close>

definition net_pack :: "byte list \<Rightarrow> paxos_message \<Rightarrow> (byte list \<times> byte list) option" where
  "net_pack buffer m = do {
     (buffer, n) \<leftarrow> pack_paxos_message buffer m;
     bs \<leftarrow> mem_get buffer 0 n;
     Some (buffer, bs)
   }"

text \<open>At most \<open>BUFSIZE\<close> bytes of a datagram overwrite the front of a buffer. The result is their number.\<close>

definition recvfrom :: "byte list \<Rightarrow> byte list option \<Rightarrow> byte list \<times> int" where
  "recvfrom buffer dgram = (case dgram of None \<Rightarrow> (buffer, - 1)
     | Some bs \<Rightarrow> let bs = take BUFSIZE bs in (bs @ drop (length bs) buffer, int (length bs)))"

section \<open>acceptor.c\<close>

definition acceptor_handle_prepare :: "paxos_ctx \<Rightarrow> paxos_prepare \<Rightarrow> (paxos_ctx \<times> datagrams) option" where
  "acceptor_handle_prepare ctx prepare = do {
     a \<leftarrow> ctx_acceptor ctx;
     (a, out) \<leftarrow> acceptor_receive_prepare a prepare;
     let ctx = ctx\<lparr>ctx_acceptor := Some a\<rparr>;
     case out of None \<Rightarrow> Some (ctx, [])
     | Some m \<Rightarrow> do {
         (buffer, bs) \<leftarrow> net_pack (ctx_buffer ctx) m;
         Some (ctx\<lparr>ctx_buffer := buffer\<rparr>, [(Remote, bs)])
       }
   }"

definition acceptor_handle_accept :: "paxos_ctx \<Rightarrow> paxos_accept \<Rightarrow> (paxos_ctx \<times> datagrams) option" where
  "acceptor_handle_accept ctx accept = do {
     a \<leftarrow> ctx_acceptor ctx;
     (a, out) \<leftarrow> acceptor_receive_accept a accept;
     let ctx = ctx\<lparr>ctx_acceptor := Some a\<rparr>;
     case out of
       Some (PAXOS_ACCEPTED r) \<Rightarrow> do {
         (buffer, bs) \<leftarrow> net_pack (ctx_buffer ctx) (PAXOS_ACCEPTED r);
         Some (ctx\<lparr>ctx_buffer := buffer\<rparr>, [(Learners, bs), (Remote, bs)])
       }
     | _ \<Rightarrow> Some (ctx, [])
   }"

partial_function (option) acceptor_repeat_loop ::
  "mem_storage acceptor \<Rightarrow> byte list \<Rightarrow> iid_t \<Rightarrow> iid_t \<Rightarrow> datagrams \<Rightarrow> (mem_storage acceptor \<times> byte list \<times> datagrams) option" where
  "acceptor_repeat_loop a buffer i lst out =
    (if i \<le> lst then do {
       (a, acc) \<leftarrow> acceptor_receive_repeat a i;
       (case acc of None \<Rightarrow> acceptor_repeat_loop a buffer (i + 1) lst out
        | Some r \<Rightarrow> do {
            (buffer, bs) \<leftarrow> net_pack buffer (PAXOS_ACCEPTED r);
            acceptor_repeat_loop a buffer (i + 1) lst (out @ [(Remote, bs)])
          })
     }
     else Some (a, buffer, out))"

definition acceptor_handle_repeat :: "paxos_ctx \<Rightarrow> paxos_repeat \<Rightarrow> (paxos_ctx \<times> datagrams) option" where
  "acceptor_handle_repeat ctx repeat = do {
     a \<leftarrow> ctx_acceptor ctx;
     (a, buffer, out) \<leftarrow> acceptor_repeat_loop a (ctx_buffer ctx) (repeat_from repeat) (repeat_to repeat) [];
     Some (ctx\<lparr>ctx_acceptor := Some a, ctx_buffer := buffer\<rparr>, out)
   }"

text \<open>
  The answer of a benchmark: what is behind a command number of 2 bytes and an address of 16 in the
  value, with a length that is computed from the length of the datagram and of the struct (22 bytes).
\<close>

definition benchmark_reply :: "paxos_accepted \<Rightarrow> int \<Rightarrow> byte list option" where
  "benchmark_reply acc sz = do {
     val \<leftarrow> paxos_value_val (pvalue acc);
     mem_get val (2 + 16) (size_of_int (sz - 22 + 2 + 16))
   }"

definition acceptor_handle_benchmark :: "paxos_ctx \<Rightarrow> paxos_accepted \<Rightarrow> int \<Rightarrow> (paxos_ctx \<times> datagrams) option" where
  "acceptor_handle_benchmark ctx acc sz = do {
     bs \<leftarrow> benchmark_reply acc sz;
     Some (ctx\<lparr>ctx_message_per_second := ctx_message_per_second ctx + 1\<rparr>, [(Remote, bs)])
   }"

definition acceptor_read :: "paxos_ctx \<Rightarrow> byte list option \<Rightarrow> (paxos_ctx \<times> datagrams) option" where
  "acceptor_read ctx dgram = do {
     let (buffer, n) = recvfrom (replicate BUFSIZE 0) dgram;
     let ctx = ctx\<lparr>ctx_buffer := buffer\<rparr>;
     msg \<leftarrow> unpack_paxos_message buffer;
     case msg of
       Some (PAXOS_ACCEPT r) \<Rightarrow> acceptor_handle_accept ctx r
     | Some (PAXOS_PREPARE r) \<Rightarrow> acceptor_handle_prepare ctx r
     | Some (PAXOS_REPEAT r) \<Rightarrow> acceptor_handle_repeat ctx r
     | Some (PAXOS_ACCEPTED r) \<Rightarrow> acceptor_handle_benchmark ctx r n
     | _ \<Rightarrow> Some (ctx, [])
   }"

definition make_acceptor :: "paxos_config \<Rightarrow> byte list \<Rightarrow> int \<Rightarrow> paxos_ctx option" where
  "make_acceptor cfg buffer i = do {
     a \<leftarrow> acceptor_new cfg i;
     Some ((init_paxos_ctx buffer)\<lparr>ctx_acceptor := a\<rparr>)
   }"

section \<open>coordinator.c\<close>

definition coordinator_send :: "paxos_message \<Rightarrow> (net_dest \<times> byte list) option" where
  "coordinator_send m = map_option (\<lambda>(_, bs). (Acceptors, bs)) (net_pack (replicate BUFSIZE 0) m)"

primrec coordinator_preexecute_loop :: "nat \<Rightarrow> clock \<Rightarrow> proposer \<Rightarrow> datagrams \<Rightarrow> (proposer \<times> datagrams) option" where
  "coordinator_preexecute_loop 0 now p out = Some (p, out)"
| "coordinator_preexecute_loop (Suc n) now p out = do {
     (p, pr) \<leftarrow> proposer_prepare p (now 0);
     d \<leftarrow> coordinator_send (PAXOS_PREPARE pr);
     coordinator_preexecute_loop n (\<lambda>i. now (Suc i)) p (out @ [d])
   }"

definition coordinator_preexecute :: "paxos_config \<Rightarrow> clock \<Rightarrow> proposer \<Rightarrow> (proposer \<times> datagrams) option" where
  "coordinator_preexecute cfg now p =
    (let count = proposer_preexec_window cfg - proposer_prepared_count p in
     if count \<le> 0 then Some (p, []) else coordinator_preexecute_loop (nat count) now p [])"

partial_function (option) coordinator_accept_loop :: "proposer \<Rightarrow> datagrams \<Rightarrow> (proposer \<times> datagrams) option" where
  "coordinator_accept_loop p out = do {
     (p, acc) \<leftarrow> proposer_accept p;
     case acc of None \<Rightarrow> Some (p, out)
     | Some a \<Rightarrow> do {
         d \<leftarrow> coordinator_send (PAXOS_ACCEPT a);
         coordinator_accept_loop p (out @ [d])
       }
   }"

definition coordinator_try_accept :: "paxos_config \<Rightarrow> clock \<Rightarrow> proposer \<Rightarrow> (proposer \<times> datagrams) option" where
  "coordinator_try_accept cfg now p = do {
     (p, out) \<leftarrow> coordinator_accept_loop p [];
     (p, out') \<leftarrow> coordinator_preexecute cfg now p;
     Some (p, out @ out')
   }"

definition coordinator_handle_proposal ::
  "paxos_config \<Rightarrow> clock \<Rightarrow> proposer \<Rightarrow> paxos_accept \<Rightarrow> (proposer \<times> datagrams) option" where
  "coordinator_handle_proposal cfg now p msg = do {
     p \<leftarrow> proposer_propose p (paxos_value_val (pvalue msg)) (size_of_int (paxos_value_len (pvalue msg)));
     coordinator_try_accept cfg now p
   }"

definition coordinator_handle_accepted ::
  "paxos_config \<Rightarrow> clock \<Rightarrow> proposer \<Rightarrow> paxos_accepted \<Rightarrow> (proposer \<times> datagrams) option" where
  "coordinator_handle_accepted cfg now p acc = do {
     (p, rv) \<leftarrow> proposer_receive_accepted p acc;
     if rv \<noteq> 0 then coordinator_try_accept cfg now p else Some (p, [])
   }"

definition coordinator_handle_promise ::
  "paxos_config \<Rightarrow> clock \<Rightarrow> proposer \<Rightarrow> paxos_promise \<Rightarrow> (proposer \<times> datagrams) option" where
  "coordinator_handle_promise cfg now p pro = do {
     (p, prepare) \<leftarrow> proposer_receive_promise p pro (now 0);
     out \<leftarrow> (case prepare of None \<Rightarrow> Some []
            | Some pr \<Rightarrow> map_option (\<lambda>d. [d]) (coordinator_send (PAXOS_PREPARE pr)));
     (p, out') \<leftarrow> coordinator_try_accept cfg (\<lambda>i. now (Suc i)) p;
     Some (p, out @ out')
   }"

text \<open>The handler of the socket, for a datagram and for the time-out of the read.\<close>

definition coordinator_read ::
  "paxos_config \<Rightarrow> clock \<Rightarrow> paxos_ctx \<Rightarrow> byte list option \<Rightarrow> (paxos_ctx \<times> datagrams) option" where
  "coordinator_read cfg now ctx dgram = do {
     let (buffer, _) = recvfrom (replicate BUFSIZE 0) dgram;
     let ctx = ctx\<lparr>ctx_buffer := buffer\<rparr>;
     msg \<leftarrow> unpack_paxos_message buffer;
     p \<leftarrow> ctx_proposer ctx;
     (p, out) \<leftarrow> (case msg of
         Some (PAXOS_PROMISE r) \<Rightarrow> coordinator_handle_promise cfg now p r
       | Some (PAXOS_ACCEPT r) \<Rightarrow> coordinator_handle_proposal cfg now p r
       | Some (PAXOS_ACCEPTED r) \<Rightarrow> coordinator_handle_accepted cfg now p r
       | _ \<Rightarrow> Some (p, []));
     Some (ctx\<lparr>ctx_proposer := Some p\<rparr>, out)
   }"

definition coordinator_read_timeout ::
  "paxos_config \<Rightarrow> clock \<Rightarrow> paxos_ctx \<Rightarrow> (paxos_ctx \<times> datagrams) option" where
  "coordinator_read_timeout cfg now ctx = do {
     p \<leftarrow> ctx_proposer ctx;
     (p, out) \<leftarrow> coordinator_preexecute cfg now p;
     Some (ctx\<lparr>ctx_proposer := Some p\<rparr>, out)
   }"

partial_function (option) coordinator_prepare_loop ::
  "paxos_config \<Rightarrow> timeout_iterator \<Rightarrow> proposer \<Rightarrow> datagrams \<Rightarrow> (timeout_iterator \<times> proposer \<times> datagrams) option" where
  "coordinator_prepare_loop cfg iter p out = do {
     (iter, p, pr) \<leftarrow> timeout_iterator_prepare cfg iter p;
     case pr of None \<Rightarrow> Some (iter, p, out)
     | Some r \<Rightarrow> do {
         d \<leftarrow> coordinator_send (PAXOS_PREPARE r);
         coordinator_prepare_loop cfg iter p (out @ [d])
       }
   }"

partial_function (option) coordinator_reaccept_loop ::
  "paxos_config \<Rightarrow> timeout_iterator \<Rightarrow> proposer \<Rightarrow> datagrams \<Rightarrow> (timeout_iterator \<times> proposer \<times> datagrams) option" where
  "coordinator_reaccept_loop cfg iter p out = do {
     (iter, p, ar) \<leftarrow> timeout_iterator_accept cfg iter p;
     case ar of None \<Rightarrow> Some (iter, p, out)
     | Some r \<Rightarrow> do {
         d \<leftarrow> coordinator_send (PAXOS_ACCEPT r);
         coordinator_reaccept_loop cfg iter p (out @ [d])
       }
   }"

definition coordinator_check_timeouts ::
  "paxos_config \<Rightarrow> timeval \<Rightarrow> paxos_ctx \<Rightarrow> (paxos_ctx \<times> datagrams) option" where
  "coordinator_check_timeouts cfg now ctx = do {
     p \<leftarrow> ctx_proposer ctx;
     let iter = proposer_timeout_iterator p now;
     (iter, p, out) \<leftarrow> coordinator_prepare_loop cfg iter p [];
     (iter, p, out) \<leftarrow> coordinator_reaccept_loop cfg iter p out;
     Some (ctx\<lparr>ctx_proposer := Some p\<rparr>, out)
   }"

definition make_coordinator :: "byte list \<Rightarrow> int \<Rightarrow> int \<Rightarrow> paxos_ctx option" where
  "make_coordinator buffer acceptor_count my_id = do {
     p \<leftarrow> proposer_new my_id acceptor_count;
     Some ((init_paxos_ctx buffer)\<lparr>ctx_proposer := Some p\<rparr>)
   }"

section \<open>proposer.c and sequencer.c\<close>

text \<open>
  A client value travels as an accept request for instance 1, in a buffer that is not initialised.
  The length that is sent is computed from the size of the value.
\<close>

definition submit :: "byte list \<Rightarrow> cbuf \<Rightarrow> int \<Rightarrow> datagrams option" where
  "submit buffer value sz = do {
     let msg = PAXOS_ACCEPT \<lparr>iid = 1, ballot = 0, value_ballot = 0, aid = 0,
       pvalue = \<lparr>paxos_value_len = sz, paxos_value_val = value\<rparr>\<rparr>;
     (buffer, _) \<leftarrow> pack_paxos_message buffer msg;
     bs \<leftarrow> mem_get buffer 0 (size_of_int (sizeof_paxos_message + sz));
     Some [(Coordinator, bs)]
   }"

definition sequencer_new :: "32 word" where
  "sequencer_new = 1"

definition sequencer_handle_proposal :: "paxos_ctx \<Rightarrow> byte list \<Rightarrow> int \<Rightarrow> (paxos_ctx \<times> datagrams) option" where
  "sequencer_handle_proposal ctx buf sz = do {
     i \<leftarrow> ctx_sequencer ctx;
     buf \<leftarrow> mem_write buf 2 (htonl i);
     bs \<leftarrow> mem_get buf 0 (size_of_int sz);
     Some (ctx\<lparr>ctx_sequencer := Some (i + 1)\<rparr>, [(Acceptors, bs)])
   }"

definition sequencer_handle_accepted :: "paxos_ctx \<Rightarrow> byte list \<Rightarrow> int \<Rightarrow> (paxos_ctx \<times> datagrams) option" where
  "sequencer_handle_accepted ctx buf sz = do {
     msg \<leftarrow> unpack_paxos_message buf;
     case msg of
       Some (PAXOS_ACCEPTED r) \<Rightarrow> do {
         bs \<leftarrow> benchmark_reply r sz;
         Some (ctx\<lparr>ctx_message_per_second := ctx_message_per_second ctx + 1\<rparr>, [(Remote, bs)])
       }
     | _ \<Rightarrow> None
   }"

text \<open>A failed \<open>recvfrom\<close> ends the process.\<close>

definition handle_packet_in :: "paxos_ctx \<Rightarrow> byte list \<Rightarrow> byte list \<Rightarrow> (paxos_ctx \<times> datagrams) option" where
  "handle_packet_in ctx buf dgram = do {
     let (buf, n) = recvfrom buf (Some dgram);
     bs \<leftarrow> mem_get buf 0 2;
     let msgtype = ntohs bs;
     if msgtype = 2 then sequencer_handle_proposal ctx buf n
     else if msgtype = 3 then sequencer_handle_accepted ctx buf n
     else Some (ctx, [])
   }"

definition make_sequencer :: "byte list \<Rightarrow> paxos_ctx" where
  "make_sequencer buffer = (init_paxos_ctx buffer)\<lparr>ctx_sequencer := Some sequencer_new\<rparr>"

section \<open>learner.c\<close>

definition learner_send :: "byte list \<Rightarrow> paxos_message \<Rightarrow> int \<Rightarrow> datagrams option" where
  "learner_send buffer m sz = do {
     (buffer, _) \<leftarrow> pack_paxos_message buffer m;
     bs \<leftarrow> mem_get buffer 0 (size_of_int sz);
     Some [(Acceptors, bs)]
   }"

definition on_paxos_accepted :: "(iid_t \<Rightarrow> iid_t) \<Rightarrow> learner \<Rightarrow> paxos_accepted \<Rightarrow> (learner \<times> delivery list) option" where
  "on_paxos_accepted freed l acc = do {
     l \<leftarrow> learner_receive_accepted l acc;
     evlearner_deliver_next_closed freed l []
   }"

text \<open>The length of the answer is computed from the value of the promise that just came.\<close>

definition on_paxos_promise ::
  "byte list \<Rightarrow> paxos_accept \<Rightarrow> learner \<Rightarrow> paxos_promise \<Rightarrow> (learner \<times> datagrams) option" where
  "on_paxos_promise buffer out l msg = do {
     (l, acc) \<leftarrow> learner_receive_promise l msg out;
     ds \<leftarrow> (case acc of None \<Rightarrow> Some []
           | Some a \<Rightarrow> learner_send buffer (PAXOS_ACCEPT a) (sizeof_paxos_message + paxos_value_len (pvalue msg)));
     Some (l, ds)
   }"

definition on_paxos_preempted :: "byte list \<Rightarrow> learner \<Rightarrow> paxos_preempted \<Rightarrow> (learner \<times> datagrams) option" where
  "on_paxos_preempted buffer l msg = do {
     (l, pr) \<leftarrow> learner_receive_preempted l msg;
     ds \<leftarrow> (case pr of None \<Rightarrow> Some []
           | Some p \<Rightarrow> learner_send buffer (PAXOS_PREPARE p) sizeof_paxos_message);
     Some (l, ds)
   }"

text \<open>
  One of the datagrams that \<open>recvmmsg\<close> returned, in its buffer of 129 bytes, which keeps the bytes of
  older datagrams behind a terminating 0. The results are the datagrams sent and the values delivered.
\<close>

definition learner_read_one ::
  "(iid_t \<Rightarrow> iid_t) \<Rightarrow> byte list \<Rightarrow> paxos_accept \<Rightarrow> learner \<Rightarrow> byte list \<Rightarrow> (learner \<times> datagrams \<times> delivery list) option" where
  "learner_read_one freed buffer out l buf = do {
     msg \<leftarrow> unpack_paxos_message buf;
     case msg of
       Some (PAXOS_ACCEPTED r) \<Rightarrow> map_option (\<lambda>(l, vs). (l, [], vs)) (on_paxos_accepted freed l r)
     | Some (PAXOS_PROMISE r) \<Rightarrow> map_option (\<lambda>(l, ds). (l, ds, [])) (on_paxos_promise buffer out l r)
     | Some (PAXOS_PREEMPTED r) \<Rightarrow> map_option (\<lambda>(l, ds). (l, ds, [])) (on_paxos_preempted buffer l r)
     | _ \<Rightarrow> Some (l, [], [])
   }"

fun learner_read_loop ::
  "(iid_t \<Rightarrow> iid_t) \<Rightarrow> byte list \<Rightarrow> paxos_accept \<Rightarrow> byte list list \<Rightarrow> byte list list \<Rightarrow> learner \<Rightarrow>
    (byte list list \<times> learner \<times> datagrams \<times> delivery list) option" where
  "learner_read_loop freed buffer out bufs [] l = Some (bufs, l, [], [])"
| "learner_read_loop freed buffer out [] (d # ds) l = None"
| "learner_read_loop freed buffer out (b # bufs) (d # ds) l = do {
     let (b, n) = recvfrom b (Some d);
     b \<leftarrow> array_write_int b n 0;
     (l, sent, vs) \<leftarrow> learner_read_one freed buffer out l b;
     (bufs, l, sent', vs') \<leftarrow> learner_read_loop freed buffer out bufs ds l;
     Some (b # bufs, l, sent @ sent', vs @ vs')
   }"

definition learner_read_cb ::
  "(iid_t \<Rightarrow> iid_t) \<Rightarrow> byte list \<Rightarrow> paxos_accept \<Rightarrow> byte list list \<Rightarrow> byte list list \<Rightarrow> paxos_ctx \<Rightarrow>
    (byte list list \<times> paxos_ctx \<times> datagrams \<times> delivery list) option" where
  "learner_read_cb freed buffer out bufs dgrams ctx = do {
     l \<leftarrow> ctx_learner ctx;
     (bufs, l, sent, vs) \<leftarrow> learner_read_loop freed buffer out bufs dgrams l;
     Some (bufs, ctx\<lparr>ctx_learner := Some l\<rparr>, sent, vs)
   }"

definition make_learner :: "paxos_config \<Rightarrow> byte list \<Rightarrow> int \<Rightarrow> paxos_ctx" where
  "make_learner cfg buffer acceptor_count =
    (init_paxos_ctx buffer)\<lparr>ctx_learner := Some (learner_set_instance_id (learner_new cfg acceptor_count) 0)\<rparr>"

definition make_replica :: "paxos_config \<Rightarrow> byte list \<Rightarrow> int \<Rightarrow> paxos_ctx" where
  "make_replica cfg buffer acceptor_count =
    (init_paxos_ctx buffer)\<lparr>ctx_learner := Some (learner_set_instance_id (learner_new cfg acceptor_count) 0)\<rparr>"

section \<open>Datagrams and messages\<close>

text \<open>
  A message can be sent when its datagram fits the buffer and covers all its bytes. A datagram carries
  a message when it starts with its bytes.
\<close>

definition sendable :: "paxos_message \<Rightarrow> bool" where
  "sendable m \<longleftrightarrow> message_fits m \<and> \<not> is_client_value m \<and> int (wire_len m) \<le> dgram_len m \<and> dgram_len m \<le> 128"

definition carries :: "byte list \<Rightarrow> paxos_message \<Rightarrow> bool" where
  "carries bs m \<longleftrightarrow> prefix (message_image m) bs \<and> length bs \<le> BUFSIZE"

lemma net_pack_carries:
  assumes "length buffer = BUFSIZE" "sendable m"
  obtains buffer' bs where "net_pack buffer m = Some (buffer', bs)" "length buffer' = BUFSIZE" "carries bs m"
proof -
  have m: "message_fits m" "\<not> is_client_value m" "int (wire_len m) \<le> dgram_len m" "dgram_len m \<le> 128"
    using assms(2) by (auto simp: sendable_def)
  then have size: "size_of_int (dgram_len m) = nat (dgram_len m)" by (intro size_of_int_nat) auto
  from pack_message_image [OF m(1) _ m(2), of buffer] obtain p' where
    p': "pack_paxos_message buffer m = Some (p', nat (dgram_len m))" "take (wire_len m) p' = message_image m" "length p' = BUFSIZE"
    using m(3,4) assms(1) size by (auto simp: BUFSIZE_def)
  have "mem_get p' 0 (nat (dgram_len m)) = Some (take (nat (dgram_len m)) p')"
    using m(4) p'(3) by (simp add: mem_get_def BUFSIZE_def)
  moreover have "prefix (take (wire_len m) p') (take (nat (dgram_len m)) p')" using m(3) by (metis nat_int nat_mono prefix_def take_is_prefix take_take min_def)
  ultimately show thesis
    by (intro that [of p' "take (nat (dgram_len m)) p'"]) (use p' m(4) in \<open>simp_all add: net_pack_def carries_def BUFSIZE_def\<close>)
qed

lemma unpack_carries:
  assumes "carries bs m" "message_fits m" "\<not> is_client_value m"
  shows "unpack_paxos_message (fst (recvfrom buffer (Some bs))) = Some (Some (received m))"
proof -
  obtain zs where bs: "bs = message_image m @ zs" "length bs \<le> BUFSIZE" using assms(1) by (auto simp: carries_def prefix_def)
  then have "take (length (message_image m)) (fst (recvfrom buffer (Some bs))) = message_image m"
    by (simp add: recvfrom_def Let_def)
  then show ?thesis by (rule unpack_message_image [OF _ assms(2,3)])
qed

section \<open>The acceptor\<close>

text \<open>
  Where the datagram goes for a message that a handler of evpaxos sends: an answer to the sender, a
  message to the clients of an acceptor once to the learners and once to the sender, a request to
  the acceptors.
\<close>

fun net_route :: "dest \<times> paxos_message \<Rightarrow> (net_dest \<times> paxos_message) list" where
  "net_route (ToPeer, m) = [(Remote, m)]"
| "net_route (ToClients, m) = [(Learners, m), (Remote, m)]"
| "net_route (ToAcceptors, m) = [(Acceptors, m)]"

definition matches :: "datagrams \<Rightarrow> sends \<Rightarrow> bool" where
  "matches ds out \<longleftrightarrow> list_all2 (\<lambda>(d, bs) (d', m). d = d' \<and> carries bs m) ds (concat (map net_route out))"

lemma matches_Nil [simp]: "matches [] []"
  by (simp add: matches_def)

lemma matches_append: "matches ds out \<Longrightarrow> matches ds' out' \<Longrightarrow> matches (ds @ ds') (out @ out')"
  by (simp add: matches_def list_all2_appendI)

definition all_sendable :: "sends \<Rightarrow> bool" where
  "all_sendable out \<longleftrightarrow> list_all (\<lambda>(_, m). sendable m) out"

lemma acceptor_handle_prepare_ev:
  assumes "ctx_acceptor ctx = Some a" "length (ctx_buffer ctx) = BUFSIZE"
    and "evacceptor_handle_prepare a r = Some (a', out)" "all_sendable out"
  shows "\<exists>ctx' ds. acceptor_handle_prepare ctx r = Some (ctx', ds) \<and> ctx_acceptor ctx' = Some a' \<and> matches ds out"
proof -
  from assms(3) obtain m where m: "acceptor_receive_prepare a r = Some (a', m)"
    "out = (case m of Some m \<Rightarrow> [(ToPeer, m)] | None \<Rightarrow> [])"
    by (auto simp: evacceptor_handle_prepare_def bind_eq_Some_conv)
  show ?thesis
  proof (cases m)
    case None
    then show ?thesis using assms(1) m by (simp add: acceptor_handle_prepare_def)
  next
    case (Some m')
    then have "sendable m'" using assms(4) m(2) by (simp add: all_sendable_def)
    then obtain buffer' bs where "net_pack (ctx_buffer ctx) m' = Some (buffer', bs)" "carries bs m'"
      using assms(2) by (blast elim: net_pack_carries)
    moreover have "\<exists>r'. m' = PAXOS_PROMISE r'"
      using m(1) Some by (auto simp: acceptor_receive_prepare_def paxos_accepted_to_promise_def Let_def
        split: if_splits Option.bind_splits prod.splits)
    ultimately show ?thesis using assms(1) m Some by (auto simp: acceptor_handle_prepare_def matches_def)
  qed
qed

text \<open>The acceptor over datagrams does not send the refusal of an accept request.\<close>

fun is_refusal :: "dest \<times> paxos_message \<Rightarrow> bool" where
  "is_refusal (d, PAXOS_PREEMPTED r) = True"
| "is_refusal _ = False"

abbreviation no_refusals :: "sends \<Rightarrow> sends" where
  "no_refusals \<equiv> filter (\<lambda>s. \<not> is_refusal s)"

lemma acceptor_handle_accept_ev:
  assumes "ctx_acceptor ctx = Some a" "length (ctx_buffer ctx) = BUFSIZE"
    and "evacceptor_handle_accept a r = Some (a', out)" "all_sendable (no_refusals out)"
  shows "\<exists>ctx' ds. acceptor_handle_accept ctx r = Some (ctx', ds) \<and> ctx_acceptor ctx' = Some a' \<and>
    matches ds (no_refusals out)"
proof -
  from assms(3) obtain m where m: "acceptor_receive_accept a r = Some (a', m)"
    "out = (case m of Some (PAXOS_ACCEPTED r) \<Rightarrow> [(ToClients, PAXOS_ACCEPTED r)]
      | Some (PAXOS_PREEMPTED r) \<Rightarrow> [(ToPeer, PAXOS_PREEMPTED r)] | _ \<Rightarrow> [])"
    by (auto simp: evacceptor_handle_accept_def bind_eq_Some_conv)
  show ?thesis
  proof (cases "\<exists>r'. m = Some (PAXOS_ACCEPTED r')")
    case True
    then obtain r' where r': "m = Some (PAXOS_ACCEPTED r')" by auto
    then have "sendable (PAXOS_ACCEPTED r')" using assms(4) m(2) by (simp add: all_sendable_def)
    then obtain buffer' bs where "net_pack (ctx_buffer ctx) (PAXOS_ACCEPTED r') = Some (buffer', bs)" "carries bs (PAXOS_ACCEPTED r')"
      using assms(2) by (blast elim: net_pack_carries)
    then show ?thesis using assms(1) m r' by (simp add: acceptor_handle_accept_def matches_def)
  next
    case False
    then have "acceptor_handle_accept ctx r = Some (ctx\<lparr>ctx_acceptor := Some a'\<rparr>, [])"
      using assms(1) m(1) by (auto simp: acceptor_handle_accept_def Let_def split: option.split paxos_message.split)
    moreover have "matches [] (no_refusals out)"
      using False m(2) by (auto simp: matches_def split: option.splits paxos_message.splits)
    ultimately show ?thesis by simp
  qed
qed

lemma all_sendable_append [simp]: "all_sendable (xs @ ys) \<longleftrightarrow> all_sendable xs \<and> all_sendable ys"
  by (simp add: all_sendable_def)

lemma acceptor_repeat_loop_ev:
  assumes "evacceptor_repeat_loop a i lst out = Some x" "all_sendable (snd x)" "matches ds out" "length buffer = BUFSIZE"
  shows "\<exists>buffer' ds'. acceptor_repeat_loop a buffer i lst ds = Some (fst x, buffer', ds') \<and> matches ds' (snd x)"
proof -
  let ?P = "\<lambda>a i lst out x. all_sendable (snd x) \<longrightarrow> (\<exists>ms. snd x = out @ ms) \<and> (\<forall>ds buffer. matches ds out \<longrightarrow>
    length buffer = BUFSIZE \<longrightarrow>
    (\<exists>buffer' ds'. acceptor_repeat_loop a buffer i lst ds = Some (fst x, buffer', ds') \<and> matches ds' (snd x)))"
  have "?P a i lst out x"
  proof (rule evacceptor_repeat_loop.raw_induct [where P = ?P, OF _ assms(1)])
    fix loop :: "mem_storage acceptor \<Rightarrow> iid_t \<Rightarrow> iid_t \<Rightarrow> sends \<Rightarrow> (mem_storage acceptor \<times> sends) option" and a i lst out x
    assume IH: "\<And>a i lst out y. loop a i lst out = Some y \<Longrightarrow> ?P a i lst out y"
      and eq: "(if i \<le> lst then acceptor_receive_repeat a i \<bind> (\<lambda>(a, acc). loop a (i + 1) lst
        (out @ (case acc of Some r \<Rightarrow> [(ToPeer, PAXOS_ACCEPTED r)] | None \<Rightarrow> []))) else Some (a, out)) = Some x"
    show "?P a i lst out x"
    proof (cases "i \<le> lst")
      case False
      then show ?thesis using eq by (auto simp: acceptor_repeat_loop.simps [of a])
    next
      case True
      let ?o = "\<lambda>acc. case acc of Some r \<Rightarrow> [(ToPeer, PAXOS_ACCEPTED r)] | None \<Rightarrow> []"
      obtain a1 acc where a1: "acceptor_receive_repeat a i = Some (a1, acc)" "loop a1 (i + 1) lst (out @ ?o acc) = Some x"
        using eq True by (auto simp: bind_eq_Some_conv)
      note run = IH [OF a1(2)]
      show ?thesis
      proof (intro impI conjI allI)
        assume ok: "all_sendable (snd x)"
        then show "\<exists>ms. snd x = out @ ms" using run by auto
        fix ds buffer
        assume ds: "matches ds out" and buf: "length (buffer :: byte list) = BUFSIZE"
        show "\<exists>buffer' ds'. acceptor_repeat_loop a buffer i lst ds = Some (fst x, buffer', ds') \<and> matches ds' (snd x)"
        proof (cases acc)
          case None
          then show ?thesis using run ok ds buf a1(1) True by (simp add: acceptor_repeat_loop.simps [of a])
        next
          case (Some r)
          then have "sendable (PAXOS_ACCEPTED r)" using run ok by (auto simp: all_sendable_def)
          then obtain b1 bs where b1: "net_pack buffer (PAXOS_ACCEPTED r) = Some (b1, bs)" "length b1 = BUFSIZE"
            "carries bs (PAXOS_ACCEPTED r)" using buf by (blast elim: net_pack_carries)
          have "matches (ds @ [(Remote, bs)]) (out @ [(ToPeer, PAXOS_ACCEPTED r)])"
            using ds b1(3) by (intro matches_append) (simp_all add: matches_def)
          then show ?thesis using run ok b1(1,2) a1(1) True Some by (simp add: acceptor_repeat_loop.simps [of a])
        qed
      qed
    qed
  qed
  then show ?thesis using assms(2-4) by blast
qed

lemma acceptor_handle_repeat_ev:
  assumes "ctx_acceptor ctx = Some a" "length (ctx_buffer ctx) = BUFSIZE"
    and "evacceptor_handle_repeat a r = Some (a', out)" "all_sendable out"
  shows "\<exists>ctx' ds. acceptor_handle_repeat ctx r = Some (ctx', ds) \<and> ctx_acceptor ctx' = Some a' \<and> matches ds out"
  using acceptor_repeat_loop_ev [of a "repeat_from r" "repeat_to r" "[]" "(a', out)" "[]" "ctx_buffer ctx"] assms
  by (auto simp: evacceptor_handle_repeat_def acceptor_handle_repeat_def)

text \<open>
  The acceptor answers a datagram as the acceptor of evpaxos answers the message that it carries, the
  refusals apart. Requests to trim and messages for other processes do nothing.
\<close>

fun acceptor_ignores :: "paxos_message \<Rightarrow> bool" where
  "acceptor_ignores (PAXOS_PREPARE _) = False"
| "acceptor_ignores (PAXOS_ACCEPT _) = False"
| "acceptor_ignores (PAXOS_REPEAT _) = False"
| "acceptor_ignores (PAXOS_ACCEPTED _) = False"
| "acceptor_ignores _ = True"

lemma acceptor_read_ev:
  assumes "ctx_acceptor ctx = Some a" "carries bs m" "message_fits m" "\<not> is_client_value m"
  shows "m = PAXOS_PREPARE r \<Longrightarrow> evacceptor_handle_prepare a (r\<lparr>pvalue := nul_value (pvalue r)\<rparr>) = Some (a', out) \<Longrightarrow>
      all_sendable out \<Longrightarrow>
      \<exists>ctx' ds. acceptor_read ctx (Some bs) = Some (ctx', ds) \<and> ctx_acceptor ctx' = Some a' \<and> matches ds out"
    and "m = PAXOS_ACCEPT r \<Longrightarrow> evacceptor_handle_accept a (r\<lparr>pvalue := nul_value (pvalue r)\<rparr>) = Some (a', out) \<Longrightarrow>
      all_sendable (no_refusals out) \<Longrightarrow>
      \<exists>ctx' ds. acceptor_read ctx (Some bs) = Some (ctx', ds) \<and> ctx_acceptor ctx' = Some a' \<and> matches ds (no_refusals out)"
    and "m = PAXOS_REPEAT q \<Longrightarrow> evacceptor_handle_repeat a q = Some (a', out) \<Longrightarrow> all_sendable out \<Longrightarrow>
      \<exists>ctx' ds. acceptor_read ctx (Some bs) = Some (ctx', ds) \<and> ctx_acceptor ctx' = Some a' \<and> matches ds out"
    and "acceptor_ignores m \<Longrightarrow>
      \<exists>ctx'. acceptor_read ctx (Some bs) = Some (ctx', []) \<and> ctx_acceptor ctx' = Some a"
proof -
  obtain buffer n where b: "recvfrom (replicate BUFSIZE 0) (Some bs) = (buffer, n)" by (cases "recvfrom (replicate BUFSIZE 0) (Some bs)")
  have unpack: "unpack_paxos_message buffer = Some (Some (received m))"
    using unpack_carries [OF assms(2-4), of "replicate BUFSIZE 0"] b by auto
  have len: "length buffer = BUFSIZE" using b assms(2) by (auto simp: recvfrom_def carries_def Let_def)
  let ?ctx = "ctx\<lparr>ctx_buffer := buffer\<rparr>"
  have ctx: "ctx_acceptor ?ctx = Some a" "length (ctx_buffer ?ctx) = BUFSIZE" using assms(1) len by simp_all
  note read = acceptor_read_def b
  show "\<exists>ctx' ds. acceptor_read ctx (Some bs) = Some (ctx', ds) \<and> ctx_acceptor ctx' = Some a' \<and> matches ds out"
    if "m = PAXOS_PREPARE r" "evacceptor_handle_prepare a (r\<lparr>pvalue := nul_value (pvalue r)\<rparr>) = Some (a', out)" "all_sendable out"
    using acceptor_handle_prepare_ev [OF ctx that(2,3)] unpack that(1) by (simp add: read)
  show "\<exists>ctx' ds. acceptor_read ctx (Some bs) = Some (ctx', ds) \<and> ctx_acceptor ctx' = Some a' \<and> matches ds (no_refusals out)"
    if "m = PAXOS_ACCEPT r" "evacceptor_handle_accept a (r\<lparr>pvalue := nul_value (pvalue r)\<rparr>) = Some (a', out)"
      "all_sendable (no_refusals out)"
    using acceptor_handle_accept_ev [OF ctx that(2,3)] unpack that(1) by (simp add: read)
  show "\<exists>ctx' ds. acceptor_read ctx (Some bs) = Some (ctx', ds) \<and> ctx_acceptor ctx' = Some a' \<and> matches ds out"
    if "m = PAXOS_REPEAT q" "evacceptor_handle_repeat a q = Some (a', out)" "all_sendable out"
    using acceptor_handle_repeat_ev [OF ctx that(2,3)] unpack that(1) by (simp add: read)
  show "\<exists>ctx'. acceptor_read ctx (Some bs) = Some (ctx', []) \<and> ctx_acceptor ctx' = Some a" if "acceptor_ignores m"
    using that ctx(1) unpack assms(4) by (cases m) (simp_all add: read)
qed

text \<open>The answer of a benchmark is longer than what is left of the value: a read past its end.\<close>

lemma benchmark_over_read:
  assumes "value_wf (pvalue r)"
  shows "benchmark_reply (r\<lparr>pvalue := nul_value (pvalue r)\<rparr>) (dgram_len (PAXOS_ACCEPTED r)) = None"
proof -
  have "0 \<le> paxos_value_len (pvalue r)" "paxos_value_len (pvalue r) < 2 ^ 31" using assms by (auto simp: value_wf_def)
  then have "size_of_int (26 + paxos_value_len (pvalue r) - 22 + 2 + 16) = nat (22 + paxos_value_len (pvalue r))"
    by (subst size_of_int_nat) auto
  then show ?thesis
    using value_wf_len [OF assms]
    by (auto simp: benchmark_reply_def nul_value_def mem_get_def sizeof_paxos_message_def)
qed

section \<open>The sequencer\<close>

lemma submit_carries:
  assumes "length buffer = BUFSIZE" "length v \<le> 102"
  obtains bs where "submit buffer (Some v) (int (length v)) = Some [(Coordinator, bs)]"
    "carries bs (PAXOS_ACCEPT \<lparr>iid = 1, ballot = 0, value_ballot = 0, aid = 0, pvalue = value_of_bytes v\<rparr>)"
proof -
  let ?m = "PAXOS_ACCEPT \<lparr>iid = 1, ballot = 0, value_ballot = 0, aid = 0, pvalue = value_of_bytes v\<rparr>"
  have "sendable ?m" using assms(2) value_wf_of_bytes [of v]
    by (simp add: sendable_def fits_def value_of_bytes_def sizeof_paxos_message_def)
  then obtain buffer' bs where "net_pack buffer ?m = Some (buffer', bs)" "carries bs ?m"
    using assms(1) by (blast elim: net_pack_carries)
  moreover have "submit buffer (Some v) (int (length v)) = map_option (\<lambda>(_, bs). [(Coordinator, bs)]) (net_pack buffer ?m)"
    by (auto simp: submit_def net_pack_def value_of_bytes_def Let_def bind_eq_Some_conv map_option_case
      split: option.splits Option.bind_splits)
  ultimately show thesis using that by simp
qed

lemma sequencer_step:
  assumes "ctx_sequencer ctx = Some i" "length buf = BUFSIZE" "carries bs (PAXOS_ACCEPT r)"
  shows "\<exists>bs'. handle_packet_in ctx buf bs = Some (ctx\<lparr>ctx_sequencer := Some (i + 1)\<rparr>, [(Acceptors, bs')]) \<and>
    carries bs' (PAXOS_ACCEPT (r\<lparr>iid := i\<rparr>)) \<and> length bs' = length bs"
proof -
  let ?tail = "htons (ballot r) @ htons (value_ballot r) @ htons (aid r) @ value_image (pvalue r)"
  obtain zs where zs: "bs = htons 2 @ htonl (iid r) @ ?tail @ zs" "length bs \<le> BUFSIZE"
    using assms(3) by (auto simp: carries_def prefix_def record_image_def)
  let ?junk = "drop (length bs) buf"
  have recv: "recvfrom buf (Some bs) = (bs @ ?junk, int (length bs))" using zs(2) by (simp add: recvfrom_def)
  have msgtype: "mem_get (bs @ ?junk) 0 2 = Some (htons 2)" by (simp add: zs(1) mem_get_def)
  have "mem_write (bs @ ?junk) 2 (htonl i) = Some ((htons 2 @ htonl i @ ?tail @ zs) @ ?junk)"
    by (simp add: zs(1) mem_write_def)
  moreover have "mem_get ((htons 2 @ htonl i @ ?tail @ zs) @ ?junk) 0 (size_of_int (int (length bs))) =
      Some (htons 2 @ htonl i @ ?tail @ zs)"
    using zs(2) by (subst size_of_int_nat) (simp_all add: zs(1) mem_get_def BUFSIZE_def)
  ultimately have "handle_packet_in ctx buf bs =
      Some (ctx\<lparr>ctx_sequencer := Some (i + 1)\<rparr>, [(Acceptors, htons 2 @ htonl i @ ?tail @ zs)])"
    using assms(1) recv msgtype by (simp add: handle_packet_in_def sequencer_handle_proposal_def)
  moreover have "carries (htons 2 @ htonl i @ ?tail @ zs) (PAXOS_ACCEPT (r\<lparr>iid := i\<rparr>))"
    using zs by (simp add: carries_def record_image_def)
  ultimately show ?thesis by (simp add: zs(1))
qed

text \<open>The sequencer over a list of datagrams, each in a buffer with old bytes.\<close>

fun sequencer_run :: "paxos_ctx \<Rightarrow> (byte list \<times> byte list) list \<Rightarrow> (paxos_ctx \<times> datagrams) option" where
  "sequencer_run ctx [] = Some (ctx, [])"
| "sequencer_run ctx ((buf, d) # ds) = do {
     (ctx, out) \<leftarrow> handle_packet_in ctx buf d;
     (ctx, out') \<leftarrow> sequencer_run ctx ds;
     Some (ctx, out @ out')
   }"

lemma sequencer_run_numbers:
  assumes "ctx_sequencer ctx = Some i"
    and "list_all2 (\<lambda>(buf, d) r. length buf = BUFSIZE \<and> carries d (PAXOS_ACCEPT r)) ds rs"
  shows "\<exists>out. sequencer_run ctx ds = Some (ctx\<lparr>ctx_sequencer := Some (i + of_nat (length rs))\<rparr>, out) \<and>
    list_all2 (\<lambda>(dst, d) (k, r). dst = Acceptors \<and> carries d (PAXOS_ACCEPT (r\<lparr>iid := i + of_nat k\<rparr>))) out
      (zip [0..<length rs] rs)"
  using assms
proof (induction ds arbitrary: ctx i rs)
  case Nil
  then show ?case by (cases ctx) simp
next
  case (Cons bd ds)
  obtain buf d where bd: "bd = (buf, d)" by (cases bd)
  from Cons.prems(2) obtain r rs' where rs: "rs = r # rs'" "length buf = BUFSIZE" "carries d (PAXOS_ACCEPT r)"
    "list_all2 (\<lambda>(buf, d) r. length buf = BUFSIZE \<and> carries d (PAXOS_ACCEPT r)) ds rs'"
    by (auto simp: list_all2_Cons1 bd)
  let ?ctx = "ctx\<lparr>ctx_sequencer := Some (i + 1)\<rparr>"
  from sequencer_step [OF Cons.prems(1) rs(2,3)] obtain d' where
    d': "handle_packet_in ctx buf d = Some (?ctx, [(Acceptors, d')])" "carries d' (PAXOS_ACCEPT (r\<lparr>iid := i\<rparr>))"
    by blast
  from Cons.IH [of ?ctx "i + 1", OF _ rs(4)] obtain out where
    out: "sequencer_run ?ctx ds = Some (?ctx\<lparr>ctx_sequencer := Some (i + 1 + of_nat (length rs'))\<rparr>, out)"
    "list_all2 (\<lambda>(dst, d) (k, r). dst = Acceptors \<and> carries d (PAXOS_ACCEPT (r\<lparr>iid := i + 1 + of_nat k\<rparr>))) out
      (zip [0..<length rs'] rs')"
    by auto
  have "zip [0..<length rs] rs = (0, r) # zip (map Suc [0..<length rs']) rs'"
    by (simp add: rs(1) upt_conv_Cons map_Suc_upt del: upt_Suc)
  moreover have "list_all2 (\<lambda>(dst, d) (k, r). dst = Acceptors \<and> carries d (PAXOS_ACCEPT (r\<lparr>iid := i + of_nat k\<rparr>))) out
      (zip (map Suc [0..<length rs']) rs')"
    using out(2) by (simp add: zip_map1 list_all2_map2 case_prod_beta' add.assoc)
  ultimately show ?case
    using d' out(1) by (simp add: bd rs(1) add.assoc add.commute add.left_commute)
qed

text \<open>Values on their way through the sequencer.\<close>

lemma sequencer_run_values:
  assumes seq: "ctx_sequencer ctx = Some i" and len: "length buffer = BUFSIZE" "length buf = BUFSIZE"
    and vs: "\<forall>v \<in> set vs. length v \<le> 102"
  shows "\<exists>ds out. list_all2 (\<lambda>v d. submit buffer (Some v) (int (length v)) = Some [(Coordinator, d)]) vs ds \<and>
    sequencer_run ctx (map (Pair buf) ds) = Some (ctx\<lparr>ctx_sequencer := Some (i + of_nat (length vs))\<rparr>, out) \<and>
    list_all2 (\<lambda>(dst, d) (k, v). dst = Acceptors \<and> (\<forall>b. unpack_paxos_message (fst (recvfrom b (Some d))) =
      Some (Some (PAXOS_ACCEPT \<lparr>iid = i + of_nat k, ballot = 0, value_ballot = 0, aid = 0,
        pvalue = nul_value (value_of_bytes v)\<rparr>)))) out (zip [0..<length vs] vs)"
proof -
  let ?r = "\<lambda>v. \<lparr>iid = 1, ballot = 0, value_ballot = 0, aid = 0, pvalue = value_of_bytes v\<rparr>"
  define bs where "bs v = snd (hd (the (submit buffer (Some v) (int (length v)))))" for v
  have bs: "submit buffer (Some v) (int (length v)) = Some [(Coordinator, bs v)]" "carries (bs v) (PAXOS_ACCEPT (?r v))"
    if "v \<in> set vs" for v
    using submit_carries [OF len(1), of v] vs that by (force simp: bs_def)+
  have "list_all2 (\<lambda>(buf, d) r. length buf = BUFSIZE \<and> carries d (PAXOS_ACCEPT r)) (map (Pair buf) (map bs vs)) (map ?r vs)"
    using bs(2) len(2) by (simp add: list_all2_map1 list_all2_map2 list.rel_refl_strong)
  from sequencer_run_numbers [OF seq this] obtain out where
    run: "sequencer_run ctx (map (Pair buf) (map bs vs)) = Some (ctx\<lparr>ctx_sequencer := Some (i + of_nat (length vs))\<rparr>, out)"
    and out: "list_all2 (\<lambda>(dst, d) (k, r). dst = Acceptors \<and> carries d (PAXOS_ACCEPT (r\<lparr>iid := i + of_nat k\<rparr>))) out
      (zip [0..<length vs] (map ?r vs))"
    by auto
  have fits: "message_fits (PAXOS_ACCEPT ((?r v)\<lparr>iid := k\<rparr>))" if "v \<in> set vs" for v k
    using vs that value_wf_of_bytes [of v] by (auto simp: fits_def value_of_bytes_def)
  have "list_all2 (\<lambda>(dst, d) (k, v). dst = Acceptors \<and> carries d (PAXOS_ACCEPT ((?r v)\<lparr>iid := i + of_nat k\<rparr>))) out
      (zip [0..<length vs] vs)"
    using out by (simp add: zip_map2 list_all2_map2 case_prod_beta')
  then have "list_all2 (\<lambda>(dst, d) (k, v). dst = Acceptors \<and> (\<forall>b. unpack_paxos_message (fst (recvfrom b (Some d))) =
      Some (Some (PAXOS_ACCEPT \<lparr>iid = i + of_nat k, ballot = 0, value_ballot = 0, aid = 0,
        pvalue = nul_value (value_of_bytes v)\<rparr>)))) out (zip [0..<length vs] vs)"
  proof (rule list.rel_mono_strong, clarify)
    fix dst d k v
    assume "(k, v) \<in> set (zip [0..<length vs] vs)"
    then have v: "v \<in> set vs" by (rule set_zip_rightD)
    assume "carries d (PAXOS_ACCEPT ((?r v)\<lparr>iid := i + of_nat k\<rparr>))"
    from unpack_carries [OF this fits [OF v]]
    show "(Acceptors = Acceptors) \<and> (\<forall>b. unpack_paxos_message (fst (recvfrom b (Some d))) =
      Some (Some (PAXOS_ACCEPT \<lparr>iid = i + of_nat k, ballot = 0, value_ballot = 0, aid = 0,
        pvalue = nul_value (value_of_bytes v)\<rparr>)))" by simp
  qed
  moreover have "list_all2 (\<lambda>v d. submit buffer (Some v) (int (length v)) = Some [(Coordinator, d)]) vs (map bs vs)"
    using bs(1) by (simp add: list_all2_map2 list.rel_refl_strong)
  ultimately show ?thesis using run by blast
qed

section \<open>The coordinator\<close>

lemma coordinator_send_carries:
  assumes "sendable m"
  obtains bs where "coordinator_send m = Some (Acceptors, bs)" "carries bs m"
proof -
  obtain buffer' bs where "net_pack (replicate BUFSIZE 0) m = Some (buffer', bs)" "carries bs m"
    using assms by (blast intro: net_pack_carries [of "replicate BUFSIZE 0" m, OF length_replicate])
  then show thesis using that by (simp add: coordinator_send_def)
qed

lemma matches_one:
  assumes "matches ds out" "carries bs (PAXOS_ACCEPT r)"
  shows "matches (ds @ [(Acceptors, bs)]) (out @ [(ToAcceptors, PAXOS_ACCEPT r)])"
  using assms by (intro matches_append) (simp_all add: matches_def)

lemma matches_prepare:
  assumes "matches ds out" "carries bs (PAXOS_PREPARE r)"
  shows "matches (ds @ [(Acceptors, bs)]) (out @ [(ToAcceptors, PAXOS_PREPARE r)])"
  using assms by (intro matches_append) (simp_all add: matches_def)

lemma preexecute_loop_sends:
  "proposer_preexecute_loop n now p out = Some (p', out') \<Longrightarrow> \<exists>ms. out' = out @ ms"
proof (induction n arbitrary: now p out)
  case (Suc n)
  then obtain p1 pr where
    "proposer_preexecute_loop n (\<lambda>i. now (Suc i)) p1 (out @ [(ToAcceptors, PAXOS_PREPARE pr)]) = Some (p', out')"
    by (auto simp: bind_eq_Some_conv)
  from Suc.IH [OF this] show ?case by auto
qed simp

lemma coordinator_preexecute_loop_ev:
  assumes "proposer_preexecute_loop n now p out = Some (p', out')" "all_sendable out'" "matches ds out"
  shows "\<exists>ds'. coordinator_preexecute_loop n now p ds = Some (p', ds') \<and> matches ds' out'"
  using assms
proof (induction n arbitrary: now p out ds)
  case (Suc n)
  then obtain p1 pr where p1: "proposer_prepare p (now 0) = Some (p1, pr)"
    "proposer_preexecute_loop n (\<lambda>i. now (Suc i)) p1 (out @ [(ToAcceptors, PAXOS_PREPARE pr)]) = Some (p', out')"
    by (auto simp: bind_eq_Some_conv)
  then have "sendable (PAXOS_PREPARE pr)"
    using preexecute_loop_sends [OF p1(2)] Suc.prems(2) by (auto simp: all_sendable_def)
  then obtain bs where bs: "coordinator_send (PAXOS_PREPARE pr) = Some (Acceptors, bs)" "carries bs (PAXOS_PREPARE pr)"
    by (rule coordinator_send_carries)
  from Suc.IH [OF p1(2) Suc.prems(2) matches_prepare [OF Suc.prems(3) bs(2)]] show ?case
    using p1(1) bs(1) by simp
qed simp

lemma coordinator_accept_loop_ev:
  assumes "try_accept_loop p out = Some x" "all_sendable (snd x)" "matches ds out"
  shows "\<exists>ds'. coordinator_accept_loop p ds = Some (fst x, ds') \<and> matches ds' (snd x)"
proof -
  let ?P = "\<lambda>p out x. all_sendable (snd x) \<longrightarrow> (\<exists>ms. snd x = out @ ms) \<and> (\<forall>ds. matches ds out \<longrightarrow>
    (\<exists>ds'. coordinator_accept_loop p ds = Some (fst x, ds') \<and> matches ds' (snd x)))"
  have "?P p out x"
  proof (rule try_accept_loop.raw_induct [where P = ?P, OF _ assms(1)])
    fix loop :: "proposer \<Rightarrow> sends \<Rightarrow> (proposer \<times> sends) option" and p out x
    assume IH: "\<And>p out y. loop p out = Some y \<Longrightarrow> ?P p out y"
      and eq: "proposer_accept p \<bind> (\<lambda>(p, acc). case acc of None \<Rightarrow> Some (p, out)
        | Some a \<Rightarrow> loop p (out @ [(ToAcceptors, PAXOS_ACCEPT a)])) = Some x"
    obtain p1 acc where p1: "proposer_accept p = Some (p1, acc)"
      "(case acc of None \<Rightarrow> Some (p1, out) | Some a \<Rightarrow> loop p1 (out @ [(ToAcceptors, PAXOS_ACCEPT a)])) = Some x"
      using eq by (auto simp: bind_eq_Some_conv)
    show "?P p out x"
    proof (cases acc)
      case None
      then show ?thesis using p1 by (auto simp: coordinator_accept_loop.simps [of p])
    next
      case (Some a)
      note run = IH [of p1 "out @ [(ToAcceptors, PAXOS_ACCEPT a)]" x]
      show ?thesis
      proof (intro impI conjI allI)
        assume ok: "all_sendable (snd x)"
        from run p1(2) Some ok show "\<exists>ms. snd x = out @ ms" by auto
        then have "sendable (PAXOS_ACCEPT a)" using run p1(2) Some ok by (auto simp: all_sendable_def)
        then obtain bs where bs: "coordinator_send (PAXOS_ACCEPT a) = Some (Acceptors, bs)" "carries bs (PAXOS_ACCEPT a)"
          by (rule coordinator_send_carries)
        fix ds
        assume "matches ds out"
        from matches_one [OF this bs(2)] run p1(2) Some ok obtain ds' where
          "coordinator_accept_loop p1 (ds @ [(Acceptors, bs)]) = Some (fst x, ds')" "matches ds' (snd x)"
          by auto
        then show "\<exists>ds'. coordinator_accept_loop p ds = Some (fst x, ds') \<and> matches ds' (snd x)"
          using p1(1) Some bs(1) by (simp add: coordinator_accept_loop.simps [of p])
      qed
    qed
  qed
  then show ?thesis using assms(2,3) by blast
qed

lemma coordinator_preexecute_ev:
  assumes "proposer_preexecute now ep = Some (ep', out)" "all_sendable out"
    "ep_preexec_window ep = proposer_preexec_window cfg"
  shows "\<exists>ds. coordinator_preexecute cfg now (ep_state ep) = Some (ep_state ep', ds) \<and> matches ds out"
proof (cases "proposer_preexec_window cfg - proposer_prepared_count (ep_state ep) \<le> 0")
  case True
  then show ?thesis using assms by (simp add: proposer_preexecute_def coordinator_preexecute_def)
next
  case False
  then obtain st where st: "proposer_preexecute_loop (nat (proposer_preexec_window cfg - proposer_prepared_count (ep_state ep)))
      now (ep_state ep) [] = Some (st, out)" "ep' = ep\<lparr>ep_state := st\<rparr>"
    using assms(1,3) by (auto simp: proposer_preexecute_def bind_eq_Some_conv)
  show ?thesis using coordinator_preexecute_loop_ev [OF st(1) assms(2) matches_Nil] False st(2)
    by (simp add: coordinator_preexecute_def)
qed

lemma coordinator_try_accept_ev:
  assumes "try_accept now ep = Some (ep', out)" "all_sendable out" "ep_preexec_window ep = proposer_preexec_window cfg"
  shows "\<exists>ds. coordinator_try_accept cfg now (ep_state ep) = Some (ep_state ep', ds) \<and> matches ds out"
proof -
  obtain st out1 out2 where run: "try_accept_loop (ep_state ep) [] = Some (st, out1)"
    "proposer_preexecute now (ep\<lparr>ep_state := st\<rparr>) = Some (ep', out2)" "out = out1 @ out2"
    using assms(1) by (auto simp: try_accept_def bind_eq_Some_conv)
  obtain ds1 where ds1: "coordinator_accept_loop (ep_state ep) [] = Some (st, ds1)" "matches ds1 out1"
    using coordinator_accept_loop_ev [OF run(1) _ matches_Nil] assms(2) run(3) by auto
  obtain ds2 where ds2: "coordinator_preexecute cfg now st = Some (ep_state ep', ds2)" "matches ds2 out2"
    using coordinator_preexecute_ev [OF run(2), of cfg] assms(2,3) run(3) by auto
  show ?thesis using ds1 ds2 run(3) by (simp add: coordinator_try_accept_def matches_append)
qed

lemma coordinator_handle_proposal_ev:
  assumes "evproposer_handle_client_value now ep \<lparr>client_value = pvalue r\<rparr> = Some (ep', out)" "all_sendable out"
    "ep_preexec_window ep = proposer_preexec_window cfg"
  shows "\<exists>ds. coordinator_handle_proposal cfg now (ep_state ep) r = Some (ep_state ep', ds) \<and> matches ds out"
proof -
  obtain st where st: "proposer_propose (ep_state ep) (paxos_value_val (pvalue r)) (size_of_int (paxos_value_len (pvalue r))) = Some st"
    "try_accept now (ep\<lparr>ep_state := st\<rparr>) = Some (ep', out)"
    using assms(1) by (auto simp: evproposer_handle_client_value_def bind_eq_Some_conv)
  show ?thesis using coordinator_try_accept_ev [OF st(2) assms(2), of cfg] assms(3) st(1)
    by (simp add: coordinator_handle_proposal_def)
qed

lemma coordinator_handle_accepted_ev:
  assumes "evproposer_handle_accepted now ep r = Some (ep', out)" "all_sendable out"
    "ep_preexec_window ep = proposer_preexec_window cfg"
  shows "\<exists>ds. coordinator_handle_accepted cfg now (ep_state ep) r = Some (ep_state ep', ds) \<and> matches ds out"
proof -
  obtain st rv where st: "proposer_receive_accepted (ep_state ep) r = Some (st, rv)"
    "(if rv \<noteq> 0 then try_accept now (ep\<lparr>ep_state := st\<rparr>) else Some (ep\<lparr>ep_state := st\<rparr>, [])) = Some (ep', out)"
    using assms(1) by (auto simp: evproposer_handle_accepted_def bind_eq_Some_conv Let_def)
  show ?thesis
    using coordinator_try_accept_ev [of now "ep\<lparr>ep_state := st\<rparr>" ep' out cfg] assms(2,3) st
    by (cases "rv = 0") (auto simp: coordinator_handle_accepted_def)
qed

lemma coordinator_handle_promise_ev:
  assumes "evproposer_handle_promise now ep r = Some (ep', out)" "all_sendable out"
    "ep_preexec_window ep = proposer_preexec_window cfg"
  shows "\<exists>ds. coordinator_handle_promise cfg now (ep_state ep) r = Some (ep_state ep', ds) \<and> matches ds out"
proof -
  obtain st pr out2 where st: "proposer_receive_promise (ep_state ep) r (now 0) = Some (st, pr)"
    "try_accept (\<lambda>i. now (Suc i)) (ep\<lparr>ep_state := st\<rparr>) = Some (ep', out2)" "out = preempt_sends pr @ out2"
    using assms(1) by (auto simp: evproposer_handle_promise_def bind_eq_Some_conv)
  obtain ds2 where ds2: "coordinator_try_accept cfg (\<lambda>i. now (Suc i)) st = Some (ep_state ep', ds2)" "matches ds2 out2"
    using coordinator_try_accept_ev [OF st(2), of cfg] assms(2,3) st(3) by auto
  show ?thesis
  proof (cases pr)
    case None
    then show ?thesis using st(1,3) ds2 by (simp add: coordinator_handle_promise_def preempt_sends_def)
  next
    case (Some p)
    then have "sendable (PAXOS_PREPARE p)" using assms(2) st(3) by (simp add: all_sendable_def preempt_sends_def)
    then obtain bs where bs: "coordinator_send (PAXOS_PREPARE p) = Some (Acceptors, bs)" "carries bs (PAXOS_PREPARE p)"
      by (rule coordinator_send_carries)
    have "matches ([(Acceptors, bs)] @ ds2) ([(ToAcceptors, PAXOS_PREPARE p)] @ out2)"
      using bs(2) ds2(2) by (intro matches_append) (simp_all add: matches_def)
    then show ?thesis using st(1,3) ds2(1) bs(1) Some by (simp add: coordinator_handle_promise_def preempt_sends_def)
  qed
qed

text \<open>
  A datagram with a promise, a vote or a proposal: the coordinator does what the proposer of evpaxos
  does with the message, with a proposal as a client value. Other messages do nothing; the proposer
  of evpaxos handles two of them, the refusal and the state of an acceptor.
\<close>

fun coordinator_ignores :: "paxos_message \<Rightarrow> bool" where
  "coordinator_ignores (PAXOS_PROMISE _) = False"
| "coordinator_ignores (PAXOS_ACCEPTED _) = False"
| "coordinator_ignores (PAXOS_ACCEPT _) = False"
| "coordinator_ignores _ = True"

lemma coordinator_read_ev:
  assumes "ctx_proposer ctx = Some (ep_state ep)" "carries bs m" "message_fits m" "\<not> is_client_value m"
    and "m = PAXOS_PROMISE r \<and> evproposer_handle_promise now ep (r\<lparr>pvalue := nul_value (pvalue r)\<rparr>) = Some (ep', out) \<or>
      m = PAXOS_ACCEPTED r \<and> evproposer_handle_accepted now ep (r\<lparr>pvalue := nul_value (pvalue r)\<rparr>) = Some (ep', out) \<or>
      m = PAXOS_ACCEPT r \<and> evproposer_handle_client_value now ep \<lparr>client_value = nul_value (pvalue r)\<rparr> = Some (ep', out)"
    and ok: "all_sendable out" "ep_preexec_window ep = proposer_preexec_window cfg"
  shows "\<exists>ctx' ds. coordinator_read cfg now ctx (Some bs) = Some (ctx', ds) \<and>
    ctx_proposer ctx' = Some (ep_state ep') \<and> matches ds out"
proof -
  obtain buffer n where b: "recvfrom (replicate BUFSIZE 0) (Some bs) = (buffer, n)" by (cases "recvfrom (replicate BUFSIZE 0) (Some bs)")
  have unpack: "unpack_paxos_message buffer = Some (Some (received m))"
    using unpack_carries [OF assms(2-4), of "replicate BUFSIZE 0"] b by simp
  let ?r = "r\<lparr>pvalue := nul_value (pvalue r)\<rparr>"
  note read = coordinator_read_def b assms(1)
  from assms(5) show ?thesis
    using coordinator_handle_promise_ev [OF _ ok, of now ?r ep'] coordinator_handle_accepted_ev [OF _ ok, of now ?r ep']
      coordinator_handle_proposal_ev [OF _ ok, of now ?r ep'] unpack
    by (auto simp: read)
qed

lemma coordinator_read_ignores:
  assumes "ctx_proposer ctx = Some p" "carries bs m" "message_fits m" "\<not> is_client_value m" "coordinator_ignores m"
  shows "\<exists>ctx'. coordinator_read cfg now ctx (Some bs) = Some (ctx', []) \<and> ctx_proposer ctx' = Some p"
proof -
  obtain buffer n where b: "recvfrom (replicate BUFSIZE 0) (Some bs) = (buffer, n)" by (cases "recvfrom (replicate BUFSIZE 0) (Some bs)")
  have "unpack_paxos_message buffer = Some (Some (received m))"
    using unpack_carries [OF assms(2-4), of "replicate BUFSIZE 0"] b by simp
  then show ?thesis using assms(1,4,5) by (cases m) (simp_all add: coordinator_read_def b)
qed

section \<open>The replica\<close>

text \<open>
  The replica reads with the handler of \<open>learner.c\<close>, but only \<open>make_learner\<close> points the message headers to
  the buffers. With no buffer \<open>recvmmsg\<close> drops the bytes of every datagram: the handler reads buffers
  that are still all 0, and the replica learns nothing.
\<close>

lemma unpack_zeros: "\<exists>r. unpack_paxos_message (replicate (Suc BUFSIZE) 0) = Some (Some (PAXOS_PREPARE r))"
proof -
  have image: "message_image (PAXOS_PREPARE zero_record) = replicate 16 0"
    by (simp add: record_image_def value_image_def zero_record_def no_value_def value_bytes_def htons_def htonl_def
      numeral_eq_Suc)
  have "message_fits (PAXOS_PREPARE zero_record)" by (simp add: fits_def zero_record_def) (simp add: no_value_def)
  from unpack_message_image [OF _ this, of 16 "replicate (Suc BUFSIZE) 0"] image show ?thesis
    by (simp add: BUFSIZE_def)
qed

lemma replica_reads_nothing:
  assumes "k \<le> n"
  shows "learner_read_cb freed buffer out (replicate n (replicate (Suc BUFSIZE) 0)) (replicate k []) (make_replica cfg b acceptors) =
    Some (replicate n (replicate (Suc BUFSIZE) 0), make_replica cfg b acceptors, [], [])"
proof -
  have one: "learner_read_one freed buffer out l (replicate (Suc BUFSIZE) 0) = Some (l, [], [])" for l
    using unpack_zeros by (auto simp: learner_read_one_def)
  have "learner_read_loop freed buffer out (replicate n (replicate (Suc BUFSIZE) 0)) (replicate k []) l =
      Some (replicate n (replicate (Suc BUFSIZE) 0), l, [], [])" for l
    using assms
  proof (induction k arbitrary: n)
    case (Suc k)
    then obtain m where "n = Suc m" "k \<le> m" by (cases n) auto
    then show ?case using Suc.IH [of m] one by (simp add: recvfrom_def array_write_int_def array_write_def)
  qed simp
  then show ?thesis by (simp add: learner_read_cb_def make_replica_def)
qed

end
