(* ===== verification/Config.thy ===== *)
theory Config
  imports Paxos_Types
begin

text \<open>
  The configuration file (\<open>evpaxos/config.c\<close>), with the functions of the C library that the parser
  uses. A string is the list of its characters up to the terminator; a null pointer is \<^term>\<open>None\<close>
  where the code can have one, and using it is a fault. The numbers of lines and the log messages
  are left out. The function \<open>inet_addr\<close> of the system is a parameter.
\<close>

section \<open>Strings of the C library\<close>

definition isspace :: "char \<Rightarrow> bool" where
  "isspace c \<longleftrightarrow> c \<in> {CHR '' '', CHR 0x09, CHR 0x0A, CHR 0x0B, CHR 0x0C, CHR 0x0D}"

definition isdigit :: "char \<Rightarrow> bool" where
  "isdigit c \<longleftrightarrow> (of_char c :: nat) \<in> {48..57}"

definition tolower :: "char \<Rightarrow> char" where
  "tolower c = (if (of_char c :: nat) \<in> {65..90} then char_of (of_char c + 32 :: nat) else c)"

text \<open>Whether \<open>strcasecmp\<close> returns 0.\<close>

definition strcaseeq :: "string \<Rightarrow> string \<Rightarrow> bool" where
  "strcaseeq s t \<longleftrightarrow> map tolower s = map tolower t"

text \<open>The characters of a buffer before the terminator.\<close>

definition c_string :: "string \<Rightarrow> string" where
  "c_string = takeWhile (\<lambda>c. c \<noteq> CHR 0x00)"

text \<open>
  One line of at most \<open>n - 1\<close> characters, the newline included, and the rest of the file; \<^term>\<open>None\<close>
  at the end of the file.
\<close>

definition fgets :: "nat \<Rightarrow> string \<Rightarrow> (string \<times> string) option" where
  "fgets n inp =
    (if inp = [] then None
     else let line = takeWhile (\<lambda>c. c \<noteq> CHR 0x0A) inp;
              full = (if length line < length inp then line @ [CHR 0x0A] else line);
              k = min (n - 1) (length full)
          in Some (take k inp, drop k inp))"

definition strsep :: "char \<Rightarrow> string \<Rightarrow> string \<times> string option" where
  "strsep sep s = (let tok = takeWhile (\<lambda>c. c \<noteq> sep) s
     in (tok, if length tok < length s then Some (drop (length tok + 1) s) else None))"

text \<open>
  A decimal number with an optional sign, after white space: its value and what follows, or
  \<^term>\<open>None\<close> when there is no digit.
\<close>

definition digits_value :: "string \<Rightarrow> nat" where
  "digits_value ds = fold (\<lambda>c n. 10 * n + (of_char c - 48)) ds 0"

definition scan_number :: "string \<Rightarrow> (int \<times> string) option" where
  "scan_number s =
    (let s = dropWhile isspace s;
         neg = (case s of c # _ \<Rightarrow> c = CHR ''-'' | [] \<Rightarrow> False);
         s = (case s of c # t \<Rightarrow> if c = CHR ''-'' \<or> c = CHR ''+'' then t else s | [] \<Rightarrow> s);
         ds = takeWhile isdigit s
     in if ds = [] then None
        else Some (if neg then - int (digits_value ds) else int (digits_value ds), drop (length ds) s))"

text \<open>\<open>strtol\<close> with its end pointer, for a 64-bit \<open>long\<close>; \<open>strtoull\<close> with the value of \<open>errno\<close>.\<close>

definition strtol :: "string \<Rightarrow> int \<times> string" where
  "strtol s = (case scan_number s of
     None \<Rightarrow> (0, s)
   | Some (n, rest) \<Rightarrow> (max (- (2 ^ 63)) (min (2 ^ 63 - 1) n), rest))"

definition strtoull :: "string \<Rightarrow> nat \<times> string \<times> bool" where
  "strtoull s = (case scan_number s of
     None \<Rightarrow> (0, s, False)
   | Some (n, rest) \<Rightarrow> if \<bar>n\<bar> \<ge> 2 ^ 64 then (2 ^ 64 - 1, rest, True) else (nat (n mod 2 ^ 64), rest, False))"

text \<open>The conversions \<open>%d\<close> and \<open>%s\<close> of \<open>sscanf\<close>; a number out of the range of \<open>int\<close> is undefined.\<close>

definition scan_d :: "string \<Rightarrow> (int \<times> string) option option" where
  "scan_d s = (case scan_number s of
     None \<Rightarrow> Some None
   | Some (n, rest) \<Rightarrow> if - (2 ^ 31) \<le> n \<and> n < 2 ^ 31 then Some (Some (n, rest)) else None)"

definition scan_s :: "string \<Rightarrow> (string \<times> string) option" where
  "scan_s s = (let s = dropWhile isspace s; w = takeWhile (\<lambda>c. \<not> isspace c) s
     in if w = [] then None else Some (w, drop (length w) s))"

section \<open>The parsed configuration\<close>

record address =
  addr :: "string option"
  port :: int

record evpaxos_config =
  proposers_count :: nat
  acceptors_count :: nat
  proposers :: "address list"
  acceptors :: "address list"

definition no_address :: address where
  "no_address = \<lparr>addr = None, port = 0\<rparr>"

definition empty_config :: evpaxos_config where
  "empty_config = \<lparr>proposers_count = 0, acceptors_count = 0,
     proposers = replicate MAX_N_OF_PROPOSERS no_address, acceptors = replicate MAX_N_OF_PROPOSERS no_address\<rparr>"

datatype option_type = option_boolean | option_integer | option_string | option_verbosity | option_backend | option_bytes

text \<open>The field of the global \<open>paxos_config\<close> that the pointer in an option points to.\<close>

datatype option_value = Verbosity | Tcp_nodelay | Learner_catch_up | Proposer_timeout | Proposer_preexec_window
  | Storage_backend | Trash_files | Lmdb_sync | Lmdb_env_path | Lmdb_mapsize | Netpaxos

record config_option =
  opt_name :: string
  opt_value :: option_value
  opt_type :: option_type

definition options :: "config_option list" where
  "options = [
     \<lparr>opt_name = ''verbosity'', opt_value = Verbosity, opt_type = option_verbosity\<rparr>,
     \<lparr>opt_name = ''tcp-nodelay'', opt_value = Tcp_nodelay, opt_type = option_boolean\<rparr>,
     \<lparr>opt_name = ''learner-catch-up'', opt_value = Learner_catch_up, opt_type = option_boolean\<rparr>,
     \<lparr>opt_name = ''proposer-timeout'', opt_value = Proposer_timeout, opt_type = option_integer\<rparr>,
     \<lparr>opt_name = ''proposer-preexec-window'', opt_value = Proposer_preexec_window, opt_type = option_integer\<rparr>,
     \<lparr>opt_name = ''storage-backend'', opt_value = Storage_backend, opt_type = option_backend\<rparr>,
     \<lparr>opt_name = ''acceptor-trash-files'', opt_value = Trash_files, opt_type = option_boolean\<rparr>,
     \<lparr>opt_name = ''lmdb-sync'', opt_value = Lmdb_sync, opt_type = option_boolean\<rparr>,
     \<lparr>opt_name = ''lmdb-env-path'', opt_value = Lmdb_env_path, opt_type = option_string\<rparr>,
     \<lparr>opt_name = ''lmdb-mapsize'', opt_value = Lmdb_mapsize, opt_type = option_bytes\<rparr>,
     \<lparr>opt_name = ''netpaxos'', opt_value = Netpaxos, opt_type = option_boolean\<rparr>]"

text \<open>The stores through the pointer of an option, by the type of the option.\<close>

fun store_int :: "option_value \<Rightarrow> int \<Rightarrow> paxos_config \<Rightarrow> paxos_config" where
  "store_int Tcp_nodelay n cfg = cfg\<lparr>tcp_nodelay := n\<rparr>"
| "store_int Learner_catch_up n cfg = cfg\<lparr>learner_catch_up := n\<rparr>"
| "store_int Proposer_timeout n cfg = cfg\<lparr>proposer_timeout := n\<rparr>"
| "store_int Proposer_preexec_window n cfg = cfg\<lparr>proposer_preexec_window := n\<rparr>"
| "store_int Trash_files n cfg = cfg\<lparr>trash_files := n\<rparr>"
| "store_int Lmdb_sync n cfg = cfg\<lparr>lmdb_sync := n\<rparr>"
| "store_int Netpaxos n cfg = cfg\<lparr>netpaxos := n\<rparr>"
| "store_int _ n cfg = cfg"

section \<open>The parser\<close>

definition strtrim :: "string \<Rightarrow> string" where
  "strtrim string =
    (let s = dropWhile isspace string in if s = [] then s else rev (dropWhile isspace (rev s)))"

text \<open>Each parser returns the stored value, if it stored one, and its return value.\<close>

definition parse_bytes :: "string \<Rightarrow> nat \<times> int" where
  "parse_bytes str =
    (let (bytes, rest, err) = strtoull str
     in if err then (bytes, 0)
        else let rest = dropWhile isspace rest
          in if rest = [] then (bytes, 1)
             else if strcaseeq rest ''kb'' then (bytes * 1024 mod 2 ^ 64, 1)
             else if strcaseeq rest ''mb'' then (bytes * (1024 * 1024) mod 2 ^ 64, 1)
             else if strcaseeq rest ''gb'' then (bytes * (1024 * 1024 * 1024) mod 2 ^ 64, 1)
             else (bytes, 0))"

definition parse_boolean :: "string \<Rightarrow> int option \<times> int" where
  "parse_boolean str =
    (if strcaseeq str ''yes'' then (Some 1, 1) else if strcaseeq str ''no'' then (Some 0, 1) else (None, 0))"

definition parse_integer :: "string \<Rightarrow> int option \<times> int" where
  "parse_integer str =
    (let (n, rest) = strtol str in if rest = str then (None, 0) else (Some (signed_take_bit 31 n), 1))"

definition parse_string :: "string \<Rightarrow> string option \<times> int" where
  "parse_string str =
    (case str of [] \<Rightarrow> (None, 0) | c # _ \<Rightarrow> if c = CHR 0x0A then (None, 0) else (Some str, 1))"

definition parse_verbosity :: "string \<Rightarrow> paxos_log_level option \<times> int" where
  "parse_verbosity str =
    (if strcaseeq str ''quiet'' then (Some PAXOS_LOG_QUIET, 1)
     else if strcaseeq str ''error'' then (Some PAXOS_LOG_ERROR, 1)
     else if strcaseeq str ''info'' then (Some PAXOS_LOG_INFO, 1)
     else if strcaseeq str ''debug'' then (Some PAXOS_LOG_DEBUG, 1)
     else (None, 0))"

definition parse_backend :: "string \<Rightarrow> paxos_storage_backend option \<times> int" where
  "parse_backend str =
    (if strcaseeq str ''memory'' then (Some PAXOS_MEM_STORAGE, 1)
     else if strcaseeq str ''lmdb'' then (Some PAXOS_LMDB_STORAGE, 1)
     else (None, 0))"

definition address_init :: "string \<Rightarrow> int \<Rightarrow> address" where
  "address_init a p = \<lparr>addr = Some a, port = p\<rparr>"

text \<open>\<open>strdup\<close> of a null pointer is a fault.\<close>

definition address_copy :: "address \<Rightarrow> address option" where
  "address_copy src = do {
     a \<leftarrow> addr src;
     Some (address_init a (port src))
   }"

text \<open>The word of an address line goes to a buffer of 128 bytes.\<close>

definition parse_address :: "string option \<Rightarrow> (address option \<times> int) option" where
  "parse_address str = do {
     s \<leftarrow> str;
     x \<leftarrow> scan_d s;
     case x of None \<Rightarrow> Some (None, 0)
     | Some (_, s) \<Rightarrow>
         (case scan_s s of None \<Rightarrow> Some (None, 0)
          | Some (a, s) \<Rightarrow> do {
              c_assert (length a < 128);
              y \<leftarrow> scan_d s;
              case y of None \<Rightarrow> Some (None, 0)
              | Some (p, _) \<Rightarrow> Some (Some (address_init a p), 1)
            })
   }"

definition lookup_option :: "string \<Rightarrow> config_option option" where
  "lookup_option opt = find (\<lambda>x. strcaseeq (opt_name x) opt) options"

definition store_option :: "config_option \<Rightarrow> string \<Rightarrow> paxos_config \<Rightarrow> paxos_config \<times> int" where
  "store_option opt line cfg = (case opt_type opt of
     option_boolean \<Rightarrow> let (v, rv) = parse_boolean line
       in (case v of Some n \<Rightarrow> store_int (opt_value opt) n cfg | None \<Rightarrow> cfg, rv)
   | option_integer \<Rightarrow> let (v, rv) = parse_integer line
       in (case v of Some n \<Rightarrow> store_int (opt_value opt) n cfg | None \<Rightarrow> cfg, rv)
   | option_string \<Rightarrow> let (v, rv) = parse_string line
       in (case v of Some s \<Rightarrow> cfg\<lparr>lmdb_env_path := s\<rparr> | None \<Rightarrow> cfg, rv)
   | option_verbosity \<Rightarrow> let (v, rv) = parse_verbosity line
       in (case v of Some x \<Rightarrow> cfg\<lparr>verbosity := x\<rparr> | None \<Rightarrow> cfg, rv)
   | option_backend \<Rightarrow> let (v, rv) = parse_backend line
       in (case v of Some x \<Rightarrow> cfg\<lparr>storage_backend := x\<rparr> | None \<Rightarrow> cfg, rv)
   | option_bytes \<Rightarrow> let (n, rv) = parse_bytes line in (cfg\<lparr>lmdb_mapsize := n\<rparr>, rv))"

text \<open>An address is stored in its slot when it was parsed; the slot counts in any case.\<close>

definition store_address :: "address list \<Rightarrow> nat \<Rightarrow> address option \<Rightarrow> address list option" where
  "store_address as i a = (case a of Some x \<Rightarrow> array_write as i x | None \<Rightarrow> Some as)"

definition parse_line ::
  "evpaxos_config \<Rightarrow> paxos_config \<Rightarrow> string \<Rightarrow> (evpaxos_config \<times> paxos_config \<times> int) option" where
  "parse_line c cfg line =
    (let (tok, rest) = strsep CHR '' '' (strtrim line) in
     if strcaseeq tok ''a'' \<or> strcaseeq tok ''acceptor'' then
       (if acceptors_count c \<ge> MAX_N_OF_PROPOSERS then Some (c, cfg, 0)
        else do {
          (a, rv) \<leftarrow> parse_address rest;
          as \<leftarrow> store_address (acceptors c) (acceptors_count c) a;
          Some (c\<lparr>acceptors_count := acceptors_count c + 1, acceptors := as\<rparr>, cfg, rv)
        })
     else if strcaseeq tok ''p'' \<or> strcaseeq tok ''proposer'' then
       (if proposers_count c \<ge> MAX_N_OF_PROPOSERS then Some (c, cfg, 0)
        else do {
          (a, rv) \<leftarrow> parse_address rest;
          as \<leftarrow> store_address (proposers c) (proposers_count c) a;
          Some (c\<lparr>proposers_count := proposers_count c + 1, proposers := as\<rparr>, cfg, rv)
        })
     else if strcaseeq tok ''r'' \<or> strcaseeq tok ''replica'' then
       (if proposers_count c \<ge> MAX_N_OF_PROPOSERS \<or> acceptors_count c \<ge> MAX_N_OF_PROPOSERS then Some (c, cfg, 0)
        else do {
          (a, rv) \<leftarrow> parse_address rest;
          ps \<leftarrow> store_address (proposers c) (proposers_count c) a;
          pro \<leftarrow> array_read ps (proposers_count c);
          acc \<leftarrow> address_copy pro;
          as \<leftarrow> array_write (acceptors c) (acceptors_count c) acc;
          Some (c\<lparr>proposers_count := proposers_count c + 1, proposers := ps,
            acceptors_count := acceptors_count c + 1, acceptors := as\<rparr>, cfg, rv)
        })
     else do {
       line \<leftarrow> rest;
       case lookup_option tok of
         None \<Rightarrow> Some (c, cfg, 0)
       | Some opt \<Rightarrow> (let (cfg, rv) = store_option opt (strtrim line) cfg in Some (c, cfg, rv))
     })"

lemma fgets_shorter:
  assumes "fgets n inp = Some (line, rest)" "1 < n"
  shows "length rest < length inp" "line \<noteq> []"
  using assms by (cases inp; auto simp: fgets_def Let_def min_def split: if_splits)+

text \<open>
  The loop over the lines, with a buffer of 512 bytes. The result tells whether every line was
  accepted. Comments and empty lines are skipped.
\<close>

function config_lines ::
  "evpaxos_config \<Rightarrow> paxos_config \<Rightarrow> string \<Rightarrow> (evpaxos_config \<times> paxos_config \<times> bool) option" where
  "config_lines c cfg inp = (case fgets 512 inp of
     None \<Rightarrow> Some (c, cfg, True)
   | Some (line, rest) \<Rightarrow>
       if hd line \<noteq> CHR ''#'' \<and> hd line \<noteq> CHR 0x0A then do {
         (c, cfg, rv) \<leftarrow> parse_line c cfg (c_string line);
         if rv = 0 then Some (c, cfg, False) else config_lines c cfg rest
       }
       else config_lines c cfg rest)"
  by pat_completeness auto
termination
  by (relation "measure (\<lambda>(_, _, inp). length inp)") (auto dest: fgets_shorter)

declare config_lines.simps [simp del]

text \<open>What the file system says about the path.\<close>

record config_file =
  file_opens :: bool
  file_stat :: bool
  file_regular :: bool
  file_text :: string

definition evpaxos_config_read ::
  "config_file \<Rightarrow> paxos_config \<Rightarrow> (evpaxos_config option \<times> paxos_config) option" where
  "evpaxos_config_read f cfg =
    (if \<not> file_opens f \<or> \<not> file_stat f \<or> \<not> file_regular f then Some (None, cfg)
     else do {
       (c, cfg, ok) \<leftarrow> config_lines empty_config cfg (file_text f);
       Some (if ok then Some c else None, cfg)
     })"

section \<open>Access to the addresses\<close>

record sockaddr_in =
  sin_port :: u16
  sin_addr :: "32 word"

definition address_to_sockaddr :: "(string \<Rightarrow> 32 word) \<Rightarrow> address \<Rightarrow> sockaddr_in option" where
  "address_to_sockaddr inet_addr a = do {
     s \<leftarrow> addr a;
     Some \<lparr>sin_port = word_of_int (port a), sin_addr = inet_addr s\<rparr>
   }"

definition evpaxos_proposer_address ::
  "(string \<Rightarrow> 32 word) \<Rightarrow> evpaxos_config \<Rightarrow> int \<Rightarrow> sockaddr_in option" where
  "evpaxos_proposer_address inet_addr config i = do {
     a \<leftarrow> array_read_int (proposers config) i;
     address_to_sockaddr inet_addr a
   }"

definition evpaxos_proposer_listen_port :: "evpaxos_config \<Rightarrow> int \<Rightarrow> int option" where
  "evpaxos_proposer_listen_port config i = map_option port (array_read_int (proposers config) i)"

definition evpaxos_acceptor_count :: "evpaxos_config \<Rightarrow> int" where
  "evpaxos_acceptor_count config = int (acceptors_count config)"

definition evpaxos_acceptor_address ::
  "(string \<Rightarrow> 32 word) \<Rightarrow> evpaxos_config \<Rightarrow> int \<Rightarrow> sockaddr_in option" where
  "evpaxos_acceptor_address inet_addr config i = do {
     a \<leftarrow> array_read_int (acceptors config) i;
     address_to_sockaddr inet_addr a
   }"

definition evpaxos_acceptor_listen_port :: "evpaxos_config \<Rightarrow> int \<Rightarrow> int option" where
  "evpaxos_acceptor_listen_port config i = map_option port (array_read_int (acceptors config) i)"

section \<open>What a configuration guarantees\<close>

text \<open>The counters stay within the arrays, and the slots below the counters have an address.\<close>

definition slots_ok :: "nat \<Rightarrow> address list \<Rightarrow> bool" where
  "slots_ok n as \<longleftrightarrow> length as = MAX_N_OF_PROPOSERS \<and> n \<le> MAX_N_OF_PROPOSERS \<and> (\<forall>i < n. addr (as ! i) \<noteq> None)"

definition config_ok :: "evpaxos_config \<Rightarrow> bool" where
  "config_ok c \<longleftrightarrow> slots_ok (proposers_count c) (proposers c) \<and> slots_ok (acceptors_count c) (acceptors c)"

lemma slots_ok_write:
  assumes "slots_ok n as" "\<not> MAX_N_OF_PROPOSERS \<le> n" "addr a \<noteq> None"
  shows "array_write as n a = Some (as[n := a])" "slots_ok (Suc n) (as[n := a])"
  using assms by (auto simp: slots_ok_def array_write_def nth_list_update less_Suc_eq)

lemma parse_address_stored:
  assumes "parse_address str = Some (a, rv)" "rv \<noteq> 0"
  obtains x where "a = Some x" "addr x \<noteq> None"
  using assms unfolding parse_address_def
  by (auto simp: address_init_def c_assert_def split: Option.bind_splits option.splits prod.splits if_splits)

lemma store_address_ok:
  assumes "parse_address str = Some (a, rv)" "rv \<noteq> 0" "slots_ok n as" "\<not> MAX_N_OF_PROPOSERS \<le> n"
    "store_address as n a = Some as'"
  shows "slots_ok (Suc n) as'" "array_read as' n = a" "a \<noteq> None"
proof -
  obtain x where x: "a = Some x" "addr x \<noteq> None" using assms(1,2) by (rule parse_address_stored)
  note w = slots_ok_write [OF assms(3,4) x(2)]
  have as': "as' = as[n := x]" using assms(5) w(1) x(1) by (simp add: store_address_def)
  show "slots_ok (Suc n) as'" using w(2) as' by simp
  show "array_read as' n = a" "a \<noteq> None"
    using assms(3,4) x(1) as' by (simp_all add: array_read_def slots_ok_def)
qed

lemma parse_line_ok:
  assumes "config_ok c" "parse_line c cfg line = Some (c', cfg', rv)" "rv \<noteq> 0"
  shows "config_ok c'"
proof -
  obtain tok rest where tok: "strsep CHR '' '' (strtrim line) = (tok, rest)" by (cases "strsep CHR '' '' (strtrim line)")
  have slots: "slots_ok (proposers_count c) (proposers c)" "slots_ok (acceptors_count c) (acceptors c)"
    using assms(1) by (simp_all add: config_ok_def)
  note line = assms(2) [unfolded parse_line_def tok Let_def prod.case]
  consider (acceptor) "strcaseeq tok ''a'' \<or> strcaseeq tok ''acceptor''"
    | (proposer) "\<not> (strcaseeq tok ''a'' \<or> strcaseeq tok ''acceptor'')" "strcaseeq tok ''p'' \<or> strcaseeq tok ''proposer''"
    | (replica) "\<not> (strcaseeq tok ''a'' \<or> strcaseeq tok ''acceptor'')"
        "\<not> (strcaseeq tok ''p'' \<or> strcaseeq tok ''proposer'')" "strcaseeq tok ''r'' \<or> strcaseeq tok ''replica''"
    | (opt) "\<not> (strcaseeq tok ''a'' \<or> strcaseeq tok ''acceptor'')"
        "\<not> (strcaseeq tok ''p'' \<or> strcaseeq tok ''proposer'')" "\<not> (strcaseeq tok ''r'' \<or> strcaseeq tok ''replica'')"
    by blast
  then show ?thesis
  proof cases
    case acceptor
    then obtain a as where a: "parse_address rest = Some (a, rv)" "store_address (acceptors c) (acceptors_count c) a = Some as"
      "\<not> MAX_N_OF_PROPOSERS \<le> acceptors_count c" "c' = c\<lparr>acceptors_count := acceptors_count c + 1, acceptors := as\<rparr>"
      using line assms(3) by (auto simp: bind_eq_Some_conv split: if_splits)
    show ?thesis using store_address_ok(1) [OF a(1) assms(3) slots(2) a(3,2)] slots(1) by (simp add: a(4) config_ok_def)
  next
    case proposer
    then obtain a as where a: "parse_address rest = Some (a, rv)" "store_address (proposers c) (proposers_count c) a = Some as"
      "\<not> MAX_N_OF_PROPOSERS \<le> proposers_count c" "c' = c\<lparr>proposers_count := proposers_count c + 1, proposers := as\<rparr>"
      using line assms(3) by (auto simp: bind_eq_Some_conv split: if_splits)
    show ?thesis using store_address_ok(1) [OF a(1) assms(3) slots(1) a(3,2)] slots(2) by (simp add: a(4) config_ok_def)
  next
    case replica
    then obtain a as pro acc ps where a: "parse_address rest = Some (a, rv)"
      "store_address (proposers c) (proposers_count c) a = Some ps"
      "array_read ps (proposers_count c) = Some pro" "address_copy pro = Some acc"
      "array_write (acceptors c) (acceptors_count c) acc = Some as"
      "\<not> MAX_N_OF_PROPOSERS \<le> proposers_count c" "\<not> MAX_N_OF_PROPOSERS \<le> acceptors_count c"
      "c' = c\<lparr>proposers_count := proposers_count c + 1, proposers := ps,
        acceptors_count := acceptors_count c + 1, acceptors := as\<rparr>"
      using line assms(3) by (auto simp: bind_eq_Some_conv split: if_splits)
    have "addr acc \<noteq> None" using a(4) by (auto simp: address_copy_def address_init_def bind_eq_Some_conv)
    then have "slots_ok (Suc (acceptors_count c)) as" using slots_ok_write [OF slots(2) a(7)] a(5) by auto
    then show ?thesis using store_address_ok(1) [OF a(1) assms(3) slots(1) a(6,2)] by (simp add: a(8) config_ok_def)
  next
    case opt
    then have "c' = c" using line assms(3) by (auto simp: bind_eq_Some_conv split: if_splits option.splits prod.splits)
    then show ?thesis using assms(1) by simp
  qed
qed

lemma config_lines_ok:
  assumes "config_ok c" "config_lines c cfg inp = Some (c', cfg', True)"
  shows "config_ok c'"
  using assms
proof (induction c cfg inp rule: config_lines.induct)
  case (1 c cfg inp)
  show ?case
  proof (cases "fgets 512 inp")
    case None
    then show ?thesis using "1.prems" by (simp add: config_lines.simps [of c cfg inp])
  next
    case (Some lr)
    obtain line rest where lr: "lr = (line, rest)" by (cases lr)
    show ?thesis
    proof (cases "hd line \<noteq> CHR ''#'' \<and> hd line \<noteq> CHR 0x0A")
      case True
      obtain c1 cfg1 rv where p: "parse_line c cfg (c_string line) = Some (c1, cfg1, rv)" "rv \<noteq> 0"
        "config_lines c1 cfg1 rest = Some (c', cfg', True)"
        using "1.prems"(2) True Some lr by (auto simp: config_lines.simps [of c cfg inp] bind_eq_Some_conv split: if_splits)
      show ?thesis
        by (rule "1.IH"(1) [OF Some lr [symmetric] True p(1) refl refl p(2) parse_line_ok [OF "1.prems"(1) p(1,2)] p(3)])
    next
      case False
      have "config_lines c cfg rest = Some (c', cfg', True)"
        using "1.prems"(2) False Some lr by (auto simp: config_lines.simps [of c cfg inp])
      then show ?thesis by (rule "1.IH"(2) [OF Some lr [symmetric] False "1.prems"(1)])
    qed
  qed
qed

lemma empty_config_ok: "config_ok empty_config"
  by (simp add: config_ok_def empty_config_def slots_ok_def)

lemma config_read_ok:
  assumes "evpaxos_config_read f cfg = Some (Some c, cfg')"
  shows "config_ok c"
  using assms config_lines_ok [OF empty_config_ok]
  by (auto simp: evpaxos_config_read_def bind_eq_Some_conv split: if_splits)

section \<open>Printing a configuration\<close>

lemma decimal_digits: "decimal n \<noteq> []" "c \<in> set (decimal n) \<Longrightarrow> isdigit c"
proof (induction n rule: decimal.induct)
  case (1 n)
  { case 1 then show ?case by (subst decimal.simps) simp }
  { case 2
    then show ?case using "1.IH"(2)
      by (subst (asm) decimal.simps) (auto simp: isdigit_def of_char_of split: if_splits) }
qed

lemma digits_value_decimal: "digits_value (decimal n) = n"
proof (induction n rule: decimal.induct)
  case (1 n)
  then show ?case by (subst decimal.simps) (auto simp: digits_value_def of_char_of)
qed

lemma digit_not_space: "isdigit c \<Longrightarrow> \<not> isspace c \<and> c \<noteq> CHR ''-'' \<and> c \<noteq> CHR ''+''"
  by (auto simp: isdigit_def isspace_def)

lemma scan_decimal:
  assumes "\<forall>c t. rest = c # t \<longrightarrow> \<not> isdigit c"
  shows "scan_number (decimal n @ rest) = Some (int n, rest)"
proof -
  obtain d ds where d: "decimal n = d # ds" using decimal_digits(1) by (cases "decimal n") auto
  have dd: "isdigit d" "\<not> isspace d" "d \<noteq> CHR ''-''" "d \<noteq> CHR ''+''"
    using decimal_digits(2) [of d n] digit_not_space [of d] d by auto
  have "takeWhile isdigit (decimal n @ rest) = decimal n"
    using decimal_digits(2) [of _ n] assms by (subst takeWhile_append2) (auto simp: takeWhile_eq_Nil_iff, cases rest, auto)
  then show ?thesis using dd decimal_digits(1) digits_value_decimal [of n]
    by (simp add: scan_number_def d Let_def)
qed

lemma scan_space: "scan_number (CHR '' '' # s) = scan_number s"
  by (simp add: scan_number_def isspace_def)

definition plain_word :: "string \<Rightarrow> bool" where
  "plain_word a \<longleftrightarrow> a \<noteq> [] \<and> length a < 128 \<and> (\<forall>c \<in> set a. \<not> isspace c \<and> c \<noteq> CHR 0x00)"

lemma scan_word:
  assumes "plain_word a" "rest = [] \<or> isspace (hd rest)"
  shows "scan_s (CHR '' '' # a @ rest) = Some (a, rest)"
proof -
  have "takeWhile (\<lambda>c. \<not> isspace c) (a @ rest) = a"
    using assms by (subst takeWhile_append2) (auto simp: plain_word_def takeWhile_eq_Nil_iff)
  moreover have "dropWhile isspace (CHR '' '' # a @ rest) = a @ rest"
    using assms(1) by (cases a) (auto simp: plain_word_def isspace_def)
  ultimately show ?thesis using assms(1) by (simp add: scan_s_def Let_def plain_word_def)
qed

text \<open>The arguments of an address line.\<close>

definition address_text :: "nat \<Rightarrow> string \<Rightarrow> nat \<Rightarrow> string" where
  "address_text i a p = decimal i @ CHR '' '' # a @ CHR '' '' # decimal p"

lemma parse_address_text:
  assumes "plain_word a" "i < 2 ^ 31" "p < 2 ^ 31"
  shows "parse_address (Some (address_text i a p)) = Some (Some \<lparr>addr = Some a, port = int p\<rparr>, 1)"
proof -
  have "scan_number (address_text i a p) = Some (int i, CHR '' '' # a @ CHR '' '' # decimal p)"
    unfolding address_text_def by (rule scan_decimal) (simp add: isdigit_def)
  then have "scan_d (address_text i a p) = Some (Some (int i, CHR '' '' # a @ CHR '' '' # decimal p))"
    using assms(2) by (simp add: scan_d_def)
  moreover have "scan_s (CHR '' '' # a @ CHR '' '' # decimal p) = Some (a, CHR '' '' # decimal p)"
    by (rule scan_word [OF assms(1)]) (simp add: isspace_def)
  moreover have "scan_d (CHR '' '' # decimal p) = Some (Some (int p, []))"
    using scan_decimal [of "[]" p] assms(3) by (simp add: scan_d_def scan_space)
  ultimately show ?thesis using assms(1) by (simp add: parse_address_def address_init_def plain_word_def)
qed

definition address_line :: "string \<Rightarrow> nat \<Rightarrow> string \<Rightarrow> nat \<Rightarrow> string" where
  "address_line kw i a p = kw @ CHR '' '' # address_text i a p @ [CHR 0x0A]"

lemma strtrim_line:
  assumes "t \<noteq> []" "\<not> isspace (hd t)" "\<not> isspace (last t)"
  shows "strtrim (t @ [CHR 0x0A]) = t"
proof -
  have "dropWhile isspace (t @ [CHR 0x0A]) = t @ [CHR 0x0A]" using assms(1,2) by (cases t) auto
  moreover have "dropWhile isspace (rev t) = rev t"
    using assms(1,3) by (cases t rule: rev_cases) auto
  moreover have "isspace (CHR 0x0A)" by (simp add: isspace_def)
  ultimately show ?thesis using assms(1) by (simp add: strtrim_def Let_def)
qed

lemma strsep_word: "CHR '' '' \<notin> set kw \<Longrightarrow> strsep CHR '' '' (kw @ CHR '' '' # t) = (kw, Some t)"
proof -
  assume "CHR '' '' \<notin> set kw"
  then have "takeWhile (\<lambda>c. c \<noteq> CHR '' '') (kw @ CHR '' '' # t) = kw" by (subst takeWhile_append2) auto
  then show ?thesis by (simp add: strsep_def)
qed

lemma address_line_words:
  assumes "kw \<noteq> []" "\<forall>c \<in> set kw. \<not> isspace c"
  shows "strsep CHR '' '' (strtrim (address_line kw i a p)) = (kw, Some (address_text i a p))"
proof -
  have "isdigit (last (decimal p))" using decimal_digits(2) [of _ p] decimal_digits(1) [of p] by simp
  then have "\<not> isspace (last (kw @ CHR '' '' # address_text i a p))"
    using decimal_digits(1) [of p] digit_not_space by (simp add: address_text_def)
  moreover have "\<not> isspace (hd (kw @ CHR '' '' # address_text i a p))" using assms by (cases kw) simp_all
  ultimately have "strtrim ((kw @ CHR '' '' # address_text i a p) @ [CHR 0x0A]) = kw @ CHR '' '' # address_text i a p"
    by (intro strtrim_line) simp_all
  moreover have "CHR '' '' \<notin> set kw" using assms(2) by (auto simp: isspace_def)
  ultimately show ?thesis by (simp add: address_line_def strsep_word)
qed

lemma keyword_facts:
  "strcaseeq ''acceptor'' ''acceptor''" "strcaseeq ''proposer'' ''proposer''" "\<not> strcaseeq ''proposer'' ''a''"
  "\<not> strcaseeq ''proposer'' ''acceptor''"
  by (simp_all add: strcaseeq_def tolower_def)

lemma parse_acceptor_line:
  assumes "plain_word a" "i < 2 ^ 31" "p < 2 ^ 31" "acceptors_count c < MAX_N_OF_PROPOSERS"
    "length (acceptors c) = MAX_N_OF_PROPOSERS"
  shows "parse_line c cfg (address_line ''acceptor'' i a p) = Some (c\<lparr>acceptors_count := acceptors_count c + 1,
    acceptors := (acceptors c)[acceptors_count c := \<lparr>addr = Some a, port = int p\<rparr>]\<rparr>, cfg, 1)"
proof -
  have "strsep CHR '' '' (strtrim (address_line ''acceptor'' i a p)) = (''acceptor'', Some (address_text i a p))"
    by (rule address_line_words) (simp_all add: isspace_def)
  then show ?thesis using assms(4,5) parse_address_text [OF assms(1-3)]
    by (simp add: parse_line_def keyword_facts store_address_def array_write_def)
qed

lemma parse_proposer_line:
  assumes "plain_word a" "i < 2 ^ 31" "p < 2 ^ 31" "proposers_count c < MAX_N_OF_PROPOSERS"
    "length (proposers c) = MAX_N_OF_PROPOSERS"
  shows "parse_line c cfg (address_line ''proposer'' i a p) = Some (c\<lparr>proposers_count := proposers_count c + 1,
    proposers := (proposers c)[proposers_count c := \<lparr>addr = Some a, port = int p\<rparr>]\<rparr>, cfg, 1)"
proof -
  have "strsep CHR '' '' (strtrim (address_line ''proposer'' i a p)) = (''proposer'', Some (address_text i a p))"
    by (rule address_line_words) (simp_all add: isspace_def)
  then show ?thesis using assms(4,5) parse_address_text [OF assms(1-3)]
    by (simp add: parse_line_def keyword_facts store_address_def array_write_def)
qed

lemma decimal_length: "n < 10 ^ k \<Longrightarrow> 0 < k \<Longrightarrow> length (decimal n) \<le> k"
proof (induction k arbitrary: n)
  case (Suc k)
  show ?case
  proof (cases "n < 10")
    case True
    then show ?thesis by (subst decimal.simps) simp
  next
    case False
    then have "0 < k" using Suc.prems(1) by (cases k) simp_all
    moreover have "n div 10 < 10 ^ k" using Suc.prems(1) by (simp add: less_mult_imp_div_less)
    ultimately have "length (decimal (n div 10)) \<le> k" using Suc.IH by blast
    then show ?thesis using False by (subst decimal.simps) simp
  qed
qed simp

lemma digit_char: "isdigit c \<Longrightarrow> c \<noteq> CHR 0x0A \<and> c \<noteq> CHR 0x00"
  by (auto simp: isdigit_def)

lemma word_char: "plain_word a \<Longrightarrow> c \<in> set a \<Longrightarrow> c \<noteq> CHR 0x0A \<and> c \<noteq> CHR 0x00"
  by (auto simp: plain_word_def isspace_def)

lemma address_text_char:
  assumes "plain_word a" "c \<in> set (address_text i a p)"
  shows "c \<noteq> CHR 0x0A \<and> c \<noteq> CHR 0x00"
proof -
  consider "c = CHR '' ''" | "c \<in> set (decimal i)" | "c \<in> set a" | "c \<in> set (decimal p)"
    using assms(2) by (auto simp: address_text_def)
  then show ?thesis
  proof cases
    case 1
    then show ?thesis by simp
  next
    case 2
    then show ?thesis by (intro digit_char decimal_digits(2))
  next
    case 3
    then show ?thesis using assms(1) by (intro word_char)
  next
    case 4
    then show ?thesis by (intro digit_char decimal_digits(2))
  qed
qed

lemma address_text_length: "plain_word a \<Longrightarrow> i < 2 ^ 31 \<Longrightarrow> p < 2 ^ 31 \<Longrightarrow> length (address_text i a p) \<le> 150"
  using decimal_length [of i 10] decimal_length [of p 10] by (simp add: address_text_def plain_word_def)

definition keyword :: "string \<Rightarrow> bool" where
  "keyword kw \<longleftrightarrow> kw \<noteq> [] \<and> length kw \<le> 10 \<and> hd kw \<noteq> CHR ''#'' \<and> (\<forall>c \<in> set kw. c \<noteq> CHR 0x0A \<and> c \<noteq> CHR 0x00)"

text \<open>A printed line is read by one call of \<open>fgets\<close> and is not a comment.\<close>

lemma address_line_read:
  assumes "plain_word a" "i < 2 ^ 31" "p < 2 ^ 31" "keyword kw"
  shows "fgets 512 (address_line kw i a p @ rest) = Some (address_line kw i a p, rest)"
    and "c_string (address_line kw i a p) = address_line kw i a p"
    and "hd (address_line kw i a p) \<noteq> CHR ''#'' \<and> hd (address_line kw i a p) \<noteq> CHR 0x0A"
proof -
  let ?t = "kw @ CHR '' '' # address_text i a p"
  have chars: "c \<noteq> CHR 0x0A \<and> c \<noteq> CHR 0x00" if "c \<in> set ?t" for c
    using that assms(4) address_text_char [OF assms(1), of c i p] by (auto simp: keyword_def)
  have len: "length ?t \<le> 200" using assms(4) address_text_length [OF assms(1-3)] by (simp add: keyword_def)
  have line: "address_line kw i a p = ?t @ [CHR 0x0A]" by (simp add: address_line_def)
  have "takeWhile (\<lambda>c. c \<noteq> CHR 0x0A) (?t @ CHR 0x0A # rest) = ?t"
    using chars by (subst takeWhile_append2) (blast, simp)
  then show "fgets 512 (address_line kw i a p @ rest) = Some (address_line kw i a p, rest)"
    using len unfolding fgets_def line Let_def by simp
  have "\<forall>c \<in> set (?t @ [CHR 0x0A]). c \<noteq> CHR 0x00" using chars by auto
  then show "c_string (address_line kw i a p) = address_line kw i a p"
    unfolding c_string_def line by (simp only: takeWhile_eq_all_conv)
  show "hd (address_line kw i a p) \<noteq> CHR ''#'' \<and> hd (address_line kw i a p) \<noteq> CHR 0x0A"
    using assms(4) by (cases kw) (simp_all add: address_line_def keyword_def)
qed

fun print_addresses :: "string \<Rightarrow> nat \<Rightarrow> (string \<times> nat) list \<Rightarrow> string" where
  "print_addresses kw i [] = []"
| "print_addresses kw i ((a, p) # as) = address_line kw i a p @ print_addresses kw (Suc i) as"

definition address_of :: "string \<times> nat \<Rightarrow> address" where
  "address_of ap = \<lparr>addr = Some (fst ap), port = int (snd ap)\<rparr>"

definition printable :: "(string \<times> nat) list \<Rightarrow> bool" where
  "printable as \<longleftrightarrow> length as \<le> MAX_N_OF_PROPOSERS \<and> list_all (\<lambda>(a, p). plain_word a \<and> p < 2 ^ 31) as"

definition put_addresses :: "nat \<Rightarrow> (string \<times> nat) list \<Rightarrow> address list \<Rightarrow> address list" where
  "put_addresses n as xs = take n xs @ map address_of as @ drop (n + length as) xs"

lemma put_addresses_Nil [simp]: "put_addresses n [] xs = xs"
  by (simp add: put_addresses_def)

lemma put_addresses_Cons:
  "n < length xs \<Longrightarrow> put_addresses (Suc n) as (xs[n := address_of ap]) = put_addresses n (ap # as) xs"
  by (simp add: put_addresses_def take_Suc_conv_app_nth)

lemma config_lines_line:
  assumes "plain_word a" "i < 2 ^ 31" "p < 2 ^ 31" "keyword kw"
    "parse_line c cfg (address_line kw i a p) = Some (c', cfg, 1)"
  shows "config_lines c cfg (address_line kw i a p @ rest) = config_lines c' cfg rest"
  using address_line_read [OF assms(1-4)] assms(5) by (subst config_lines.simps) simp

lemma address_keywords: "keyword ''acceptor''" "keyword ''proposer''"
  by (simp_all add: keyword_def)

lemma config_lines_acceptors:
  assumes "list_all (\<lambda>(a, p). plain_word a \<and> p < 2 ^ 31) as" "i + length as \<le> 10"
    "acceptors_count c + length as \<le> MAX_N_OF_PROPOSERS" "length (acceptors c) = MAX_N_OF_PROPOSERS"
  shows "config_lines c cfg (print_addresses ''acceptor'' i as @ rest) =
    config_lines (c\<lparr>acceptors_count := acceptors_count c + length as,
      acceptors := put_addresses (acceptors_count c) as (acceptors c)\<rparr>) cfg rest"
  using assms
proof (induction as arbitrary: c i)
  case (Cons ap as)
  obtain a p where ap: "ap = (a, p)" by (cases ap)
  have ok: "plain_word a" "i < 2 ^ 31" "p < 2 ^ 31" using Cons.prems ap by simp_all
  let ?c = "c\<lparr>acceptors_count := acceptors_count c + 1, acceptors := (acceptors c)[acceptors_count c := address_of ap]\<rparr>"
  have "parse_line c cfg (address_line ''acceptor'' i a p) = Some (?c, cfg, 1)"
    using parse_acceptor_line [OF ok, of c cfg] Cons.prems by (simp add: ap address_of_def)
  from config_lines_line [OF ok address_keywords(1) this]
  have "config_lines c cfg (print_addresses ''acceptor'' i (ap # as) @ rest) =
      config_lines ?c cfg (print_addresses ''acceptor'' (Suc i) as @ rest)"
    by (simp add: ap)
  also have "\<dots> = config_lines (?c\<lparr>acceptors_count := acceptors_count ?c + length as,
      acceptors := put_addresses (acceptors_count ?c) as (acceptors ?c)\<rparr>) cfg rest"
    by (rule Cons.IH) (use Cons.prems in simp_all)
  finally show ?case using Cons.prems by (simp add: put_addresses_Cons)
qed simp

lemma config_lines_proposers:
  assumes "list_all (\<lambda>(a, p). plain_word a \<and> p < 2 ^ 31) as" "i + length as \<le> 10"
    "proposers_count c + length as \<le> MAX_N_OF_PROPOSERS" "length (proposers c) = MAX_N_OF_PROPOSERS"
  shows "config_lines c cfg (print_addresses ''proposer'' i as @ rest) =
    config_lines (c\<lparr>proposers_count := proposers_count c + length as,
      proposers := put_addresses (proposers_count c) as (proposers c)\<rparr>) cfg rest"
  using assms
proof (induction as arbitrary: c i)
  case (Cons ap as)
  obtain a p where ap: "ap = (a, p)" by (cases ap)
  have ok: "plain_word a" "i < 2 ^ 31" "p < 2 ^ 31" using Cons.prems ap by simp_all
  let ?c = "c\<lparr>proposers_count := proposers_count c + 1, proposers := (proposers c)[proposers_count c := address_of ap]\<rparr>"
  have "parse_line c cfg (address_line ''proposer'' i a p) = Some (?c, cfg, 1)"
    using parse_proposer_line [OF ok, of c cfg] Cons.prems by (simp add: ap address_of_def)
  from config_lines_line [OF ok address_keywords(2) this]
  have "config_lines c cfg (print_addresses ''proposer'' i (ap # as) @ rest) =
      config_lines ?c cfg (print_addresses ''proposer'' (Suc i) as @ rest)"
    by (simp add: ap)
  also have "\<dots> = config_lines (?c\<lparr>proposers_count := proposers_count ?c + length as,
      proposers := put_addresses (proposers_count ?c) as (proposers ?c)\<rparr>) cfg rest"
    by (rule Cons.IH) (use Cons.prems in simp_all)
  finally show ?case using Cons.prems by (simp add: put_addresses_Cons)
qed simp

text \<open>A configuration file with the proposers and the acceptors, and what reading it gives.\<close>

definition print_config :: "(string \<times> nat) list \<Rightarrow> (string \<times> nat) list \<Rightarrow> string" where
  "print_config ps as = print_addresses ''proposer'' 0 ps @ print_addresses ''acceptor'' 0 as"

definition config_of :: "(string \<times> nat) list \<Rightarrow> (string \<times> nat) list \<Rightarrow> evpaxos_config" where
  "config_of ps as = \<lparr>proposers_count = length ps, acceptors_count = length as,
     proposers = map address_of ps @ replicate (MAX_N_OF_PROPOSERS - length ps) no_address,
     acceptors = map address_of as @ replicate (MAX_N_OF_PROPOSERS - length as) no_address\<rparr>"

lemma config_round_trip:
  assumes "printable ps" "printable as"
  shows "config_lines empty_config cfg (print_config ps as) = Some (config_of ps as, cfg, True)"
proof -
  let ?c = "empty_config\<lparr>proposers_count := length ps, proposers := put_addresses 0 ps (proposers empty_config)\<rparr>"
  have "config_lines empty_config cfg (print_config ps as) = config_lines ?c cfg (print_addresses ''acceptor'' 0 as @ [])"
    using config_lines_proposers [of ps 0 empty_config cfg "print_addresses ''acceptor'' 0 as"] assms(1)
    by (simp add: print_config_def printable_def empty_config_def MAX_N_OF_PROPOSERS_def)
  also have "\<dots> = config_lines (?c\<lparr>acceptors_count := length as,
      acceptors := put_addresses 0 as (acceptors empty_config)\<rparr>) cfg []"
    using config_lines_acceptors [of as 0 ?c cfg "[]"] assms(2)
    by (simp add: printable_def empty_config_def MAX_N_OF_PROPOSERS_def)
  finally show ?thesis
    by (subst (asm) config_lines.simps [of _ _ "[]"])
      (simp add: fgets_def config_of_def empty_config_def put_addresses_def)
qed

text \<open>A regular file with a text.\<close>

definition text_file :: "string \<Rightarrow> config_file" where
  "text_file txt = \<lparr>file_opens = True, file_stat = True, file_regular = True, file_text = txt\<rparr>"

lemma config_read_printed:
  assumes "printable ps" "printable as"
  shows "evpaxos_config_read (text_file (print_config ps as)) cfg = Some (Some (config_of ps as), cfg)"
  using config_round_trip [OF assms, of cfg] by (simp add: evpaxos_config_read_def text_file_def)

lemma printable_local: "p < 2 ^ 31 \<Longrightarrow> printable [(''127.0.0.1'', p)]"
  by (simp add: printable_def plain_word_def isspace_def MAX_N_OF_PROPOSERS_def)

text \<open>
  Lines that end the program: a keyword or an option without its arguments, a line of blanks, and
  a replica with a malformed address.
\<close>

lemma parse_line_no_value:
  assumes "strsep CHR '' '' (strtrim line) = (tok, None)"
    "acceptors_count c < MAX_N_OF_PROPOSERS" "proposers_count c < MAX_N_OF_PROPOSERS"
  shows "parse_line c cfg line = None"
  using assms by (simp add: parse_line_def parse_address_def)

lemma parse_line_bad_replica:
  assumes "strsep CHR '' '' (strtrim line) = (''replica'', rest)" "parse_address rest = Some (None, rv)"
    "acceptors_count c < MAX_N_OF_PROPOSERS" "proposers_count c < MAX_N_OF_PROPOSERS"
    "addr (proposers c ! proposers_count c) = None"
  shows "parse_line c cfg line = None"
  using assms by (simp add: parse_line_def store_address_def array_read_def address_copy_def strcaseeq_def tolower_def)

end
