(* ===== verification/Peers.thy ===== *)
theory Peers
  imports Ev_Message Config
begin

text \<open>
  The connections of a process (\<open>evpaxos/peers.c\<close>). The structs \<open>peer\<close> live in a store, from pointers
  to records, because two arrays point to them and the event callbacks keep a pointer; \<open>malloc\<close> gives
  the next unused pointer. The calls to libevent are recorded in a list. What the callbacks of the
  subscriptions do is a parameter: functions on a state of any type.
\<close>

unbundle bit_operations_syntax

type_synonym ptr = nat

definition BEV_EVENT_EOF :: u16 where "BEV_EVENT_EOF = 0x10"
definition BEV_EVENT_ERROR :: u16 where "BEV_EVENT_ERROR = 0x20"
definition BEV_EVENT_CONNECTED :: u16 where "BEV_EVENT_CONNECTED = 0x80"

text \<open>The fields of a peer; \<open>reconnect_ev\<close> tells whether the peer has a timer.\<close>

record peer =
  peer_id :: int
  peer_status :: u16
  peer_bev :: bufferevent
  reconnect_ev :: bool
  peer_addr :: sockaddr_in

record 's subscription =
  sub_type :: u16
  sub_callback :: "ptr \<Rightarrow> paxos_message \<Rightarrow> 's \<Rightarrow> 's option"

datatype ev_call =
    Socket_new ptr | Socket_free ptr | Connect ptr sockaddr_in | Set_fd ptr int | Timer_new ptr | Timer_free ptr
  | Timer_add ptr | Listen int | Listener_free | Loop_exit

record 's peers =
  ps_store :: "ptr \<Rightarrow> peer option"
  ps_next :: ptr
  ps_peers :: "ptr list"
  ps_clients :: "ptr list"
  ps_listener :: bool
  ps_config :: evpaxos_config
  ps_subs :: "'s subscription list"
  ps_calls :: "ev_call list"

section \<open>Peers\<close>

definition peers_new :: "evpaxos_config \<Rightarrow> 's peers" where
  "peers_new config = \<lparr>ps_store = Map.empty, ps_next = 0, ps_peers = [], ps_clients = [], ps_listener = False,
     ps_config = config, ps_subs = [], ps_calls = []\<rparr>"

definition ev_log :: "ev_call list \<Rightarrow> 's peers \<Rightarrow> 's peers" where
  "ev_log cs ps = ps\<lparr>ps_calls := ps_calls ps @ cs\<rparr>"

definition make_peer :: "'s peers \<Rightarrow> int \<Rightarrow> sockaddr_in \<Rightarrow> 's peers \<times> ptr" where
  "make_peer ps i a =
    (let p = ps_next ps in
     (ev_log [Socket_new p] (ps\<lparr>ps_next := Suc p, ps_store := (ps_store ps)(p \<mapsto>
        \<lparr>peer_id = i, peer_status = BEV_EVENT_EOF, peer_bev = [], reconnect_ev = False, peer_addr = a\<rparr>)\<rparr>), p))"

definition connect_peer :: "'s peers \<Rightarrow> ptr \<Rightarrow> 's peers option" where
  "connect_peer ps p = do {
     peer \<leftarrow> ps_store ps p;
     Some (ev_log [Connect p (peer_addr peer)] ps)
   }"

definition peers_connect :: "'s peers \<Rightarrow> int \<Rightarrow> sockaddr_in \<Rightarrow> 's peers option" where
  "peers_connect ps i a = do {
     let (ps, p) = make_peer ps i a;
     peer \<leftarrow> ps_store ps p;
     let ps = ev_log [Timer_new p] (ps\<lparr>ps_store := (ps_store ps)(p \<mapsto> peer\<lparr>reconnect_ev := True\<rparr>)\<rparr>);
     ps \<leftarrow> connect_peer ps p;
     Some (ps\<lparr>ps_peers := ps_peers ps @ [p]\<rparr>)
   }"

fun connect_loop :: "(string \<Rightarrow> 32 word) \<Rightarrow> nat \<Rightarrow> int \<Rightarrow> 's peers \<Rightarrow> 's peers option" where
  "connect_loop inet_addr 0 i ps = Some ps"
| "connect_loop inet_addr (Suc n) i ps = do {
     a \<leftarrow> evpaxos_acceptor_address inet_addr (ps_config ps) i;
     ps \<leftarrow> peers_connect ps i a;
     connect_loop inet_addr n (i + 1) ps
   }"

definition peers_connect_to_acceptors :: "(string \<Rightarrow> 32 word) \<Rightarrow> 's peers \<Rightarrow> 's peers option" where
  "peers_connect_to_acceptors inet_addr ps =
    connect_loop inet_addr (nat (evpaxos_acceptor_count (ps_config ps))) 0 ps"

definition peers_count :: "'s peers \<Rightarrow> int" where
  "peers_count ps = int (length (ps_peers ps))"

fun peers_foreach :: "(ptr \<Rightarrow> 'a \<Rightarrow> 'a option) \<Rightarrow> ptr list \<Rightarrow> 'a \<Rightarrow> 'a option" where
  "peers_foreach cb [] s = Some s"
| "peers_foreach cb (p # ps) s = do { s \<leftarrow> cb p s; peers_foreach cb ps s }"

definition peers_foreach_acceptor :: "'s peers \<Rightarrow> (ptr \<Rightarrow> 'a \<Rightarrow> 'a option) \<Rightarrow> 'a \<Rightarrow> 'a option" where
  "peers_foreach_acceptor ps cb s = peers_foreach cb (ps_peers ps) s"

definition peers_foreach_client :: "'s peers \<Rightarrow> (ptr \<Rightarrow> 'a \<Rightarrow> 'a option) \<Rightarrow> 'a \<Rightarrow> 'a option" where
  "peers_foreach_client ps cb s = peers_foreach cb (ps_clients ps) s"

text \<open>The loop has no bound: past the last peer it reads outside the array.\<close>

fun get_acceptor_loop :: "(ptr \<Rightarrow> peer option) \<Rightarrow> ptr list \<Rightarrow> int \<Rightarrow> ptr option" where
  "get_acceptor_loop store [] i = None"
| "get_acceptor_loop store (p # ps) i = do {
     peer \<leftarrow> store p;
     if peer_id peer = i then Some p else get_acceptor_loop store ps i
   }"

definition peers_get_acceptor :: "'s peers \<Rightarrow> int \<Rightarrow> ptr option option" where
  "peers_get_acceptor ps i =
    (if ps_peers ps = [] then Some None else map_option Some (get_acceptor_loop (ps_store ps) (ps_peers ps) i))"

definition peer_get_buffer :: "'s peers \<Rightarrow> ptr \<Rightarrow> bufferevent option" where
  "peer_get_buffer ps p = map_option peer_bev (ps_store ps p)"

definition peer_get_id :: "'s peers \<Rightarrow> ptr \<Rightarrow> int option" where
  "peer_get_id ps p = map_option peer_id (ps_store ps p)"

definition peer_connected :: "'s peers \<Rightarrow> ptr \<Rightarrow> bool option" where
  "peer_connected ps p = map_option (\<lambda>peer. peer_status peer = BEV_EVENT_CONNECTED) (ps_store ps p)"

text \<open>Whether the port could be bound is up to the system.\<close>

definition peers_listen :: "bool \<Rightarrow> 's peers \<Rightarrow> int \<Rightarrow> 's peers \<times> int" where
  "peers_listen bound ps p = (if bound then (ev_log [Listen p] (ps\<lparr>ps_listener := True\<rparr>), 1) else (ps, 0))"

definition peers_subscribe ::
  "'s peers \<Rightarrow> u16 \<Rightarrow> (ptr \<Rightarrow> paxos_message \<Rightarrow> 's \<Rightarrow> 's option) \<Rightarrow> 's peers option" where
  "peers_subscribe ps t cb = do {
     c_assert (length (ps_subs ps) < 32);
     Some (ps\<lparr>ps_subs := ps_subs ps @ [\<lparr>sub_type = t, sub_callback = cb\<rparr>]\<rparr>)
   }"

section \<open>Reading\<close>

text \<open>A message without contents has a type that no subscription has.\<close>

fun dispatch_message :: "'s subscription list \<Rightarrow> ptr \<Rightarrow> paxos_message option \<Rightarrow> 's \<Rightarrow> 's option" where
  "dispatch_message [] p m s = Some s"
| "dispatch_message (sub # subs) p m s = do {
     s \<leftarrow> (case m of
         Some msg \<Rightarrow> if sub_type sub = message_type msg then sub_callback sub p msg s else Some s
       | None \<Rightarrow> Some s);
     dispatch_message subs p m s
   }"

text \<open>The loop of the read callback: what is left of the input, and the state of the handlers.\<close>

partial_function (option) on_read ::
  "msgpack \<Rightarrow> 's subscription list \<Rightarrow> ptr \<Rightarrow> byte list \<Rightarrow> 's \<Rightarrow> (byte list \<times> 's) option" where
  "on_read mp subs p inp s = do {
     (rv, inp, m) \<leftarrow> recv_paxos_message mp inp;
     if rv \<noteq> 0 then do {
       s \<leftarrow> dispatch_message subs p m s;
       on_read mp subs p inp s
     }
     else Some (inp, s)
   }"

section \<open>Events\<close>

definition on_peer_event :: "'s peers \<Rightarrow> ptr \<Rightarrow> u16 \<Rightarrow> 's peers option" where
  "on_peer_event ps p ev = do {
     peer \<leftarrow> ps_store ps p;
     if ev AND BEV_EVENT_CONNECTED \<noteq> 0 then
       Some (ps\<lparr>ps_store := (ps_store ps)(p \<mapsto> peer\<lparr>peer_status := ev\<rparr>)\<rparr>)
     else if ev AND BEV_EVENT_ERROR \<noteq> 0 \<or> ev AND BEV_EVENT_EOF \<noteq> 0 then
       Some (ev_log [Socket_free p, Socket_new p, Timer_add p]
         (ps\<lparr>ps_store := (ps_store ps)(p \<mapsto> peer\<lparr>peer_bev := [], peer_status := ev\<rparr>)\<rparr>))
     else Some ps
   }"

definition free_peer :: "'s peers \<Rightarrow> ptr \<Rightarrow> 's peers option" where
  "free_peer ps p = do {
     peer \<leftarrow> ps_store ps p;
     Some (ev_log (Socket_free p # (if reconnect_ev peer then [Timer_free p] else []))
       (ps\<lparr>ps_store := (ps_store ps)(p := None)\<rparr>))
   }"

text \<open>The clients behind the one that left move up by one place and get the number of their place.\<close>

fun shift_clients :: "nat \<Rightarrow> nat \<Rightarrow> ptr list \<Rightarrow> (ptr \<Rightarrow> peer option) \<Rightarrow> (ptr list \<times> (ptr \<Rightarrow> peer option)) option" where
  "shift_clients 0 i cs store = Some (cs, store)"
| "shift_clients (Suc n) i cs store = do {
     c \<leftarrow> array_read cs (i + 1);
     cs \<leftarrow> array_write cs i c;
     peer \<leftarrow> store c;
     shift_clients n (i + 1) cs (store(c \<mapsto> peer\<lparr>peer_id := int i\<rparr>))
   }"

definition on_client_event :: "'s peers \<Rightarrow> ptr \<Rightarrow> u16 \<Rightarrow> 's peers option" where
  "on_client_event ps p ev =
    (if ev AND BEV_EVENT_EOF \<noteq> 0 \<or> ev AND BEV_EVENT_ERROR \<noteq> 0 then do {
       peer \<leftarrow> ps_store ps p;
       c_assert (0 \<le> peer_id peer);
       (cs, store) \<leftarrow> shift_clients (length (ps_clients ps) - 1 - nat (peer_id peer)) (nat (peer_id peer))
         (ps_clients ps) (ps_store ps);
       free_peer (ps\<lparr>ps_store := store, ps_clients := butlast cs\<rparr>) p
     }
     else Some ps)"

definition on_connection_timeout :: "'s peers \<Rightarrow> ptr \<Rightarrow> 's peers option" where
  "on_connection_timeout ps p = connect_peer ps p"

definition on_listener_error :: "'s peers \<Rightarrow> 's peers" where
  "on_listener_error ps = ev_log [Loop_exit] ps"

definition on_accept :: "'s peers \<Rightarrow> int \<Rightarrow> sockaddr_in \<Rightarrow> 's peers" where
  "on_accept ps fd a =
    (let (ps, p) = make_peer ps (int (length (ps_clients ps))) a
     in ev_log [Set_fd p fd] (ps\<lparr>ps_clients := ps_clients ps @ [p]\<rparr>))"

fun free_all_peers :: "ptr list \<Rightarrow> 's peers \<Rightarrow> 's peers option" where
  "free_all_peers [] ps = Some ps"
| "free_all_peers (p # rest) ps = do { ps \<leftarrow> free_peer ps p; free_all_peers rest ps }"

definition peers_free :: "'s peers \<Rightarrow> 's peers option" where
  "peers_free ps = do {
     ps \<leftarrow> free_all_peers (ps_peers ps) ps;
     ps \<leftarrow> free_all_peers (ps_clients ps) ps;
     Some (if ps_listener ps then ev_log [Listener_free] ps else ps)
   }"

section \<open>The invariant of the arrays\<close>

text \<open>Every entry of an array points to a peer whose number is its index.\<close>

definition numbered :: "(ptr \<Rightarrow> peer option) \<Rightarrow> ptr list \<Rightarrow> bool" where
  "numbered store ps \<longleftrightarrow> distinct ps \<and> (\<forall>i < length ps. \<exists>peer. store (ps ! i) = Some peer \<and> peer_id peer = int i)"

definition peers_inv :: "'s peers \<Rightarrow> bool" where
  "peers_inv ps \<longleftrightarrow> numbered (ps_store ps) (ps_peers ps) \<and> numbered (ps_store ps) (ps_clients ps) \<and>
     set (ps_peers ps) \<inter> set (ps_clients ps) = {} \<and> (\<forall>p. ps_store ps p \<noteq> None \<longrightarrow> p < ps_next ps)"

lemma numbered_set: "numbered store ps \<Longrightarrow> p \<in> set ps \<Longrightarrow> store p \<noteq> None"
  by (auto simp: numbered_def in_set_conv_nth)

lemma numbered_notin: "numbered store ps \<Longrightarrow> store p = None \<Longrightarrow> p \<notin> set ps"
  using numbered_set by fastforce

lemma numbered_cong: "numbered store ps \<Longrightarrow> (\<And>p. p \<in> set ps \<Longrightarrow> store' p = store p) \<Longrightarrow> numbered store' ps"
  by (simp add: numbered_def)

lemma numbered_status:
  assumes "numbered store ps" "store p = Some peer" "peer_id peer' = peer_id peer"
  shows "numbered (store(p \<mapsto> peer')) ps"
  using assms by (auto simp: numbered_def)

lemma numbered_append:
  assumes "numbered store ps" "store p = None"
  shows "numbered (store(p \<mapsto> peer)) (ps @ [p]) \<longleftrightarrow> peer_id peer = int (length ps)"
proof -
  have "p \<notin> set ps" using assms by (rule numbered_notin)
  then show ?thesis using assms(1) by (auto simp: numbered_def nth_append less_Suc_eq)
qed

lemma peers_new_inv: "peers_inv (peers_new config)"
  by (simp add: peers_inv_def peers_new_def numbered_def)

lemma ev_log_simps [simp]:
  "ps_store (ev_log cs ps) = ps_store ps" "ps_next (ev_log cs ps) = ps_next ps" "ps_peers (ev_log cs ps) = ps_peers ps"
  "ps_clients (ev_log cs ps) = ps_clients ps" "ps_config (ev_log cs ps) = ps_config ps" "ps_subs (ev_log cs ps) = ps_subs ps"
  "peers_inv (ev_log cs ps) = peers_inv ps"
  by (simp_all add: ev_log_def peers_inv_def)

lemma peers_inv_fresh: "peers_inv ps \<Longrightarrow> ps_store ps (ps_next ps) = None"
  unfolding peers_inv_def by (metis less_irrefl)

lemma on_accept_inv:
  assumes "peers_inv ps"
  shows "peers_inv (on_accept ps fd a)" "ps_clients (on_accept ps fd a) = ps_clients ps @ [ps_next ps]"
proof -
  have new: "ps_store ps (ps_next ps) = None" using assms by (rule peers_inv_fresh)
  then have "ps_next ps \<notin> set (ps_peers ps)" "ps_next ps \<notin> set (ps_clients ps)"
    using assms numbered_notin by (auto simp: peers_inv_def)
  moreover have "numbered (ps_store ps) (ps_clients ps)" "numbered (ps_store ps) (ps_peers ps)"
    using assms by (simp_all add: peers_inv_def)
  ultimately show "peers_inv (on_accept ps fd a)"
    using assms new
    by (auto simp: on_accept_def make_peer_def Let_def peers_inv_def numbered_append less_Suc_eq intro: numbered_cong)
  show "ps_clients (on_accept ps fd a) = ps_clients ps @ [ps_next ps]"
    by (simp add: on_accept_def make_peer_def Let_def)
qed

lemma peers_connect_inv:
  assumes "peers_inv ps" "i = int (length (ps_peers ps))"
  shows "\<exists>ps'. peers_connect ps i a = Some ps' \<and> peers_inv ps' \<and> length (ps_peers ps') = Suc (length (ps_peers ps)) \<and>
    ps_config ps' = ps_config ps"
proof -
  have new: "ps_store ps (ps_next ps) = None" using assms(1) by (rule peers_inv_fresh)
  then have "ps_next ps \<notin> set (ps_peers ps)" "ps_next ps \<notin> set (ps_clients ps)"
    using assms(1) numbered_notin by (auto simp: peers_inv_def)
  moreover have "numbered (ps_store ps) (ps_clients ps)" "numbered (ps_store ps) (ps_peers ps)"
    using assms(1) by (simp_all add: peers_inv_def)
  ultimately show ?thesis
    using assms new
    by (auto simp: peers_connect_def make_peer_def connect_peer_def Let_def peers_inv_def numbered_append less_Suc_eq
      intro: numbered_cong)
qed

lemma on_peer_event_inv:
  assumes "peers_inv ps" "p \<in> set (ps_peers ps)"
  obtains ps' where "on_peer_event ps p ev = Some ps'" "peers_inv ps'" "ps_peers ps' = ps_peers ps" "ps_clients ps' = ps_clients ps"
proof -
  obtain peer where peer: "ps_store ps p = Some peer" using assms numbered_set by (fastforce simp: peers_inv_def)
  then have "peers_inv (ps\<lparr>ps_store := (ps_store ps)(p \<mapsto> peer')\<rparr>)" if "peer_id peer' = peer_id peer" for peer'
    using assms(1) that by (auto simp: peers_inv_def numbered_status)
  then have "\<exists>ps'. on_peer_event ps p ev = Some ps' \<and> peers_inv ps' \<and> ps_peers ps' = ps_peers ps \<and> ps_clients ps' = ps_clients ps"
    using peer assms(1) by (simp add: on_peer_event_def)
  then show thesis using that by blast
qed

lemma shift_clients_spec:
  assumes "i < length cs" "n = length cs - Suc i" "distinct (drop (Suc i) cs)" "\<forall>p \<in> set (drop (Suc i) cs). store p \<noteq> None"
  shows "\<exists>store'. shift_clients n i cs store = Some (take i cs @ drop (Suc i) cs @ [last cs], store') \<and>
    (\<forall>j < length cs. i < j \<longrightarrow> store' (cs ! j) = map_option (peer_id_update (\<lambda>_. int (j - 1))) (store (cs ! j))) \<and>
    (\<forall>p. p \<notin> set (drop (Suc i) cs) \<longrightarrow> store' p = store p)"
  using assms
proof (induction n arbitrary: i cs store)
  case 0
  then have "Suc i = length cs" by simp
  then show ?case by (cases cs rule: rev_cases) auto
next
  case (Suc n)
  let ?c = "cs ! Suc i" and ?cs = "cs[i := cs ! Suc i]"
  have i: "Suc i < length cs" using Suc.prems by simp
  have dr: "drop (Suc i) cs = ?c # drop (Suc (Suc i)) cs" using i by (simp add: Cons_nth_drop_Suc)
  obtain peer where peer: "store ?c = Some peer" using Suc.prems(4) dr by fastforce
  let ?store = "store(?c \<mapsto> peer\<lparr>peer_id := int i\<rparr>)"
  have fresh: "?c \<notin> set (drop (Suc (Suc i)) cs)" using Suc.prems(3) dr by simp
  have pre: "Suc i < length ?cs" "n = length ?cs - Suc (Suc i)" "distinct (drop (Suc (Suc i)) ?cs)"
    "\<forall>p \<in> set (drop (Suc (Suc i)) ?cs). ?store p \<noteq> None"
    using Suc.prems i dr by simp_all
  from Suc.IH [OF pre] obtain store' where store': "shift_clients n (Suc i) ?cs ?store =
      Some (take (Suc i) ?cs @ drop (Suc (Suc i)) ?cs @ [last ?cs], store')"
    "\<forall>j < length ?cs. Suc i < j \<longrightarrow> store' (?cs ! j) = map_option (peer_id_update (\<lambda>_. int (j - 1))) (?store (?cs ! j))"
    "\<forall>p. p \<notin> set (drop (Suc (Suc i)) ?cs) \<longrightarrow> store' p = ?store p"
    by blast
  have "shift_clients (Suc n) i cs store = shift_clients n (Suc i) ?cs ?store"
    using i peer by (simp add: array_read_def array_write_def)
  moreover have "take (Suc i) ?cs @ drop (Suc (Suc i)) ?cs @ [last ?cs] = take i cs @ drop (Suc i) cs @ [last cs]"
  proof -
    have "cs \<noteq> []" "i \<noteq> length cs - 1" using i by auto
    then show ?thesis using i dr by (simp add: take_Suc_conv_app_nth last_list_update)
  qed
  moreover have "store' (cs ! j) = map_option (peer_id_update (\<lambda>_. int (j - 1))) (store (cs ! j))"
    if j: "j < length cs" "i < j" for j
  proof (cases "j = Suc i")
    case True
    then show ?thesis using store'(3) fresh peer by simp
  next
    case False
    then obtain k where k: "j = Suc (Suc i) + k" using j(2) by (metis Suc_lessI less_iff_Suc_add add_Suc)
    then have "drop (Suc (Suc i)) cs ! k = cs ! j" "k < length (drop (Suc (Suc i)) cs)" using j(1) by simp_all
    then have "cs ! j \<in> set (drop (Suc (Suc i)) cs)" by (metis nth_mem)
    then have "cs ! j \<noteq> ?c" using fresh by auto
    then show ?thesis using store'(2) j False by simp
  qed
  moreover have "store' p = store p" if "p \<notin> set (drop (Suc i) cs)" for p
    using store'(3) that dr by simp
  ultimately show ?case using store'(1) by auto
qed

text \<open>The clients without the one at place \<open>i\<close>, as the loop leaves them.\<close>

lemma numbered_shift:
  assumes cs: "numbered store (pre @ p # post)"
    and new: "\<forall>j < length (pre @ p # post). length pre < j \<longrightarrow>
      store' ((pre @ p # post) ! j) = map_option (peer_id_update (\<lambda>_. int (j - 1))) (store ((pre @ p # post) ! j))"
    and old: "\<forall>q. q \<notin> set post \<longrightarrow> store' q = store q"
  shows "numbered (store'(p := None)) (pre @ post)"
proof -
  have d: "distinct (pre @ p # post)" using cs by (simp add: numbered_def)
  have "\<exists>peer. (store'(p := None)) ((pre @ post) ! k) = Some peer \<and> peer_id peer = int k"
    if k: "k < length (pre @ post)" for k
  proof (cases "k < length pre")
    case True
    then have "pre ! k \<in> set pre" by simp
    then have "pre ! k \<noteq> p" "pre ! k \<notin> set post" using d by auto
    moreover obtain peer where "store (pre ! k) = Some peer" "peer_id peer = int k"
      using cs True by (auto simp: numbered_def nth_append dest: spec [of _ k])
    ultimately show ?thesis using True old by (simp add: nth_append)
  next
    case False
    let ?e = "post ! (k - length pre)"
    have e: "(pre @ p # post) ! Suc k = ?e" "Suc k < length (pre @ p # post)" "?e \<in> set post"
      using False k by (simp_all add: nth_append Suc_diff_le)
    obtain peer where "store ?e = Some peer" using cs e by (auto simp: numbered_def dest: spec [of _ "Suc k"])
    moreover have "store' ?e = map_option (peer_id_update (\<lambda>_. int k)) (store ?e)"
      using new [rule_format, of "Suc k"] e False by simp
    moreover have "?e \<noteq> p" using e(3) d by auto
    ultimately show ?thesis using False by (simp add: nth_append)
  qed
  then show ?thesis using d by (simp add: numbered_def)
qed

lemma on_client_event_spec:
  assumes inv: "peers_inv ps" and cs: "ps_clients ps = pre @ p # post"
    and ev: "ev AND BEV_EVENT_EOF \<noteq> 0 \<or> ev AND BEV_EVENT_ERROR \<noteq> 0"
  obtains ps' where "on_client_event ps p ev = Some ps'" "peers_inv ps'" "ps_clients ps' = pre @ post"
    "ps_peers ps' = ps_peers ps" "ps_store ps' p = None"
proof -
  let ?i = "length pre"
  have cl: "numbered (ps_store ps) (pre @ p # post)" "distinct (pre @ p # post)" "numbered (ps_store ps) (ps_peers ps)"
    "set (ps_peers ps) \<inter> set (pre @ p # post) = {}"
    using inv cs by (simp_all add: peers_inv_def numbered_def)
  obtain peer where peer: "ps_store ps p = Some peer" "peer_id peer = int ?i"
    using cl(1) by (auto simp: numbered_def nth_append dest: spec [of _ ?i])
  have "\<forall>q \<in> set (drop (Suc ?i) (pre @ p # post)). ps_store ps q \<noteq> None" using numbered_set [OF cl(1)] by auto
  then have "\<exists>store'. shift_clients (length post) ?i (pre @ p # post) (ps_store ps) =
      Some (take ?i (pre @ p # post) @ drop (Suc ?i) (pre @ p # post) @ [last (pre @ p # post)], store') \<and>
    (\<forall>j < length (pre @ p # post). ?i < j \<longrightarrow>
      store' ((pre @ p # post) ! j) = map_option (peer_id_update (\<lambda>_. int (j - 1))) (ps_store ps ((pre @ p # post) ! j))) \<and>
    (\<forall>q. q \<notin> set (drop (Suc ?i) (pre @ p # post)) \<longrightarrow> store' q = ps_store ps q)"
    by (intro shift_clients_spec) (use cl(2) in simp_all)
  then obtain store' where st: "shift_clients (length post) ?i (pre @ p # post) (ps_store ps) =
      Some (take ?i (pre @ p # post) @ drop (Suc ?i) (pre @ p # post) @ [last (pre @ p # post)], store')"
    "\<forall>j < length (pre @ p # post). ?i < j \<longrightarrow>
      store' ((pre @ p # post) ! j) = map_option (peer_id_update (\<lambda>_. int (j - 1))) (ps_store ps ((pre @ p # post) ! j))"
    and old: "\<forall>q. q \<notin> set (drop (Suc ?i) (pre @ p # post)) \<longrightarrow> store' q = ps_store ps q"
    by blast
  have st3: "\<forall>q. q \<notin> set post \<longrightarrow> store' q = ps_store ps q" using old by simp
  let ?ps = "ps\<lparr>ps_clients := pre @ post, ps_store := store'(p := None)\<rparr>"
  have "p \<notin> set post" using cl(2) by simp
  then have store_p: "store' p = Some peer" using st3 peer(1) by simp
  have call: "on_client_event ps p ev = Some (ev_log (Socket_free p # (if reconnect_ev peer then [Timer_free p] else [])) ?ps)"
    using ev peer st(1) store_p cs by (simp add: on_client_event_def free_peer_def butlast_append)
  have "numbered (store'(p := None)) (pre @ post)" using cl(1) st(2) st3 by (rule numbered_shift)
  moreover have "numbered (store'(p := None)) (ps_peers ps)"
    using cl(3) by (rule numbered_cong) (use cl(4) st3 in auto)
  moreover have "q < ps_next ps" if "(store'(p := None)) q \<noteq> None" for q
  proof (cases "q \<in> set post")
    case True
    then have "ps_store ps q \<noteq> None" using numbered_set [OF cl(1)] by auto
    then show ?thesis using inv by (simp add: peers_inv_def)
  next
    case False
    then have "ps_store ps q \<noteq> None" using that st3 by (auto split: if_splits)
    then show ?thesis using inv by (simp add: peers_inv_def)
  qed
  ultimately have "peers_inv ?ps" using cl(4) by (auto simp: peers_inv_def)
  then show thesis by (intro that [OF call]) simp_all
qed

lemma connect_loop_inv:
  assumes "peers_inv ps" "i = int (length (ps_peers ps))"
    and "\<And>j. i \<le> j \<Longrightarrow> j < i + int n \<Longrightarrow> evpaxos_acceptor_address inet_addr (ps_config ps) j \<noteq> None"
  shows "\<exists>ps'. connect_loop inet_addr n i ps = Some ps' \<and> peers_inv ps' \<and> length (ps_peers ps') = length (ps_peers ps) + n"
  using assms
proof (induction n arbitrary: i ps)
  case (Suc n)
  obtain a where a: "evpaxos_acceptor_address inet_addr (ps_config ps) i = Some a" using Suc.prems(3) [of i] by auto
  obtain ps1 where ps1: "peers_connect ps i a = Some ps1" "peers_inv ps1" "length (ps_peers ps1) = Suc (length (ps_peers ps))"
    "ps_config ps1 = ps_config ps"
    using peers_connect_inv [OF Suc.prems(1,2)] by blast
  have "\<exists>ps'. connect_loop inet_addr n (i + 1) ps1 = Some ps' \<and> peers_inv ps' \<and> length (ps_peers ps') = length (ps_peers ps1) + n"
    by (rule Suc.IH) (use Suc.prems ps1 in auto)
  then show ?case using a ps1 by auto
qed simp

lemma acceptor_address_ok:
  assumes "config_ok config" "0 \<le> j" "j < evpaxos_acceptor_count config"
  shows "evpaxos_acceptor_address inet_addr config j \<noteq> None"
proof -
  have "nat j < acceptors_count config" using assms(2,3) by (simp add: evpaxos_acceptor_count_def)
  then show ?thesis using assms(1,2)
    by (auto simp: config_ok_def slots_ok_def evpaxos_acceptor_address_def array_read_int_def array_read_def
      address_to_sockaddr_def)
qed

text \<open>A process connects to all the acceptors of a configuration that was read.\<close>

lemma connect_to_acceptors:
  assumes "config_ok config"
  obtains ps :: "'s peers" where "peers_connect_to_acceptors inet_addr (peers_new config) = Some ps" "peers_inv ps"
    "peers_count ps = evpaxos_acceptor_count config"
proof -
  have "\<exists>ps. connect_loop inet_addr (acceptors_count config) 0 (peers_new config :: 's peers) = Some ps \<and> peers_inv ps \<and>
      length (ps_peers ps) = length (ps_peers (peers_new config :: 's peers)) + acceptors_count config"
    using acceptor_address_ok [OF assms]
    by (intro connect_loop_inv) (simp_all add: peers_new_inv, simp_all add: peers_new_def evpaxos_acceptor_count_def)
  then show thesis using that
    by (auto simp: peers_connect_to_acceptors_def peers_count_def evpaxos_acceptor_count_def peers_new_def)
qed

text \<open>Asking for an acceptor that is not connected reads past the array.\<close>

lemma get_acceptor_numbered:
  assumes "numbered store (pre @ ps)" "int (length pre) \<le> i"
  shows "get_acceptor_loop store ps i = (if i < int (length (pre @ ps)) then Some ((pre @ ps) ! nat i) else None)"
  using assms
proof (induction ps arbitrary: pre)
  case (Cons p ps)
  obtain peer where peer: "store p = Some peer" "peer_id peer = int (length pre)"
    using Cons.prems(1) by (auto simp: numbered_def nth_append dest: spec [of _ "length pre"])
  show ?case
  proof (cases "i = int (length pre)")
    case True
    then show ?thesis using peer by simp
  next
    case False
    then show ?thesis using Cons.IH [of "pre @ [p]"] Cons.prems peer by simp
  qed
qed simp

lemma peers_get_acceptor_spec:
  assumes "peers_inv ps" "0 \<le> i" "ps_peers ps \<noteq> []"
  shows "peers_get_acceptor ps i = (if i < peers_count ps then Some (Some (ps_peers ps ! nat i)) else None)"
  using get_acceptor_numbered [of "ps_store ps" "[]" "ps_peers ps" i] assms
  by (simp add: peers_get_acceptor_def peers_inv_def peers_count_def)

section \<open>The stream of messages\<close>

text \<open>The handlers of one message, and of a list of messages, one after the other.\<close>

fun dispatch_all :: "'s subscription list \<Rightarrow> ptr \<Rightarrow> paxos_message list \<Rightarrow> 's \<Rightarrow> 's option" where
  "dispatch_all subs p [] s = Some s"
| "dispatch_all subs p (m # ms) s = do { s \<leftarrow> dispatch_message subs p (Some m) s; dispatch_all subs p ms s }"

fun run_callbacks :: "(ptr \<Rightarrow> paxos_message \<Rightarrow> 's \<Rightarrow> 's option) list \<Rightarrow> ptr \<Rightarrow> paxos_message \<Rightarrow> 's \<Rightarrow> 's option" where
  "run_callbacks [] p m s = Some s"
| "run_callbacks (cb # cbs) p m s = do { s \<leftarrow> cb p m s; run_callbacks cbs p m s }"

lemma dispatch_message_callbacks:
  "dispatch_message subs p (Some m) s = run_callbacks (map sub_callback (filter (\<lambda>x. sub_type x = message_type m) subs)) p m s"
  by (induction subs arbitrary: s) (auto cong: Option.bind_cong)

definition incomplete :: "msgpack \<Rightarrow> byte list \<Rightarrow> bool" where
  "incomplete mp bs \<longleftrightarrow> bs = [] \<or> (\<exists>m. message_wf m \<and> strict_prefix bs (message_bytes mp m))"

lemma recv_incomplete_input: "msgpack_law mp \<Longrightarrow> incomplete mp bs \<Longrightarrow> recv_paxos_message mp bs = Some (0, bs, None)"
  using recv_incomplete [of mp _ bs] by (cases "bs = []") (auto simp: incomplete_def, simp add: recv_paxos_message_def)

lemma on_read_stream:
  assumes "msgpack_law mp" "list_all message_wf ms" "incomplete mp rest"
  shows "on_read mp subs p (concat (map (message_bytes mp) ms) @ rest) s =
    map_option (Pair rest) (dispatch_all subs p (map arrives ms) s)"
  using assms(2)
proof (induction ms arbitrary: s)
  case Nil
  show ?case using recv_incomplete_input [OF assms(1,3)] by (subst on_read.simps) simp
next
  case (Cons m ms)
  have "recv_paxos_message mp (message_bytes mp m @ concat (map (message_bytes mp) ms) @ rest) =
      Some (1, concat (map (message_bytes mp) ms) @ rest, Some (arrives m))"
    using Cons.prems by (intro recv_message [OF assms(1)]) simp
  then have "on_read mp subs p (concat (map (message_bytes mp) (m # ms)) @ rest) s =
      do { s \<leftarrow> dispatch_message subs p (Some (arrives m)) s;
           on_read mp subs p (concat (map (message_bytes mp) ms) @ rest) s }"
    by (subst on_read.simps) simp
  also have "\<dots> = map_option (Pair rest) (dispatch_all subs p (map arrives (m # ms)) s)"
    using Cons by (cases "dispatch_message subs p (Some (arrives m)) s") simp_all
  finally show ?case .
qed

text \<open>
  The bytes arrive in chunks, cut at any place: every chunk is added to what the last read left in
  the buffer, and the handler runs.
\<close>

fun read_chunks ::
  "msgpack \<Rightarrow> 's subscription list \<Rightarrow> ptr \<Rightarrow> byte list \<Rightarrow> byte list list \<Rightarrow> 's \<Rightarrow> (byte list \<times> 's) option" where
  "read_chunks mp subs p left [] s = Some (left, s)"
| "read_chunks mp subs p left (c # cs) s = do {
     (left, s) \<leftarrow> on_read mp subs p (left @ c) s;
     read_chunks mp subs p left cs s
   }"

text \<open>The sender of a list of messages.\<close>

fun send_all :: "msgpack \<Rightarrow> bufferevent \<Rightarrow> paxos_message list \<Rightarrow> bufferevent option" where
  "send_all mp bev [] = Some bev"
| "send_all mp bev (m # ms) = do { bev \<leftarrow> send_paxos_message mp bev m; send_all mp bev ms }"

lemma send_all_bytes: "list_all message_wf ms \<Longrightarrow> send_all mp bev ms = Some (bev @ concat (map (message_bytes mp) ms))"
  by (induction ms arbitrary: bev) (simp_all add: send_bytes)

lemma dispatch_all_append:
  "dispatch_all subs p (xs @ ys) s = do { s \<leftarrow> dispatch_all subs p xs s; dispatch_all subs p ys s }"
  by (induction xs arbitrary: s) (simp_all add: bind_assoc cong: Option.bind_cong)

lemma stream_split:
  assumes "list_all message_wf ms" "bs @ more_bytes = concat (map (message_bytes mp) ms)"
  shows "\<exists>ms1 ms2 rest. ms = ms1 @ ms2 \<and> bs = concat (map (message_bytes mp) ms1) @ rest \<and> incomplete mp rest \<and>
    rest @ more_bytes = concat (map (message_bytes mp) ms2)"
  using assms
proof (induction ms arbitrary: bs)
  case Nil
  then show ?case by (simp add: incomplete_def)
next
  case (Cons m ms)
  show ?case
  proof (cases "strict_prefix bs (message_bytes mp m)")
    case True
    then have "incomplete mp bs" using Cons.prems by (auto simp: incomplete_def)
    then show ?thesis using Cons.prems(2) by (intro exI [of _ "[]"] exI [of _ "m # ms"] exI [of _ bs]) simp
  next
    case False
    have "prefix bs (message_bytes mp m @ concat (map (message_bytes mp) ms))"
      using Cons.prems(2) by (metis prefixI concat.simps(2) list.map(2))
    with False obtain bs' where bs': "bs = message_bytes mp m @ bs'"
      by (metis append_Nil2 prefix_append prefix_def strict_prefix_def)
    from Cons.IH [of bs'] Cons.prems bs' obtain ms1 ms2 rest where
      "ms = ms1 @ ms2" "bs' = concat (map (message_bytes mp) ms1) @ rest" "incomplete mp rest"
      "rest @ more_bytes = concat (map (message_bytes mp) ms2)"
      by auto
    then show ?thesis using bs' by (intro exI [of _ "m # ms1"] exI [of _ ms2] exI [of _ rest]) simp
  qed
qed

lemma incomplete_stream:
  assumes "msgpack_law mp" "list_all message_wf ms" "incomplete mp (concat (map (message_bytes mp) ms))"
  shows "ms = []"
proof (rule ccontr)
  assume "ms \<noteq> []"
  then obtain m ms' where ms: "ms = m # ms'" by (cases ms) auto
  have "recv_paxos_message mp (message_bytes mp m @ concat (map (message_bytes mp) ms')) =
      Some (1, concat (map (message_bytes mp) ms'), Some (arrives m))"
    using assms(2) ms by (intro recv_message [OF assms(1)]) simp
  then show False using recv_incomplete_input [OF assms(1,3)] ms by simp
qed

lemma read_chunks_stream:
  assumes "msgpack_law mp" "list_all message_wf ms" "incomplete mp left"
    and "left @ concat cs = concat (map (message_bytes mp) ms)"
  shows "read_chunks mp subs p left cs s = map_option (Pair []) (dispatch_all subs p (map arrives ms) s)"
  using assms(2-4)
proof (induction cs arbitrary: left ms s)
  case Nil
  then show ?case using incomplete_stream [OF assms(1), of ms] by simp
next
  case (Cons c cs)
  from stream_split [OF Cons.prems(1), of "left @ c" "concat cs" mp] Cons.prems(3)
  obtain ms1 ms2 rest where split: "ms = ms1 @ ms2" "left @ c = concat (map (message_bytes mp) ms1) @ rest"
    "incomplete mp rest" "rest @ concat cs = concat (map (message_bytes mp) ms2)"
    by auto
  have wf: "list_all message_wf ms1" "list_all message_wf ms2" using Cons.prems(1) split(1) by simp_all
  have "on_read mp subs p (left @ c) s = map_option (Pair rest) (dispatch_all subs p (map arrives ms1) s)"
    unfolding split(2) by (rule on_read_stream [OF assms(1) wf(1) split(3)])
  then show ?case using Cons.IH [OF wf(2) split(3,4)] split(1)
    by (cases "dispatch_all subs p (map arrives ms1) s") (simp_all add: dispatch_all_append)
qed

lemma read_chunks_whole:
  assumes "msgpack_law mp" "list_all message_wf ms" "concat cs = concat (map (message_bytes mp) ms)"
  shows "read_chunks mp subs p [] cs s = on_read mp subs p (concat cs) s"
    and "on_read mp subs p (concat cs) s = map_option (Pair []) (dispatch_all subs p (map arrives ms) s)"
  using read_chunks_stream [OF assms(1,2), of "[]" cs subs p s] on_read_stream [OF assms(1,2), of "[]" subs p s] assms(3)
  by (simp_all add: incomplete_def)

end
