(* ===== verification/Evreplica.thy ===== *)
theory Evreplica
  imports Evpaxos Peers
begin

text \<open>
  The processes of evpaxos as their \<open>init\<close> functions put them together (\<open>evacceptor.c\<close>, \<open>evproposer.c\<close>,
  \<open>evlearner.c\<close>, \<open>evreplica.c\<close>): roles that subscribe their handlers to the messages of the peers, and
  the replica, which has all three roles over one set of peers.
\<close>

section \<open>Handlers as callbacks\<close>

text \<open>
  The state that the callbacks of a process share: its roles, the results of \<open>gettimeofday\<close> and of
  reading a freed instance for the running callback, the messages sent with the peer they answer, and
  the values handed to the application. \<open>pr_callback\<close> tells whether the application gave a delivery
  function. In a replica the learner delivers to the replica.
\<close>

record process =
  pr_acceptor :: "mem_storage acceptor option"
  pr_proposer :: "evproposer option"
  pr_learner :: "learner option"
  pr_now :: clock
  pr_freed :: "iid_t \<Rightarrow> iid_t"
  pr_sent :: "(ptr \<times> dest \<times> paxos_message) list"
  pr_delivered :: "delivery list"
  pr_replica :: bool
  pr_callback :: bool

definition new_process :: "clock \<Rightarrow> (iid_t \<Rightarrow> iid_t) \<Rightarrow> bool \<Rightarrow> bool \<Rightarrow> process" where
  "new_process now freed replica cb = \<lparr>pr_acceptor = None, pr_proposer = None, pr_learner = None, pr_now = now,
     pr_freed = freed, pr_sent = [], pr_delivered = [], pr_replica = replica, pr_callback = cb\<rparr>"

definition on_acceptor ::
  "(mem_storage acceptor \<Rightarrow> (mem_storage acceptor \<times> sends) option) \<Rightarrow> ptr \<Rightarrow> process \<Rightarrow> process option" where
  "on_acceptor f p r = do {
     a \<leftarrow> pr_acceptor r;
     (a, out) \<leftarrow> f a;
     Some (r\<lparr>pr_acceptor := Some a, pr_sent := pr_sent r @ map (Pair p) out\<rparr>)
   }"

definition on_proposer ::
  "(evproposer \<Rightarrow> (evproposer \<times> sends) option) \<Rightarrow> ptr \<Rightarrow> process \<Rightarrow> process option" where
  "on_proposer f p r = do {
     e \<leftarrow> pr_proposer r;
     (e, out) \<leftarrow> f e;
     Some (r\<lparr>pr_proposer := Some e, pr_sent := pr_sent r @ map (Pair p) out\<rparr>)
   }"

text \<open>
  The delivery callback of a replica, and the calls of the callback for the values that the learner
  delivers. A learner of its own calls the function of the application without a check.
\<close>

definition evpaxos_replica_deliver :: "delivery \<Rightarrow> process \<Rightarrow> process option" where
  "evpaxos_replica_deliver d r = do {
     e \<leftarrow> pr_proposer r;
     e \<leftarrow> evproposer_set_instance_id e (fst d);
     let r = r\<lparr>pr_proposer := Some e\<rparr>;
     Some (if pr_callback r then r\<lparr>pr_delivered := pr_delivered r @ [d]\<rparr> else r)
   }"

fun on_delivered :: "delivery list \<Rightarrow> process \<Rightarrow> process option" where
  "on_delivered [] r = Some r"
| "on_delivered (d # ds) r = do {
     r \<leftarrow> (if pr_replica r then evpaxos_replica_deliver d r
          else do { c_assert (pr_callback r); Some (r\<lparr>pr_delivered := pr_delivered r @ [d]\<rparr>) });
     on_delivered ds r
   }"

text \<open>A callback reads the member of the union that belongs to the type it was subscribed for.\<close>

fun prepare_cb :: "ptr \<Rightarrow> paxos_message \<Rightarrow> process \<Rightarrow> process option" where
  "prepare_cb p (PAXOS_PREPARE m) r = on_acceptor (\<lambda>a. evacceptor_handle_prepare a m) p r"
| "prepare_cb p _ r = None"

fun accept_cb :: "ptr \<Rightarrow> paxos_message \<Rightarrow> process \<Rightarrow> process option" where
  "accept_cb p (PAXOS_ACCEPT m) r = on_acceptor (\<lambda>a. evacceptor_handle_accept a m) p r"
| "accept_cb p _ r = None"

fun repeat_cb :: "ptr \<Rightarrow> paxos_message \<Rightarrow> process \<Rightarrow> process option" where
  "repeat_cb p (PAXOS_REPEAT m) r = on_acceptor (\<lambda>a. evacceptor_handle_repeat a m) p r"
| "repeat_cb p _ r = None"

fun trim_cb :: "ptr \<Rightarrow> paxos_message \<Rightarrow> process \<Rightarrow> process option" where
  "trim_cb p (PAXOS_TRIM m) r = on_acceptor (\<lambda>a. evacceptor_handle_trim a m) p r"
| "trim_cb p _ r = None"

fun promise_cb :: "ptr \<Rightarrow> paxos_message \<Rightarrow> process \<Rightarrow> process option" where
  "promise_cb p (PAXOS_PROMISE m) r = on_proposer (\<lambda>e. evproposer_handle_promise (pr_now r) e m) p r"
| "promise_cb p _ r = None"

fun accepted_cb :: "ptr \<Rightarrow> paxos_message \<Rightarrow> process \<Rightarrow> process option" where
  "accepted_cb p (PAXOS_ACCEPTED m) r = on_proposer (\<lambda>e. evproposer_handle_accepted (pr_now r) e m) p r"
| "accepted_cb p _ r = None"

fun preempted_cb :: "ptr \<Rightarrow> paxos_message \<Rightarrow> process \<Rightarrow> process option" where
  "preempted_cb p (PAXOS_PREEMPTED m) r = on_proposer (\<lambda>e. evproposer_handle_preempted (pr_now r) e m) p r"
| "preempted_cb p _ r = None"

fun client_value_cb :: "ptr \<Rightarrow> paxos_message \<Rightarrow> process \<Rightarrow> process option" where
  "client_value_cb p (PAXOS_CLIENT_VALUE m) r = on_proposer (\<lambda>e. evproposer_handle_client_value (pr_now r) e m) p r"
| "client_value_cb p _ r = None"

fun acceptor_state_cb :: "ptr \<Rightarrow> paxos_message \<Rightarrow> process \<Rightarrow> process option" where
  "acceptor_state_cb p (PAXOS_ACCEPTOR_STATE m) r = on_proposer (\<lambda>e. evproposer_handle_acceptor_state e m) p r"
| "acceptor_state_cb p _ r = None"

fun learner_accepted_cb :: "ptr \<Rightarrow> paxos_message \<Rightarrow> process \<Rightarrow> process option" where
  "learner_accepted_cb p (PAXOS_ACCEPTED m) r = do {
     l \<leftarrow> pr_learner r;
     (l, ds) \<leftarrow> evlearner_handle_accepted (pr_freed r) l m;
     on_delivered ds (r\<lparr>pr_learner := Some l\<rparr>)
   }"
| "learner_accepted_cb p _ r = None"

section \<open>Initialisation\<close>

type_synonym node = "process peers \<times> process"

definition evacceptor_init_internal :: "paxos_config \<Rightarrow> int \<Rightarrow> node \<Rightarrow> node option" where
  "evacceptor_init_internal cfg i node = do {
     let (ps, r) = node;
     a \<leftarrow> acceptor_new cfg i;
     ps \<leftarrow> peers_subscribe ps 0 prepare_cb;
     ps \<leftarrow> peers_subscribe ps 2 accept_cb;
     ps \<leftarrow> peers_subscribe ps 5 repeat_cb;
     ps \<leftarrow> peers_subscribe ps 6 trim_cb;
     Some (ps, r\<lparr>pr_acceptor := a\<rparr>)
   }"

definition evproposer_init_role :: "paxos_config \<Rightarrow> evpaxos_config \<Rightarrow> int \<Rightarrow> node \<Rightarrow> node option" where
  "evproposer_init_role cfg c i node = do {
     let (ps, r) = node;
     ps \<leftarrow> peers_subscribe ps 1 promise_cb;
     ps \<leftarrow> peers_subscribe ps 3 accepted_cb;
     ps \<leftarrow> peers_subscribe ps 4 preempted_cb;
     ps \<leftarrow> peers_subscribe ps 8 client_value_cb;
     ps \<leftarrow> peers_subscribe ps 7 acceptor_state_cb;
     e \<leftarrow> evproposer_init_internal cfg i (evpaxos_acceptor_count c);
     Some (ps, r\<lparr>pr_proposer := Some e\<rparr>)
   }"

definition evlearner_init_internal :: "paxos_config \<Rightarrow> evpaxos_config \<Rightarrow> node \<Rightarrow> node option" where
  "evlearner_init_internal cfg c node = do {
     let (ps, r) = node;
     ps \<leftarrow> peers_subscribe ps 3 learner_accepted_cb;
     Some (ps, r\<lparr>pr_learner := Some (learner_new cfg (evpaxos_acceptor_count c))\<rparr>)
   }"

text \<open>
  The result of an \<open>init\<close> function is a null pointer where the configuration is not accepted or the
  port cannot be bound. Reading the file also sets the global configuration.
\<close>

definition evacceptor_init :: "config_file \<Rightarrow> bool \<Rightarrow> clock \<Rightarrow> (iid_t \<Rightarrow> iid_t) \<Rightarrow> paxos_config \<Rightarrow> int \<Rightarrow> node option option" where
  "evacceptor_init f bound now freed cfg i = do {
     (config, cfg) \<leftarrow> evpaxos_config_read f cfg;
     case config of None \<Rightarrow> Some None
     | Some c \<Rightarrow>
         if i < 0 \<or> i \<ge> evpaxos_acceptor_count c then Some None
         else do {
           p \<leftarrow> evpaxos_acceptor_listen_port c i;
           let (ps, rv) = peers_listen bound (peers_new c) p;
           if rv = 0 then Some None
           else map_option Some (evacceptor_init_internal cfg i (ps, new_process now freed False False))
         }
   }"

definition evproposer_init ::
  "(string \<Rightarrow> 32 word) \<Rightarrow> config_file \<Rightarrow> bool \<Rightarrow> clock \<Rightarrow> (iid_t \<Rightarrow> iid_t) \<Rightarrow> paxos_config \<Rightarrow> int \<Rightarrow> node option option" where
  "evproposer_init inet_addr f bound now freed cfg i = do {
     (config, cfg) \<leftarrow> evpaxos_config_read f cfg;
     case config of None \<Rightarrow> Some None
     | Some c \<Rightarrow>
         if i < 0 \<or> i \<ge> int MAX_N_OF_PROPOSERS then Some None
         else do {
           ps \<leftarrow> peers_connect_to_acceptors inet_addr (peers_new c);
           p \<leftarrow> evpaxos_proposer_listen_port c i;
           let (ps, rv) = peers_listen bound ps p;
           if rv = 0 then Some None
           else map_option Some (evproposer_init_role cfg c i (ps, new_process now freed False False))
         }
   }"

definition evlearner_init ::
  "(string \<Rightarrow> 32 word) \<Rightarrow> config_file \<Rightarrow> bool \<Rightarrow> clock \<Rightarrow> (iid_t \<Rightarrow> iid_t) \<Rightarrow> paxos_config \<Rightarrow> node option option" where
  "evlearner_init inet_addr f cb now freed cfg = do {
     (config, cfg) \<leftarrow> evpaxos_config_read f cfg;
     case config of None \<Rightarrow> Some None
     | Some c \<Rightarrow> do {
         ps \<leftarrow> peers_connect_to_acceptors inet_addr (peers_new c);
         map_option Some (evlearner_init_internal cfg c (ps, new_process now freed False cb))
       }
   }"

text \<open>
  The replica does not check that the file was read: a null configuration is dereferenced. It has a
  learner whether or not the application gave a delivery function.
\<close>

definition evpaxos_replica_init ::
  "(string \<Rightarrow> 32 word) \<Rightarrow> config_file \<Rightarrow> bool \<Rightarrow> bool \<Rightarrow> clock \<Rightarrow> (iid_t \<Rightarrow> iid_t) \<Rightarrow> paxos_config \<Rightarrow> int \<Rightarrow>
    node option option" where
  "evpaxos_replica_init inet_addr f bound cb now freed cfg i = do {
     (config, cfg) \<leftarrow> evpaxos_config_read f cfg;
     c \<leftarrow> config;
     ps \<leftarrow> peers_connect_to_acceptors inet_addr (peers_new c);
     node \<leftarrow> evacceptor_init_internal cfg i (ps, new_process now freed True cb);
     node \<leftarrow> evproposer_init_role cfg c i node;
     (ps, r) \<leftarrow> evlearner_init_internal cfg c node;
     p \<leftarrow> evpaxos_acceptor_listen_port c i;
     let (ps, rv) = peers_listen bound ps p;
     if rv = 0 then Some None else Some (Some (ps, r))
   }"

section \<open>The replica\<close>

definition evpaxos_replica_set_instance_id :: "process \<Rightarrow> iid_t \<Rightarrow> process option" where
  "evpaxos_replica_set_instance_id r i = do {
     let r = r\<lparr>pr_learner := map_option (\<lambda>l. evlearner_set_instance_id l i) (pr_learner r)\<rparr>;
     e \<leftarrow> pr_proposer r;
     e \<leftarrow> evproposer_set_instance_id e i;
     Some (r\<lparr>pr_proposer := Some e\<rparr>)
   }"

text \<open>Writing to the stream of a peer.\<close>

definition peer_write :: "(bufferevent \<Rightarrow> bufferevent option) \<Rightarrow> ptr \<Rightarrow> 's peers \<Rightarrow> 's peers option" where
  "peer_write send p ps = do {
     peer \<leftarrow> ps_store ps p;
     bev \<leftarrow> send (peer_bev peer);
     Some (ps\<lparr>ps_store := (ps_store ps)(p \<mapsto> peer\<lparr>peer_bev := bev\<rparr>)\<rparr>)
   }"

definition evpaxos_replica_send_trim :: "msgpack \<Rightarrow> 's peers \<Rightarrow> iid_t \<Rightarrow> 's peers option" where
  "evpaxos_replica_send_trim mp ps i =
    peers_foreach_acceptor ps (peer_write (\<lambda>bev. send_paxos_trim mp bev \<lparr>trim_iid = i\<rparr>)) ps"

text \<open>The loop over the peers, with the number of those that are left.\<close>

fun replica_submit_loop :: "msgpack \<Rightarrow> cbuf \<Rightarrow> int \<Rightarrow> nat \<Rightarrow> int \<Rightarrow> 's peers \<Rightarrow> 's peers option" where
  "replica_submit_loop mp value n 0 i ps = Some ps"
| "replica_submit_loop mp value n (Suc k) i ps = do {
     found \<leftarrow> peers_get_acceptor ps i;
     p \<leftarrow> found;
     connected \<leftarrow> peer_connected ps p;
     if connected then peer_write (\<lambda>bev. paxos_submit mp bev value n) p ps
     else replica_submit_loop mp value n k (i + 1) ps
   }"

definition evpaxos_replica_submit :: "msgpack \<Rightarrow> 's peers \<Rightarrow> cbuf \<Rightarrow> int \<Rightarrow> 's peers option" where
  "evpaxos_replica_submit mp ps value n = replica_submit_loop mp value n (nat (peers_count ps)) 0 ps"

definition evpaxos_replica_count :: "'s peers \<Rightarrow> int" where
  "evpaxos_replica_count ps = peers_count ps"

section \<open>What the replica does\<close>

definition replica_subs :: "process subscription list" where
  "replica_subs = map (\<lambda>(t, cb). \<lparr>sub_type = t, sub_callback = cb\<rparr>)
     [(0, prepare_cb), (2, accept_cb), (5, repeat_cb), (6, trim_cb), (1, promise_cb), (3, accepted_cb),
      (4, preempted_cb), (8, client_value_cb), (7, acceptor_state_cb), (3, learner_accepted_cb)]"

lemma peers_subscribe_Some [simp]:
  "peers_subscribe ps t cb = Some ps' \<longleftrightarrow> length (ps_subs ps) < 32 \<and>
    ps' = ps\<lparr>ps_subs := ps_subs ps @ [\<lparr>sub_type = t, sub_callback = cb\<rparr>]\<rparr>"
  by (auto simp: peers_subscribe_def bind_eq_Some_conv)

lemma connect_loop_subs: "connect_loop inet_addr n i ps = Some ps' \<Longrightarrow> ps_subs ps' = ps_subs ps"
proof (induction n arbitrary: i ps)
  case (Suc n)
  then obtain a ps1 where "peers_connect ps i a = Some ps1" "connect_loop inet_addr n (i + 1) ps1 = Some ps'"
    by (auto simp: bind_eq_Some_conv)
  moreover from this(1) have "ps_subs ps1 = ps_subs ps"
    by (auto simp: peers_connect_def make_peer_def connect_peer_def bind_eq_Some_conv Let_def)
  ultimately show ?case using Suc.IH by simp
qed simp

lemma replica_init_subs:
  assumes "evpaxos_replica_init inet_addr f bound cb now freed cfg i = Some (Some (ps, r))"
  shows "ps_subs ps = replica_subs" "pr_replica r" "pr_callback r = cb" "pr_learner r \<noteq> None"
proof -
  obtain cfg' c ps1 node1 node2 ps3 where run: "evpaxos_config_read f cfg = Some (Some c, cfg')"
    "peers_connect_to_acceptors inet_addr (peers_new c) = Some (ps1 :: process peers)"
    "evacceptor_init_internal cfg' i (ps1, new_process now freed True cb) = Some node1"
    "evproposer_init_role cfg' c i node1 = Some node2" "evlearner_init_internal cfg' c node2 = Some (ps3, r)"
    "ps_subs ps = ps_subs ps3"
    using assms by (auto simp: evpaxos_replica_init_def bind_eq_Some_conv peers_listen_def split: if_splits)
  have "ps_subs ps1 = []" using run(2) connect_loop_subs by (fastforce simp: peers_connect_to_acceptors_def peers_new_def)
  then have n1: "ps_subs (fst node1) = take 4 replica_subs" "pr_replica (snd node1)" "pr_callback (snd node1) = cb"
    using run(3) by (auto simp: evacceptor_init_internal_def bind_eq_Some_conv replica_subs_def new_process_def)
  then have n2: "ps_subs (fst node2) = take 9 replica_subs" "pr_replica (snd node2)" "pr_callback (snd node2) = cb"
    using run(4) by (auto simp: case_prod_unfold evproposer_init_role_def bind_eq_Some_conv replica_subs_def)
  then show "ps_subs ps = replica_subs" "pr_replica r" "pr_callback r = cb" "pr_learner r \<noteq> None"
    using run(5,6) by (auto simp: case_prod_unfold evlearner_init_internal_def bind_eq_Some_conv replica_subs_def)
qed

text \<open>A vote goes to the proposer and then to the learner of a replica.\<close>

lemma replica_dispatch_accepted:
  "dispatch_message replica_subs p (Some (PAXOS_ACCEPTED m)) r =
    do { r \<leftarrow> accepted_cb p (PAXOS_ACCEPTED m) r; learner_accepted_cb p (PAXOS_ACCEPTED m) r }"
  by (simp add: replica_subs_def cong: Option.bind_cong)

lemma set_instance_id_next:
  assumes "proposer_set_instance_id st i = Some st'"
  shows "i \<le> p_next_prepare_iid st'" "p_next_prepare_iid st \<le> p_next_prepare_iid st'"
  using assms by (auto simp: proposer_set_instance_id_def bind_eq_Some_conv Let_def split: if_splits)

lemma on_delivered_replica:
  assumes "on_delivered ds r = Some r'" "pr_replica r" "pr_proposer r = Some e"
  shows "\<exists>e'. pr_proposer r' = Some e' \<and> (\<forall>d \<in> set ds. fst d \<le> p_next_prepare_iid (ep_state e')) \<and>
    p_next_prepare_iid (ep_state e) \<le> p_next_prepare_iid (ep_state e') \<and> pr_learner r' = pr_learner r \<and>
    pr_delivered r' = pr_delivered r @ (if pr_callback r then ds else [])"
  using assms
proof (induction ds arbitrary: r e)
  case (Cons d ds)
  then obtain st r1 where st: "proposer_set_instance_id (ep_state e) (fst d) = Some st"
    "r1 = (if pr_callback r then r\<lparr>pr_proposer := Some (e\<lparr>ep_state := st\<rparr>), pr_delivered := pr_delivered r @ [d]\<rparr>
      else r\<lparr>pr_proposer := Some (e\<lparr>ep_state := st\<rparr>)\<rparr>)" "on_delivered ds r1 = Some r'"
    by (auto simp: bind_eq_Some_conv evproposer_set_instance_id_def evpaxos_replica_deliver_def Let_def split: if_splits)
  have "pr_replica r1" "pr_proposer r1 = Some (e\<lparr>ep_state := st\<rparr>)" "pr_callback r1 = pr_callback r"
    "pr_learner r1 = pr_learner r" "pr_delivered r1 = pr_delivered r @ (if pr_callback r then [d] else [])"
    using st(2) Cons.prems(2) by simp_all
  with Cons.IH [OF st(3)] set_instance_id_next [OF st(1)] show ?case by force
qed simp

lemma replica_delivers:
  assumes "dispatch_message replica_subs p (Some (PAXOS_ACCEPTED m)) r = Some r'" "pr_replica r"
    "pr_learner r = Some l" "evlearner_handle_accepted (pr_freed r) l m = Some (l', ds)"
  shows "\<exists>e. pr_proposer r' = Some e \<and> (\<forall>d \<in> set ds. fst d \<le> p_next_prepare_iid (ep_state e)) \<and>
    pr_learner r' = Some l' \<and> pr_delivered r' = pr_delivered r @ (if pr_callback r then ds else [])"
proof -
  obtain r1 where r1: "accepted_cb p (PAXOS_ACCEPTED m) r = Some r1" "learner_accepted_cb p (PAXOS_ACCEPTED m) r1 = Some r'"
    using assms(1) by (auto simp: replica_dispatch_accepted bind_eq_Some_conv)
  obtain e1 where e1: "pr_proposer r1 = Some e1" "pr_replica r1" "pr_delivered r1 = pr_delivered r"
    "pr_learner r1 = Some l" "pr_freed r1 = pr_freed r" "pr_callback r1 = pr_callback r"
    using r1(1) assms(2,3) by (auto simp: on_proposer_def bind_eq_Some_conv)
  have "on_delivered ds (r1\<lparr>pr_learner := Some l'\<rparr>) = Some r'"
    using r1(2) assms(4) e1(4,5) by (simp add: bind_eq_Some_conv)
  from on_delivered_replica [OF this, of e1] e1 show ?thesis by auto
qed

text \<open>A submitted value is written to the first connected peer only, and to none if none is connected.\<close>

lemma replica_submit_loop_spec:
  assumes "peers_inv ps" "ps_peers ps = pre @ qs"
  shows "replica_submit_loop mp value n (length qs) (int (length pre)) ps =
    (case find (\<lambda>p. peer_connected ps p = Some True) qs of None \<Rightarrow> Some ps
     | Some p \<Rightarrow> peer_write (\<lambda>bev. paxos_submit mp bev value n) p ps)"
  using assms(2)
proof (induction qs arbitrary: pre)
  case (Cons q qs)
  have "peers_get_acceptor ps (int (length pre)) = Some (Some q)"
    using peers_get_acceptor_spec [OF assms(1), of "int (length pre)"] Cons.prems by (simp add: peers_count_def nth_append)
  moreover obtain peer where "ps_store ps q = Some peer"
    using numbered_set [of "ps_store ps" "ps_peers ps" q] assms(1) Cons.prems by (auto simp: peers_inv_def)
  moreover have "replica_submit_loop mp value n (length qs) (int (length pre) + 1) ps =
      (case find (\<lambda>p. peer_connected ps p = Some True) qs of None \<Rightarrow> Some ps
       | Some p \<Rightarrow> peer_write (\<lambda>bev. paxos_submit mp bev value n) p ps)"
    using Cons.IH [of "pre @ [q]"] Cons.prems by (simp add: add.commute)
  ultimately show ?case by (simp add: peer_connected_def)
qed simp

lemma replica_submit:
  assumes "peers_inv ps"
  shows "evpaxos_replica_submit mp ps value n =
    (case find (\<lambda>p. peer_connected ps p = Some True) (ps_peers ps) of None \<Rightarrow> Some ps
     | Some p \<Rightarrow> peer_write (\<lambda>bev. paxos_submit mp bev value n) p ps)"
  using replica_submit_loop_spec [OF assms, of "[]" "ps_peers ps"]
  by (simp add: evpaxos_replica_submit_def peers_count_def)

lemma replica_submit_value:
  assumes "peers_inv ps" "length v < 2 ^ 31"
  shows "evpaxos_replica_submit mp ps (Some v) (int (length v)) =
    Some (case find (\<lambda>p. peer_connected ps p = Some True) (ps_peers ps) of None \<Rightarrow> ps
      | Some p \<Rightarrow> ps\<lparr>ps_store := (ps_store ps)(p := map_option (\<lambda>peer. peer\<lparr>peer_bev :=
          peer_bev peer @ message_bytes mp (PAXOS_CLIENT_VALUE \<lparr>client_value = value_of_bytes v\<rparr>)\<rparr>) (ps_store ps p))\<rparr>)"
proof -
  have send: "paxos_submit mp bev (Some v) (int (length v)) =
      Some (bev @ message_bytes mp (PAXOS_CLIENT_VALUE \<lparr>client_value = value_of_bytes v\<rparr>))" for bev
    using send_bytes [of "PAXOS_CLIENT_VALUE \<lparr>client_value = value_of_bytes v\<rparr>" mp bev] value_wf_of_bytes [OF assms(2)]
    by (simp add: paxos_submit_def value_of_bytes_def)
  have "peer_write (\<lambda>bev. paxos_submit mp bev (Some v) (int (length v))) p ps =
      Some (ps\<lparr>ps_store := (ps_store ps)(p := map_option (\<lambda>peer. peer\<lparr>peer_bev :=
          peer_bev peer @ message_bytes mp (PAXOS_CLIENT_VALUE \<lparr>client_value = value_of_bytes v\<rparr>)\<rparr>) (ps_store ps p))\<rparr>)"
    if "find (\<lambda>p. peer_connected ps p = Some True) (ps_peers ps) = Some p" for p
    using that by (auto simp: find_Some_iff peer_write_def send peer_connected_def bind_eq_Some_conv)
  then show ?thesis by (simp add: replica_submit [OF assms(1)] split: option.split)
qed

text \<open>A replica starts when its file is accepted, its number is that of an acceptor and the port is free.\<close>

lemma replica_init_starts:
  assumes read: "evpaxos_config_read f cfg = Some (Some c, cfg')" and i: "0 \<le> i" "i < evpaxos_acceptor_count c"
    and a: "acceptor_new cfg' i = Some (Some a)" and e: "evproposer_init_internal cfg' i (evpaxos_acceptor_count c) = Some e"
  shows "\<exists>ps. evpaxos_replica_init inet_addr f True cb now freed cfg i = Some (Some (ps, (new_process now freed True cb)\<lparr>pr_acceptor := Some a,
    pr_proposer := Some e, pr_learner := Some (learner_new cfg' (evpaxos_acceptor_count c))\<rparr>))"
proof -
  have ok: "config_ok c" by (rule config_read_ok [OF read])
  obtain ps where ps: "peers_connect_to_acceptors inet_addr (peers_new c :: process peers) = Some ps"
    using connect_to_acceptors [OF ok] by blast
  have subs: "ps_subs ps = []" using ps connect_loop_subs by (fastforce simp: peers_connect_to_acceptors_def peers_new_def)
  obtain q where q: "evpaxos_acceptor_listen_port c i = Some q" using acceptor_address_ok [OF ok i]
    by (cases "array_read_int (acceptors c) i") (simp_all add: evpaxos_acceptor_address_def evpaxos_acceptor_listen_port_def)
  show ?thesis
    by (simp add: evpaxos_replica_init_def read ps evacceptor_init_internal_def a evproposer_init_role_def e
      evlearner_init_internal_def peers_subscribe_def subs q peers_listen_def case_prod_unfold new_process_def)
qed

end
