(* ===== verification/Spec2Isabelle.thy ===== *)
theory Spec2Isabelle
  imports Paxos_Run Msgpack_Format Lmdb_Instance Net_Paxos Evreplica
begin

text \<open>
  A verification development of libpaxos, a C library for Multi-Paxos.

  \<^bold>\<open>The program.\<close> Clients submit values; proposers get an instance number for each of them and run the two
  phases of Paxos with the acceptors; learners collect the votes and deliver one value per instance,
  in order. The protocol logic is in \<open>src/paxos\<close> and does no input or output: a caller hands a message to
  \<open>acceptor.c\<close>, \<open>proposer.c\<close> or \<open>learner.c\<close> and sends what it returns. Two libraries are such callers:
  \<open>src/evpaxos\<close> runs the roles over streams with libevent, and \<open>src/net\<close> over datagrams, with a
  coordinator or a sequencer in place of the proposer. An acceptor keeps its records in a backend behind
  the table of functions of \<open>storage.h\<close>: in memory or in LMDB.

  \<^bold>\<open>Faults.\<close> A function of the model that can meet undefined behaviour, a failed \<open>assert\<close> or an endless
  loop is a function into \<^typ>\<open>'a option\<close>, and \<^term>\<open>None\<close> is that fault; a lemma that a call is \<^term>\<open>Some\<close> of
  something says that it returns and is memory safe. One fault is not \<^term>\<open>None\<close>, because every delivery meets it:
  \<open>learner_deliver_next\<close> reads a number from an instance that it has just freed, and the model goes on with any number
  (the parameter \<open>freed\<close>). Numbers have the width of the C types.

  \<^bold>\<open>The theories.\<close>
  \<^item> \<open>Paxos_Prelude\<close>: arrays and memory with bounds, \<open>refines\<close>, lemmas on lists, options and words.
    \<open>Paxos_Types\<close>: \<open>paxos_types.h\<close>, \<open>paxos.h\<close>, \<open>paxos.c\<close>.
  \<^item> \<open>Khash_Probe\<close>, \<open>Khash\<close>, \<open>Khash_Map\<close>: the hash table of \<open>khash.h\<close>, down to its packed flags, probing
    and rehashing in place. The locale \<open>iid_table\<close> is its contract, a finite map with iterators.
  \<^item> \<open>Carray\<close>, \<open>Quorum\<close>: the circular array of \<open>carray.c\<close> with the contract \<open>ptr_queue\<close>, and the counters of
    \<open>quorum.c\<close>.
  \<^item> \<open>Storage\<close>, \<open>Storage_Mem\<close>, \<open>Storage_Lmdb\<close>, \<open>Lmdb_Instance\<close>: \<open>storage.c\<close>, \<open>storage_mem.c\<close>, \<open>storage_lmdb.c\<close>
    and \<open>storage_utils.c\<close>. The locale \<open>storage_contract\<close> is what an acceptor needs; both backends satisfy
    it, LMDB under the laws \<open>mdb_law\<close> and \<open>mdb_open_law\<close> of the library. \<open>Lmdb_Instance\<close> has a small
    implementation of the library for which the laws hold.
  \<^item> \<open>Acceptor\<close>: \<open>acceptor.c\<close> over any backend, with an abstract acceptor (a map from instances to records and
    a trim point) that it implements.
  \<^item> \<open>Proposer\<close>, \<open>Proposer_Spec\<close>: \<open>proposer.c\<close>, and the abstract proposer that it implements.
  \<^item> \<open>Learner\<close>, \<open>Learner_Spec\<close>: \<open>learner.c\<close> with its gaps, and the invariant of its instances.
  \<^item> \<open>Evpaxos\<close>: the handlers of \<open>evacceptor.c\<close>, \<open>evproposer.c\<close> and \<open>evlearner.c\<close>. A handler returns the new
    state and the messages it sends with their destinations.
  \<^item> \<open>Paxos_Safety\<close>, \<open>Proposer_Safety\<close>, \<open>Evproposer_Safety\<close>, \<open>Evacceptor_Safety\<close>: the invariant of the
    protocol over the set of all messages sent, and that each handler keeps it.
  \<^item> \<open>Paxos_System\<close>, \<open>Paxos_Run\<close>: a system of all processes over an unreliable network as a step relation,
    and its execution on concrete schedules.
  \<^item> \<open>Ev_Message\<close>, \<open>Msgpack_Format\<close>: \<open>paxos_types_pack.c\<close> and \<open>message.c\<close> over the MessagePack library, a
    parameter with the laws \<open>msgpack_law\<close>, and an instance of it.
  \<^item> \<open>Config\<close>, \<open>Peers\<close>, \<open>Evreplica\<close>: \<open>config.c\<close> with the C string functions that it uses, \<open>peers.c\<close> with a
    store of peer objects, and the \<open>init\<close> functions of the processes with \<open>evreplica.c\<close>.
  \<^item> \<open>Net_Message\<close>, \<open>Net_Paxos\<close>: the format of the datagrams in \<open>message_pack.c\<close>, and the processes of
    \<open>src/net\<close>.

  \<^bold>\<open>What is shown.\<close> For the whole system: agreement, validity, total order and that no handler faults (C1 to
  C4). They are about \<open>strict\<close> runs: clients submit no empty value, and acceptors repeat no record whose
  ballot a later promise raised. The code ensures neither, and both are needed: C5 and C6 are runs in
  which two learners deliver different values, one because of a repeated record, which carries the ballot of
  the last promise and not that of the vote, the other because of an empty value, which the proposer takes for no
  value. For the roles: every operation implements an abstract one, on
  every branch, and loops end (C7 to C22). For the libraries around them (C23 to C34): both backends give
  the same answers, and with LMDB restarts between requests change no answer, nor do crashes if
  \<open>lmdb_sync\<close> is on; messages survive any cutting of the stream;
  the acceptor and the coordinator over datagrams act on the messages that they handle as the processes over streams
  do, and the statements list what they handle differently or not at all: refusals, trimming and states of acceptors;
  the sequencer, the replica, the array of clients and
  the parser of the configuration keep what their callers rely on. For the containers: hash table, queue,
  quorum counters and the store (C35 to C40).

  \<^bold>\<open>Bounds.\<close> \<open>kh_room\<close> and \<open>acceptor_room\<close> say that a hash table holds fewer than \<open>2 ^ 30\<close> entries, \<open>carray_room\<close> that
  a queue need not grow over \<open>2 ^ 30\<close> slots, and \<open>evprop_room\<close> that the instances and values of a proposer are
  fewer than \<open>2 ^ 29\<close> and its instance numbers do not wrap around. They are guards of the steps: beyond them the
  C code overflows its counters. A handler that does not return makes no step; C4 says when the handlers return.
  Acceptor ids in messages have 16 bits, hence \<open>n \<le> 65536\<close>. Ballots in messages have
  16 bits and are truncated where the code truncates them; the theorems about the system cover this. The
  only fuel is the depth of the mutual recursion of \<open>carray_push_back\<close> and \<open>carray_grow\<close>: two, which is always
  enough (\<open>carray_push_depth\<close>). Every other loop is structural, or a \<open>partial_function\<close>: not returning is \<^term>\<open>None\<close>,
  and the theorems about the code that runs it show that it returns.

  \<^bold>\<open>Assumptions.\<close> \<open>malloc\<close>, \<open>sendto\<close> and the calls to libevent succeed; the host is little-endian with pointers
  of 64 bits. A proposer does not start again with its old number, because it would use its old ballots for
  new values. In the system, acceptors use the store in memory and do not lose it. The two
  backends have handles of different types: \<open>storage_init\<close> chooses as a build without LMDB does, and the case that a
  build with LMDB adds is \<open>storage_init_lmdb\<close>.
  Libraries that are not part of the repository are parameters; what is assumed about them is
  stated in \<open>msgpack_law\<close>, \<open>mdb_law\<close> and \<open>mdb_open_law\<close> only. \<open>inet_addr\<close> and the file system are parameters
  without assumptions in \<open>Config\<close>. So is \<open>freed\<close>.

  \<^bold>\<open>Not modelled.\<close> Log messages and the release of memory, except for the objects of peers and for the learner
  instance that is read after its release. Event
  registration, timers and signals: a handler is run when its event happens. \<open>learner_check_holes\<close> of
  \<open>src/net/learner.c\<close>: it sends through pointers to a stack object that is out of scope, so that what it sends is
  not determined by the source. The programs in \<open>caans\<close>, \<open>sample\<close>, \<open>benchmark\<close>, \<open>leveldb-bench\<close> and
  \<open>udp_server\<close>: command lines, sockets and databases around the two libraries. \<open>dppaxos\<close> and \<open>p4xos\<close>:
  packet processing inside DPDK, whose buffers and cores decide what runs. \<open>datastore\<close> and
  \<open>rockspaxos\<close>: set-up of RocksDB. The unit tests and the scripts.
\<close>

section \<open>The whole system\<close>

text \<open>C1. Agreement: in every state that a run reaches, whatever messages were lost, repeated, delayed or
  reordered and wherever learners and proposers were moved by the application, two learners that
  delivered a value for the same instance delivered the same bytes. There are at most 65536 acceptors, and
  the runs are strict: clients submit no empty value, and acceptors repeat no record under a ballot of a
  later promise.\<close>

theorem agreement:
  assumes "reachable n cfg True s" "n \<le> 65536"
    and "(k, v, l) \<in> set (sys_log s i)" "(k, v', l') \<in> set (sys_log s j)"
  shows "v = v' \<and> l = l'"
  using delivered_agree [OF reachable_inv [OF assms(1,2)] assms(3,4)] .

theorem agreement_witness:
  "\<exists>s v v'. reachable 1 run_cfg True s \<and> (1, v, 1) \<in> set (sys_log s 0) \<and> (1, v', 1) \<in> set (sys_log s 1) \<and> v = v'"
proof -
  obtain s where s: "reachable 1 run_cfg True s" "sys_log s 0 = [(1, Some [7], 1)]" "sys_log s 1 = [(1, Some [7], 1)]"
    by (rule run_deliver_state)
  then show ?thesis using agreement [OF s(1), of 1 "Some [7]" 1 0 "Some [7]" 1 1] by auto
qed

text \<open>C2. Validity: in every state that a strict run reaches, what a learner delivers is a value that some
  client submitted, with all its bytes and its length. Strict runs have clients that submit no empty
  value, and acceptors that repeat no record under a ballot of a later promise.\<close>

theorem validity:
  assumes "reachable n cfg True s" "n \<le> 65536" "(k, v, l) \<in> set (sys_log s i)"
  shows "\<exists>bs \<in> sys_values s. v = Some bs \<and> l = int (length bs)"
proof -
  obtain r where r: "(k, v, l) = delivery_of r" "ok_value (sys_values s) (pvalue r)"
    using reachable_inv [OF assms(1,2)] assms(3) by (rule delivered_chosen)
  have eq: "pvalue r = value_of_bytes (value_bytes (pvalue r))" using ok_value_bytes [OF r(2)] by simp
  have "value_bytes (pvalue r) \<in> sys_values s" using r(2) by (simp add: ok_value_def)
  moreover have "v = Some (value_bytes (pvalue r))" "l = int (length (value_bytes (pvalue r)))"
    using r(1) arg_cong [OF eq, of paxos_value_val] arg_cong [OF eq, of paxos_value_len]
    by (simp_all add: delivery_of_def value_of_bytes_def)
  ultimately show ?thesis by blast
qed

theorem validity_witness:
  "\<exists>s. reachable 1 run_cfg True s \<and> (1, Some [7], 1) \<in> set (sys_log s 0) \<and> (\<exists>bs \<in> sys_values s. Some [7] = Some bs)"
proof -
  obtain s where s: "reachable 1 run_cfg True s" "sys_log s 0 = [(1, Some [7], 1)]" by (rule run_deliver_state)
  then show ?thesis using validity [OF s(1), of 1 "Some [7]" 1 0] by auto
qed

text \<open>C3. Total order: in every state that a strict run reaches, with catch-up, take two learners that the
  application did not move with \<open>evlearner_set_instance_id\<close>. The log of the one that delivered less is a
  prefix of the log of the other, and each log has the instances 1, 2, 3 and so on, without gaps.\<close>

theorem total_order:
  assumes "reachable n cfg True s" "n \<le> 65536" "learner_catch_up cfg \<noteq> 0" "i \<notin> sys_moved s" "j \<notin> sys_moved s"
  shows "(length (sys_log s i) \<le> length (sys_log s j) \<longrightarrow>
      sys_log s i = take (length (sys_log s i)) (sys_log s j)) \<and>
    map fst (sys_log s i) = map (\<lambda>k. 1 + of_nat k) [0..<length (sys_log s i)]"
proof
  note inv = reachable_inv [OF assms(1,2)]
  show "length (sys_log s i) \<le> length (sys_log s j) \<longrightarrow> sys_log s i = take (length (sys_log s i)) (sys_log s j)"
    using logs_prefix [OF inv assms(3-5)] by blast
  show "map fst (sys_log s i) = map (\<lambda>k. 1 + of_nat k) [0..<length (sys_log s i)]"
    by (rule nth_equalityI) (use delivered_in_order [OF inv assms(3,4)] in simp_all)
qed

theorem total_order_witness:
  "\<exists>s. reachable 1 run_cfg True s \<and> sys_log s 0 = [(1, Some [7], 1)] \<and>
    sys_log s 0 = take (length (sys_log s 0)) (sys_log s 1) \<and> map fst (sys_log s 0) = [1]"
proof -
  obtain s where s: "reachable 1 run_cfg True s" "sys_log s 0 = [(1, Some [7], 1)]" "sys_log s 1 = [(1, Some [7], 1)]"
    "sys_moved s = {}" by (rule run_deliver_state)
  have "learner_catch_up run_cfg \<noteq> 0" by (simp add: run_cfg_def default_config_def)
  from total_order [OF s(1) _ this, of 0 1] s show ?thesis by auto
qed

text \<open>C4. The handlers return: in every state that a strict run reaches, each handler, called with a message
  of the network, returns without a failed assertion, an access outside an array or an endless loop. This
  holds while the containers of the process have room, whatever is read from a freed learner instance. A
  repeat request is answered exactly if it does not end at the largest instance number, whether or not
  its records were raised by later promises; the timeout handler returns if the timeout is positive.\<close>

theorem handlers_return:
  assumes "reachable n cfg True s" "n \<le> 65536"
  shows "let A = sys_acceptors s i; P = sys_proposers s i; L = sys_learners s i; M = sys_net s in
    (i < n \<longrightarrow>
      (acceptor_room A \<longrightarrow> evacceptor_handle_prepare A r \<noteq> None) \<and>
      (acceptor_room A \<longrightarrow> PAXOS_ACCEPT r \<in> M \<longrightarrow> evacceptor_handle_accept A r \<noteq> None) \<and>
      (evacceptor_handle_repeat A rep \<noteq> None \<longleftrightarrow> repeat_to rep \<noteq> - 1) \<and>
      evacceptor_handle_trim A t \<noteq> None) \<and>
    (i < MAX_N_OF_PROPOSERS \<longrightarrow> evprop_room P \<longrightarrow>
      (PAXOS_PROMISE r \<in> M \<longrightarrow> evproposer_handle_promise now P r \<noteq> None) \<and>
      (PAXOS_ACCEPTED r \<in> M \<longrightarrow> evproposer_handle_accepted now P r \<noteq> None) \<and>
      evproposer_handle_preempted now P r \<noteq> None \<and>
      (PAXOS_CLIENT_VALUE v \<in> M \<longrightarrow> evproposer_handle_client_value now P v \<noteq> None) \<and>
      evproposer_handle_acceptor_state P st \<noteq> None \<and>
      (0 < proposer_timeout cfg \<longrightarrow> evproposer_check_timeouts cfg (now 0) P \<noteq> None) \<and>
      evproposer_preexec_once now P \<noteq> None \<and> evproposer_set_instance_id P k \<noteq> None) \<and>
    (kh_room (l_instances L) \<longrightarrow> PAXOS_ACCEPTED r \<in> M \<longrightarrow> evlearner_handle_accepted freed L r \<noteq> None)"
  unfolding Let_def
  by (intro conjI impI; rule acceptor_handlers_return [OF assms] proposer_handlers_return [OF assms]
    learner_handlers_return [OF assms]; assumption)

theorem handlers_return_witness:
  "\<exists>s. reachable 1 run_cfg True s \<and> evacceptor_handle_trim (sys_acceptors s 0) \<lparr>trim_iid = 1\<rparr> \<noteq> None \<and>
    evacceptor_handle_repeat (sys_acceptors s 0) \<lparr>repeat_from = 1, repeat_to = 3\<rparr> \<noteq> None \<and>
    evacceptor_handle_repeat (sys_acceptors s 0) \<lparr>repeat_from = 1, repeat_to = - 1\<rparr> = None"
proof -
  obtain s where s: "reachable 1 run_cfg True s" by (rule run_deliver_state)
  have n: "1 \<le> (65536 :: nat)" by simp
  have "(evacceptor_handle_repeat (sys_acceptors s 0) rep \<noteq> None \<longleftrightarrow> repeat_to rep \<noteq> - 1) \<and>
      evacceptor_handle_trim (sys_acceptors s 0) t \<noteq> None" for rep t
    using handlers_return [unfolded Let_def, OF s n, THEN conjunct1, of 0 zero_record rep t] by simp
  from this [of "\<lparr>repeat_from = 1, repeat_to = 3\<rparr>" "\<lparr>trim_iid = 1\<rparr>"] this [of "\<lparr>repeat_from = 1, repeat_to = - 1\<rparr>"]
  show ?thesis using s by (intro exI [of _ s] conjI) (simp_all del: not_None_eq)
qed

text \<open>C5. Repeating a record under the ballot of a later promise breaks agreement: if acceptors answer
  every repeat request, as \<open>evacceptor.c\<close> does, a system of three acceptors and two proposers
  reaches a state in which two learners delivered different values for instance 1.\<close>

theorem repeat_breaks_agreement:
  "\<exists>s. reachable 3 run_cfg False s \<and> [] \<notin> sys_values s \<and>
    (1, Some [7], 1) \<in> set (sys_log s 0) \<and> (1, Some [9], 1) \<in> set (sys_log s 1)"
proof -
  obtain s ms where "acts 3 False (run_phase1 @ run_phase2 @ run_phase3) (run_init 3, []) = Some (s, ms)"
    "sys_log s 0 = [(1, Some [7], 1), (2, Some [9], 1)]" "sys_log s 1 = [(1, Some [9], 1)]" "sys_values s = {[9], [7]}"
    using run_repeat_log by blast
  then show ?thesis using run_reachable [of 3 False] by (intro exI [of _ s]) auto
qed

text \<open>C6. An empty client value breaks agreement, without any repeat request: the proposer takes a promise
  that reports a vote for a value of length 0 for one that reports no vote, and proposes another value
  for the instance. A system of one acceptor and two proposers reaches a state in which one learner
  delivered the empty value for instance 1 and another learner delivered another value.\<close>

theorem empty_value_breaks_agreement:
  "\<exists>s. reachable 1 run_cfg False s \<and> (\<forall>r. PAXOS_REPEAT r \<notin> sys_net s) \<and>
    (1, None, 0) \<in> set (sys_log s 0) \<and> (1, Some [9], 1) \<in> set (sys_log s 1)"
proof -
  obtain s ms where "acts 1 False run_empty (run_init 1, []) = Some (s, ms)" "sys_log s 0 = [(1, None, 0)]"
    "sys_log s 1 = [(1, Some [9], 1)]" "\<forall>r. PAXOS_REPEAT r \<notin> sys_net s"
    using run_empty_log by blast
  then show ?thesis using run_reachable [of 1 False run_empty] by (intro exI [of _ s]) auto
qed

section \<open>The acceptor\<close>

text \<open>C7. A prepare request: the acceptor ignores a trimmed instance; otherwise it answers with a
  promise that reports its record, raised to the ballot of the request when that is not lower, and
  stores what it reports.\<close>

theorem acceptor_prepare_refines:
  "mem_acc_inv i a \<Longrightarrow> acceptor_room a \<Longrightarrow>
    refines mem_acc_abs (mem_acc_inv i) (acceptor_receive_prepare a req) (spec_prepare i (mem_acc_abs a) req)"
  by (rule mem_prepare_refines)

theorem acceptor_prepare_refines_witness:
  "\<exists>a a'. acceptor_new default_config 0 = Some (Some a) \<and>
    acceptor_receive_prepare a (zero_record\<lparr>iid := 1, ballot := 10\<rparr>) = Some (a', Some (PAXOS_PROMISE (zero_record\<lparr>iid := 1, ballot := 10\<rparr>)))"
proof -
  obtain a where a: "acceptor_new default_config 0 = Some (Some a)" "mem_acc_inv 0 a" "mem_acc_abs a = (Map.empty, 0)"
    "acceptor_room a" by (rule fresh_acceptor)
  from acceptor_prepare_refines [OF a(2,4), of "zero_record\<lparr>iid := 1, ballot := 10\<rparr>"] show ?thesis
    using a(1,3) by (auto simp: refines_def spec_prepare_def prepared_def zero_record_def Let_def)
qed

text \<open>C8. An accept request: the acceptor votes exactly when the instance is not trimmed and it
  promised no higher ballot; it stores the vote it sends, and answers a lower ballot with the ballot
  it promised.\<close>

theorem acceptor_accept_refines:
  "mem_acc_inv i a \<Longrightarrow> acceptor_room a \<Longrightarrow> value_wf (pvalue req) \<Longrightarrow>
    refines mem_acc_abs (mem_acc_inv i) (acceptor_receive_accept a req) (spec_accept i (mem_acc_abs a) req)"
  by (rule mem_accept_refines)

theorem acceptor_accept_refines_witness:
  "\<exists>a a'. acceptor_new default_config 0 = Some (Some a) \<and>
    acceptor_receive_accept a (zero_record\<lparr>iid := 1, ballot := 10, pvalue := val_a\<rparr>) =
      Some (a', Some (PAXOS_ACCEPTED (zero_record\<lparr>iid := 1, ballot := 10, value_ballot := 10, pvalue := val_a\<rparr>)))"
proof -
  obtain a where a: "acceptor_new default_config 0 = Some (Some a)" "mem_acc_inv 0 a" "mem_acc_abs a = (Map.empty, 0)"
    "acceptor_room a" by (rule fresh_acceptor)
  have "value_wf (pvalue (zero_record\<lparr>iid := 1, ballot := 10, pvalue := val_a\<rparr>))" by (simp add: val_a_def value_eval)
  from acceptor_accept_refines [OF a(2,4) this] show ?thesis
    using a(1,3) by (auto simp: refines_def spec_accept_def may_vote_def vote_def value_copy_def zero_record_def val_a_def value_eval)
qed

text \<open>C9. A trim request above the trim point drops exactly the records up to the new trim point;
  one at or below it is refused.\<close>

theorem acceptor_trim_refines:
  "mem_acc_inv i a \<Longrightarrow> refines mem_acc_abs (mem_acc_inv i) (acceptor_receive_trim a t) (spec_trim (mem_acc_abs a) t)"
  by (rule mem_trim_refines)

theorem acceptor_trim_refines_witness:
  "\<exists>a a'. acceptor_new default_config 0 = Some (Some a) \<and>
    acceptor_receive_trim a \<lparr>trim_iid = 5\<rparr> = Some (a', True) \<and> a_trim_iid a' = 5"
proof -
  obtain a where a: "acceptor_new default_config 0 = Some (Some a)" "mem_acc_inv 0 a" "mem_acc_abs a = (Map.empty, 0)"
    by (rule fresh_acceptor)
  from acceptor_trim_refines [OF a(2), of "\<lparr>trim_iid = 5\<rparr>"] show ?thesis
    using a(1,3) by (auto simp: refines_def spec_trim_def acc_abs_def)
qed

text \<open>C10. The ballot an acceptor promised for an instance, and the ballot of its last vote there, never
  decrease under prepare and accept requests, as long as the votes it stores carry its promise.\<close>

theorem acceptor_ballots_monotone:
  assumes "mem_acc_inv i a" "acceptor_room a" "value_wf (pvalue req)" "fst (mem_acc_abs a) k = Some r"
    and "value_ballot r \<le> ballot r"
    and "acceptor_receive_prepare a req = Some (a', out) \<or> acceptor_receive_accept a req = Some (a', out)"
  shows "\<exists>r'. fst (mem_acc_abs a') k = Some r' \<and> ballot r \<le> ballot r' \<and> value_ballot r \<le> value_ballot r' \<and>
    value_ballot r' \<le> ballot r'"
  using assms(6)
proof
  assume "acceptor_receive_prepare a req = Some (a', out)"
  then have "(mem_acc_abs a', out) = spec_prepare i (mem_acc_abs a) req"
    using mem_prepare_refines [OF assms(1,2), of req] by (simp add: refines_def)
  then show ?thesis using assms(4,5)
    by (auto simp: spec_prepare_def prepared_def Let_def split: if_splits)
next
  assume "acceptor_receive_accept a req = Some (a', out)"
  then have "(mem_acc_abs a', out) = spec_accept i (mem_acc_abs a) req"
    using mem_accept_refines [OF assms(1-3)] by (simp add: refines_def)
  then show ?thesis using assms(4,5)
    by (auto simp: spec_accept_def vote_def may_vote_def split: if_splits)
qed

theorem acceptor_ballots_monotone_witness:
  "\<exists>a a' a'' out out' r'. acceptor_new default_config 0 = Some (Some a) \<and>
    acceptor_receive_prepare a (zero_record\<lparr>iid := 1, ballot := 10\<rparr>) = Some (a', out) \<and>
    acceptor_receive_prepare a' (zero_record\<lparr>iid := 1, ballot := 20\<rparr>) = Some (a'', out') \<and>
    fst (mem_acc_abs a'') 1 = Some r' \<and> 10 \<le> ballot r'"
proof -
  obtain a where a: "acceptor_new default_config 0 = Some (Some a)" "mem_acc_inv 0 a" "mem_acc_abs a = (Map.empty, 0)"
    "acceptor_room a" by (rule fresh_acceptor)
  let ?q = "\<lambda>b. zero_record\<lparr>iid := 1, ballot := b\<rparr>"
  obtain a' out where a': "acceptor_receive_prepare a (?q 10) = Some (a', out)" "mem_acc_inv 0 a'"
    "mem_acc_abs a' = ([1 \<mapsto> ?q 10], 0)"
    using mem_prepare_refines [OF a(2,4), of "?q 10"] a(3)
    by (auto simp: refines_def spec_prepare_def prepared_def zero_record_def Let_def)
  have room: "acceptor_room a'"
    using a'(2,3) by (auto simp: acceptor_room_def mem_room_def mem_acc_inv_def acc_inv_def mem_inv_def acc_abs_def
      mem_recs_def kh_room_dom)
  obtain a'' out' where a'': "acceptor_receive_prepare a' (?q 20) = Some (a'', out')"
    using mem_prepare_refines [OF a'(2) room, of "?q 20"] by (auto simp: refines_def)
  have "\<exists>r'. fst (mem_acc_abs a'') 1 = Some r' \<and> ballot (?q 10) \<le> ballot r' \<and>
    value_ballot (?q 10) \<le> value_ballot r' \<and> value_ballot r' \<le> ballot r'"
    by (rule acceptor_ballots_monotone [OF a'(2) room, of "?q 20" _ _ _ out'])
      (use a'(3) a'' in \<open>simp_all add: zero_record_def\<close>)
  then show ?thesis using a(1) a'(1) a'' by (auto simp: zero_record_def)
qed

section \<open>The proposer\<close>


text \<open>C11. A promise: the proposer counts it once per acceptor, adopts the accepted value of the highest
  ballot among the promises, ignores a promise of a lower ballot, and restarts the instance under its
  next ballot when the promise shows a higher one.\<close>

theorem proposer_promise_refines:
  assumes "prop_repr p" "spec_inv n W (prop_abs p)" "unat (aid ack) < n" "value_wf (pvalue ack)"
  shows "refines prop_abs prop_repr (proposer_receive_promise p ack now) (spec_promise (prop_abs p) ack now)"
  using assms by (rule proposer_receive_promise_refines)

theorem proposer_promise_refines_witness:
  "\<exists>p p' pr p'' inst. proposer_new 0 1 = Some p \<and> proposer_prepare p (run_clock 0) = Some (p', pr) \<and>
    proposer_receive_promise p' (zero_record\<lparr>iid := 1, ballot := 10\<rparr>) (run_clock 0) = Some (p'', None) \<and>
    s_prep (prop_abs p'') 1 = Some inst \<and> quorum_reached (i_quorum inst)"
proof -
  obtain p p' where p: "proposer_new 0 1 = Some p" "proposer_prepare p (run_clock 0) = Some (p', zero_record\<lparr>iid := 1, ballot := 10\<rparr>)"
    "prop_repr p'" "spec_inv 1 {} (prop_abs p')"
    and ab: "prop_abs p' = run_prepared"
    by (rule prepared_proposer)
  from proposer_promise_refines [OF p(3,4), of "zero_record\<lparr>iid := 1, ballot := 10\<rparr>" "run_clock 0"] show ?thesis
    using p(1,2) unfolding ab refines_def run_prepared_def
    by (auto simp: buf_len_def quorum_set_def spec_promise_def promise_inst_def zero_record_def no_value_def value_wf_def quorum_with_def
      quorum_add_def quorum_init_def quorum_clear_def paxos_quorum_numerals quorum_reached_def array_read_int_def
      array_read_def array_write_int_def array_write_def Let_def simp del: prop_abs_simps)
qed

text \<open>C12. Phase two starts for the smallest prepared instance only, once a quorum promised it and
  there is a value to propose: the value of the highest promised ballot when there is one, and else
  the instance's own value or the oldest waiting client value.\<close>

theorem proposer_accept_implements:
  assumes "prop_repr p" "prop_room p" "spec_inv n W (prop_abs p)"
  shows "refines prop_abs prop_repr (proposer_accept p) (spec_paccept (prop_abs p))"
  using assms by (rule proposer_accept_refines)

theorem proposer_accept_implements_witness:
  "\<exists>p p' pr p''. proposer_new 0 1 = Some p \<and> proposer_prepare p (run_clock 0) = Some (p', pr) \<and>
    proposer_accept p' = Some (p'', None) \<and> prop_abs p'' = prop_abs p'"
proof -
  obtain p p' where p: "proposer_new 0 1 = Some p" "proposer_prepare p (run_clock 0) = Some (p', zero_record\<lparr>iid := 1, ballot := 10\<rparr>)"
    "prop_repr p'" "prop_room p'" "spec_inv 1 {} (prop_abs p')"
    and ab: "prop_abs p' = run_prepared"
    by (rule prepared_proposer)
  from proposer_accept_implements [OF p(3-5)] show ?thesis
    using p(1,2) unfolding ab refines_def run_prepared_def
    by (auto simp: ab run_prepared_def spec_paccept_def take_value_def Let_def quorum_reached_def quorum_init_def
      quorum_clear_def paxos_quorum_numerals)
qed

text \<open>C13. A vote: the proposer counts it once per acceptor and only for the current ballot; with a quorum
  the instance is closed, and the client value comes back to the queue when another value won.\<close>

theorem proposer_accepted_refines:
  assumes "prop_repr p" "prop_room p" "spec_inv n W (prop_abs p)" "unat (aid ack) < n"
  shows "refines prop_abs prop_repr (proposer_receive_accepted p ack) (spec_accepted (prop_abs p) ack)"
  using assms by (rule proposer_receive_accepted_refines)

theorem proposer_accepted_refines_witness:
  "\<exists>p p' pr p''. proposer_new 0 1 = Some p \<and> proposer_prepare p (run_clock 0) = Some (p', pr) \<and>
    proposer_receive_accepted p' (zero_record\<lparr>iid := 1, ballot := 10\<rparr>) = Some (p'', 0)"
proof -
  obtain p p' where p: "proposer_new 0 1 = Some p" "proposer_prepare p (run_clock 0) = Some (p', zero_record\<lparr>iid := 1, ballot := 10\<rparr>)"
    "prop_repr p'" "prop_room p'" "spec_inv 1 {} (prop_abs p')"
    and ab: "prop_abs p' = run_prepared"
    by (rule prepared_proposer)
  from proposer_accepted_refines [OF p(3-5), of "zero_record\<lparr>iid := 1, ballot := 10\<rparr>"] show ?thesis
    using p(1,2) unfolding ab refines_def run_prepared_def by (auto simp: spec_accepted_def zero_record_def)
qed

text \<open>C14. A preemption by a higher ballot takes the instance back to phase one, under the next ballot of
  this proposer; the client value stays with the instance.\<close>

theorem proposer_preempted_refines:
  assumes "prop_repr p" "prop_room p" "spec_inv n W (prop_abs p)"
  shows "refines prop_abs prop_repr (proposer_receive_preempted p ack now) (spec_preempted (prop_abs p) ack now)"
  using assms by (rule proposer_receive_preempted_refines)

theorem proposer_preempted_refines_witness:
  "\<exists>p p' pr p''. proposer_new 0 1 = Some p \<and> proposer_prepare p (run_clock 0) = Some (p', pr) \<and>
    proposer_receive_preempted p' (zero_record\<lparr>iid := 1, ballot := 21\<rparr>) (run_clock 1) = Some (p'', None)"
proof -
  obtain p p' where p: "proposer_new 0 1 = Some p" "proposer_prepare p (run_clock 0) = Some (p', zero_record\<lparr>iid := 1, ballot := 10\<rparr>)"
    "prop_repr p'" "prop_room p'" "spec_inv 1 {} (prop_abs p')"
    and ab: "prop_abs p' = run_prepared"
    by (rule prepared_proposer)
  from proposer_preempted_refines [OF p(3-5), of "zero_record\<lparr>iid := 1, ballot := 21\<rparr>" "run_clock 1"] show ?thesis
    using p(1,2) unfolding ab refines_def run_prepared_def by (auto simp: spec_preempted_def zero_record_def)
qed

text \<open>C15. Moving a proposer to instance \<open>i\<close>, if \<open>i\<close> is later than the last instance it prepared, drops the
  instances up to \<open>i\<close> in both phases and keeps the others. No client value is lost or doubled: the
  values of the dropped instances, as a multiset, are appended to the queue. A move to an earlier
  instance does nothing.\<close>

theorem proposer_skip_keeps_values:
  assumes "prop_repr p" "prop_room p" "spec_inv n W (prop_abs p)"
  shows "\<exists>p'. proposer_set_instance_id p i = Some p' \<and> prop_repr p' \<and> spec_set_id (prop_abs p) i (prop_abs p')"
  using proposer_set_instance_id_refines [OF assms] by metis

theorem proposer_skip_keeps_values_witness:
  "\<exists>p p' pr p''. proposer_new 0 1 = Some p \<and> proposer_prepare p (run_clock 0) = Some (p', pr) \<and>
    proposer_set_instance_id p' 5 = Some p'' \<and> p_next_prepare_iid p'' = 5 \<and> s_prep (prop_abs p'') = Map.empty"
proof -
  obtain p p' where p: "proposer_new 0 1 = Some p" "proposer_prepare p (run_clock 0) = Some (p', zero_record\<lparr>iid := 1, ballot := 10\<rparr>)"
    "prop_repr p'" "prop_room p'" "spec_inv 1 {} (prop_abs p')"
    and ab: "prop_abs p' = run_prepared"
    by (rule prepared_proposer)
  obtain p'' where p'': "proposer_set_instance_id p' 5 = Some p''" "spec_set_id run_prepared 5 (prop_abs p'')"
    using proposer_skip_keeps_values [OF p(3-5), of 5] ab by auto
  then have "s_next (prop_abs p'') = 5" "s_prep (prop_abs p'') = Map.empty"
    by (auto simp: spec_set_id_def run_prepared_def restrict_map_def fun_eq_iff simp del: prop_abs_simps)
  then show ?thesis using p(1,2) p''(1) by auto
qed

text \<open>C16. The loop of \<open>try_accept\<close> ends, and it ends only when no further instance can start phase two; on
  the way every accept request it sends is safe and owned by this proposer.\<close>

theorem try_accept_drains:
  assumes "prop_ok n W M p" "prop_room p"
  shows "\<exists>p' out. try_accept_loop p [] = Some (p', out) \<and> prop_step n W M p out p' \<and>
    spec_paccept (prop_abs p') = (prop_abs p', None)"
  using try_accept_loop_step [OF assms, of "[]"] by auto

theorem try_accept_drains_witness:
  "\<exists>p p' out. proposer_new 0 1 = Some p \<and> try_accept_loop p [] = Some (p', out) \<and> spec_paccept (prop_abs p') = (prop_abs p', None)"
proof -
  obtain p where p: "proposer_new 0 (int 1) = Some p" "prop_ok 1 {} {} p"
    "prop_abs p = \<lparr>s_id = 0, s_acceptors = int 1, s_values = [], s_max_trim = 0, s_next = 0,
      s_prep = Map.empty, s_acc = Map.empty\<rparr>"
    by (rule proposer_new_ok [of 0 1 "{}"]) simp_all
  then have "prop_room p" by (simp add: prop_room_def prop_load_def)
  from try_accept_drains [OF p(2) this] show ?thesis using p(1) by auto
qed

text \<open>C17. With a positive timeout the timeout handler ends and keeps the proposer safe; everything it
  resends is a message that this proposer may send.\<close>

theorem check_timeouts_ends:
  assumes "0 < proposer_timeout cfg" "prop_ok n W M (ep_state p)"
  shows "\<exists>p' out. evproposer_check_timeouts cfg now p = Some (p', out) \<and>
    prop_ok n W (M \<union> msgs out) (ep_state p') \<and> (\<forall>m \<in> msgs out. prop_msg (p_id (ep_state p)) m)"
  using check_timeouts_step [OF assms, of now] by (auto simp: evprop_step_def prop_step_def)

theorem check_timeouts_ends_witness:
  "\<exists>p p' out. evproposer_init_internal default_config 0 1 = Some p \<and>
    evproposer_check_timeouts default_config (run_clock 0) p = Some (p', out)"
proof -
  obtain p where p: "evproposer_init_internal default_config 0 (int 1) = Some p" "prop_ok 1 {} {} (ep_state p)"
    by (rule evproposer_init_ok [of 0 default_config 1 "{}"]) simp_all
  have "0 < proposer_timeout default_config" by (simp add: default_config_def)
  from check_timeouts_ends [OF this p(2), of "run_clock 0"] show ?thesis using p(1) by auto
qed

text \<open>C18. Accept requests are safe in every state that a strict run reaches. Each acceptor of some quorum sent
  a promise for the instance and ballot of the request, and the request carries the value that
  one of these promises reports with the highest ballot of all, unless none of them reports a vote.
  Two requests for the same instance and ballot carry the same value.\<close>

theorem accept_requests_safe:
  assumes "reachable n cfg True s" "n \<le> 65536" "PAXOS_ACCEPT q \<in> sys_net s"
  shows "safe n (sys_net s) q \<and> (\<forall>q'. PAXOS_ACCEPT q' \<in> sys_net s \<longrightarrow> iid q = iid q' \<longrightarrow>
    ballot q = ballot q' \<longrightarrow> pvalue q = pvalue q')"
  using sys_invD(1) [OF reachable_inv [OF assms(1,2)]] net_inv_accept net_inv_accept_unique assms(3) by blast

theorem accept_requests_safe_witness:
  "\<exists>s q. reachable 1 run_cfg True s \<and> PAXOS_ACCEPT q \<in> sys_net s \<and> safe 1 (sys_net s) q"
proof -
  obtain s r q where s: "reachable 1 run_cfg True s" "PAXOS_ACCEPTED r \<in> sys_net s" "PAXOS_ACCEPT q \<in> sys_net s"
    by (rule run_deliver_vote)
  then show ?thesis using accept_requests_safe [OF s(1) _ s(3)] by auto
qed

text \<open>C19. A repeat request for the instances \<open>from\<close> to \<open>to\<close> is answered with the stored votes of
  these instances, in order and each once, and changes nothing.\<close>

theorem repeat_answers:
  assumes "mem_acc_inv i a" "repeat_to rep \<noteq> - 1"
  shows "\<exists>a'. evacceptor_handle_repeat a rep =
      Some (a', replies (repeated (mem_acc_abs a) (repeat_from rep) (repeat_to rep))) \<and>
    mem_acc_inv i a' \<and> mem_acc_abs a' = mem_acc_abs a"
  using repeat_loop_spec [OF assms, of "repeat_from rep" "[]"] by (simp add: evacceptor_handle_repeat_def)

theorem repeat_answers_witness:
  "\<exists>a a'. acceptor_new default_config 0 = Some (Some a) \<and>
    evacceptor_handle_repeat a \<lparr>repeat_from = 1, repeat_to = 3\<rparr> = Some (a', [])"
proof -
  obtain a where a: "acceptor_new default_config 0 = Some (Some a)" "mem_acc_inv 0 a" "mem_acc_abs a = (Map.empty, 0)"
    by (rule fresh_acceptor)
  have "repeated (Map.empty, 0) 1 3 = []" by (simp add: repeated_def spec_repeat_def map_filter_def)
  with repeat_answers [OF a(2), of "\<lparr>repeat_from = 1, repeat_to = 3\<rparr>"] show ?thesis
    using a(1,3) by (auto simp: replies_def)
qed

text \<open>C20. A repeat request up to the largest instance never ends: the loop counter wraps around.\<close>

theorem repeat_request_diverges:
  "evacceptor_handle_repeat a \<lparr>repeat_from = f, repeat_to = - 1\<rparr> = None"
  using repeat_loop_diverges [of a f "- 1" "[]"] by (cases "evacceptor_repeat_loop a f (- 1) []")
    (auto simp: evacceptor_handle_repeat_def)

section \<open>The learner\<close>

text \<open>C21. A vote makes the learner deliver a run of consecutive instances from its current one, each with
  a value that a quorum of acceptors voted for under one ballot; the handler always returns, whatever it reads from an instance that it
  has freed.\<close>

theorem learner_vote_delivers:
  assumes "net_inv n W M" "learner_inv (sent_votes M) n l" "kh_room (l_instances l)" "PAXOS_ACCEPTED ack \<in> M"
  shows "\<exists>l' ds. evlearner_handle_accepted freed l ack = Some (l', ds) \<and> learner_inv (sent_votes M) n l' \<and>
    delivers n M (if l_late_start l then iid ack else l_current_iid l) ds \<and>
    l_current_iid l' = (if l_late_start l then iid ack else l_current_iid l) + of_nat (length ds)"
  using assms by (rule handle_vote_spec) blast

theorem learner_vote_delivers_witness:
  "\<exists>s r l' ds. reachable 1 run_cfg True s \<and> PAXOS_ACCEPTED r \<in> sys_net s \<and>
    evlearner_handle_accepted (\<lambda>i. i) (learner_new run_cfg 1) r = Some (l', ds)"
proof -
  obtain s r q where s: "reachable 1 run_cfg True s" "PAXOS_ACCEPTED r \<in> sys_net s" "PAXOS_ACCEPT q \<in> sys_net s"
    by (rule run_deliver_vote)
  have "net_inv 1 (sys_values s) (sys_net s)" using sys_invD(1) [OF reachable_inv [OF s(1)]] by simp
  from learner_vote_delivers [where l = "learner_new run_cfg (int 1)" and freed = "\<lambda>i. i", OF this learner_new_inv _ s(2)]
  show ?thesis using s(1,2) by (auto simp: learner_new_def)
qed

text \<open>C22. A learner instance closes as soon as a quorum of the stored votes carries the ballot of the last
  vote, and a closed instance stays as it is.\<close>

theorem learner_quorum_closes:
  assumes "linst_body P n k inst"
  shows "\<exists>inst'. instance_has_quorum inst (int n) = Some (inst', li_final_value inst' \<noteq> None) \<and>
    linst_body P n k inst' \<and> (li_final_value inst \<noteq> None \<longrightarrow> inst' = inst) \<and>
    (paxos_quorum (int n) \<le> int (card (acks_for (li_acks inst) (li_last_update_ballot inst))) \<longrightarrow>
      li_final_value inst' \<noteq> None)"
  using assms by (rule instance_has_quorum_spec) blast

theorem learner_quorum_closes_witness:
  "\<exists>inst'. instance_has_quorum (linstance_new 3) 3 = Some (inst', li_final_value inst' \<noteq> None)"
  using learner_quorum_closes [OF linst_body_new [of "\<lambda>_. True" 3 1]] by auto

section \<open>The containers and the store\<close>

text \<open>C35. A hash table that stands for a map of fewer than $2^{30}$ instances: \<open>kh_put\<close> always finds a
  bucket, resizing when it must, tells whether the key was new, and after an assignment to the bucket
  the table stands for the old map updated at the key.\<close>

theorem khash_put_stores:
  assumes "kh_inv h" "kh_room h"
  shows "\<exists>h' x rv. kh_put h key = Some (h', x, rv) \<and> (rv = 0 \<longleftrightarrow> kh_map h key \<noteq> None) \<and>
    kh_inv (kh_set_value h' x v) \<and> kh_map (kh_set_value h' x v) = (kh_map h)(key \<mapsto> v)"
  using kh_put_set_value [OF assms, of key] by blast

theorem khash_put_stores_witness:
  "\<exists>h' x rv. kh_put kh_init 7 = Some (h', x, rv) \<and> kh_map (kh_set_value h' x val_a) 7 = Some val_a"
  using khash_put_stores [of kh_init 7 val_a] by auto

text \<open>C36. Looking up a key ends at the bucket that holds it, with its value, or at the end of the table when
  the key is absent; probing never runs around the table for ever.\<close>

theorem khash_get_finds:
  assumes "kh_inv h"
  shows "\<exists>x. kh_get h key = Some x \<and> (case kh_map h key of None \<Rightarrow> x = kh_end h
    | Some v \<Rightarrow> x \<noteq> kh_end h \<and> kh_value h x = Some v)"
  using assms by (cases rule: kh.lookup_cases [where k = key]) auto

theorem khash_get_finds_witness: "\<exists>x. kh_get (kh_init :: paxos_value khash) 7 = Some x \<and> x = kh_end (kh_init :: paxos_value khash)"
  using khash_get_finds [of "kh_init :: paxos_value khash" 7] by auto

text \<open>C37. Deleting the bucket that a lookup returned removes exactly that key.\<close>

theorem khash_del_removes:
  assumes "kh_inv h" "kh_get h key = Some x" "x \<noteq> kh_end h"
  shows "kh_inv (kh_del h x) \<and> kh_map (kh_del h x) = (kh_map h)(key := None)"
  using assms(1)
proof (cases rule: kh.lookup_cases [where k = key])
  case absent
  then show ?thesis using assms(2,3) by simp
next
  case (present y v)
  then show ?thesis using assms(1,2) kh_inv_del kh_map_del by auto
qed

theorem khash_del_removes_witness:
  "\<exists>h x. kh_map h 7 = Some val_a \<and> kh_get h 7 = Some x \<and> kh_map (kh_del h x) 7 = None"
proof -
  obtain h' x rv where h: "kh_put kh_init 7 = Some (h', x, rv)" "kh_inv (kh_set_value h' x val_a)"
    "kh_map (kh_set_value h' x val_a) = [7 \<mapsto> val_a]"
    by (rule kh.store_new [of kh_init 7 val_a]) (simp_all)
  obtain y where y: "kh_get (kh_set_value h' x val_a) 7 = Some y" "y \<noteq> kh_end (kh_set_value h' x val_a)"
    using h(2) by (cases rule: kh.lookup_cases [where k = 7]) (use h(3) in auto)
  show ?thesis using khash_del_removes [OF h(2) y] h(3) y(1) by (intro exI [of _ "kh_set_value h' x val_a"] exI [of _ y]) auto
qed

text \<open>C38. The circular array is a queue: a push on a queue of fewer than $2^{29}$ elements appends, growing
  the buffer when it is full, and a pop takes the oldest element.\<close>

theorem carray_fifo:
  assumes "carray_inv a" "carray_room a"
  shows "\<exists>a' a'' x. carray_push_back a p = Some a' \<and> carray_pop_front a' = Some (Some x, a'') \<and>
    carray_inv a'' \<and> x # carray_list a'' = carray_list a @ [p]"
  using assms by (rule cq.push_pop_fifo)

theorem carray_fifo_witness:
  "\<exists>a a' a'' x. carray_new 1 = Some a \<and> carray_push_back a val_a = Some a' \<and> carray_pop_front a' = Some (Some x, a'') \<and> x = val_a"
proof -
  obtain a :: "paxos_value carray" where a: "carray_new 1 = Some a" "carray_inv a" "carray_list a = []" "ca_size a = 1"
    by (rule carray_new_inv [of 1]) simp_all
  then have "carray_room a" by (simp add: carray_room_def)
  from carray_fifo [OF a(2) this, of val_a] show ?thesis using a(1,3) by auto
qed

text \<open>C39. Counting votes: a counter for \<open>n\<close> acceptors that is fed the identifiers of the answering acceptors
  accesses its array outside the bounds exactly for a negative identifier or one not below \<open>n\<close>.
  Otherwise it counts each acceptor once, tells whether an identifier is new, and has reached a quorum exactly when
  more than half of the acceptors answered. Any two counters that reached a quorum counted a common acceptor.\<close>

theorem reached_quorums_intersect:
  "(quorum_run (quorum_init (int n)) xs = None \<longleftrightarrow> (\<exists>i \<in> set xs. i < 0 \<or> int n \<le> i)) \<and>
   (quorum_run (quorum_init (int n)) xs = Some q \<longrightarrow>
      q_count q = int (card (set xs)) \<and> (quorum_reached q \<longleftrightarrow> n div 2 + 1 \<le> card (set xs)) \<and>
      (\<forall>i. 0 \<le> i \<and> i < int n \<longrightarrow> (\<exists>q'. quorum_add q i = Some (q', if i \<in> set xs then 0 else 1)))) \<and>
   (quorum_run (quorum_init (int n)) xs = Some q \<longrightarrow> quorum_run (quorum_init (int n)) ys = Some r \<longrightarrow>
      quorum_reached q \<longrightarrow> quorum_reached r \<longrightarrow> set xs \<inter> set ys \<noteq> {})"
  using quorum_run_init_none [of n xs] quorum_run_count [of n xs q] quorum_run_reached [of n xs q]
    quorum_run_add [of n xs q] quorum_runs_meet [of n xs q ys r] by blast

theorem reached_quorums_intersect_witness:
  "\<exists>q r q'. quorum_run (quorum_init (int 3)) [2, 0, 2] = Some q \<and> quorum_run (quorum_init (int 3)) [1, 0] = Some r \<and>
    quorum_reached q \<and> quorum_reached r \<and> set [2, 0, 2] \<inter> set [1, 0 :: int] \<noteq> {} \<and> q_count q = 2 \<and>
    quorum_add q 1 = Some (q', 1) \<and> quorum_run (quorum_init (int 3)) [2, 3] = None"
proof -
  obtain q r where q: "quorum_run (quorum_init (int 3)) [2, 0, 2] = Some q" "quorum_run (quorum_init (int 3)) [1, 0] = Some r"
    using quorum_run_init_none [of 3 "[2, 0, 2]"] quorum_run_init_none [of 3 "[1, 0]"] by fastforce
  have "card (set [2, 0, 2 :: int]) = 2" "card (set [1, 0 :: int]) = 2" by code_simp+
  then have "q_count q = 2" "quorum_reached q" "quorum_reached r"
    using reached_quorums_intersect [of 3 "[2, 0, 2]" q] reached_quorums_intersect [of 3 "[1, 0]" r] q by simp_all
  moreover have "\<forall>i. 0 \<le> i \<and> i < int 3 \<longrightarrow> (\<exists>q'. quorum_add q i = Some (q', if i \<in> set [2, 0, 2] then 0 else 1))"
    using reached_quorums_intersect [of 3 "[2, 0, 2]" q] q(1) by blast
  then have "\<exists>q'. quorum_add q 1 = Some (q', 1)" by (auto dest!: spec [of _ 1])
  moreover have "quorum_run (quorum_init (int 3)) [2, 3] = None" using reached_quorums_intersect [of 3 "[2, 3]"] by auto
  moreover have "set [2, 0, 2] \<inter> set [1, 0 :: int] \<noteq> {}"
    using reached_quorums_intersect [of 3 "[2, 0, 2]" q "[1, 0]" r] q calculation by blast
  ultimately show ?thesis using q by blast
qed

text \<open>C40. The in-memory store gives back the record that was put last for an instance, whole.\<close>

theorem mem_storage_round_trip:
  assumes "mem_inv s" "mem_room s" "value_wf (pvalue r)"
  shows "\<exists>s'. mem_storage_put s r = Some (0, s') \<and> mem_inv s' \<and> mem_storage_get s' (iid r) out = Some (1, r, s') \<and>
    (\<forall>k. k \<noteq> iid r \<longrightarrow> mem_recs s' k = mem_recs s k)"
  using mem_put [OF assms] mem_get_present [of _ "iid r" r out] by fastforce

theorem mem_storage_round_trip_witness:
  "\<exists>s'. mem_storage_put (mem_storage_new 0) (zero_record\<lparr>iid := 3, pvalue := val_a\<rparr>) = Some (0, s') \<and>
    mem_storage_get s' 3 zero_record = Some (1, zero_record\<lparr>iid := 3, pvalue := val_a\<rparr>, s')"
proof -
  have "mem_room (mem_storage_new 0)" by (simp add: mem_room_def mem_storage_new_def)
  moreover have "value_wf (pvalue (zero_record\<lparr>iid := 3, pvalue := val_a\<rparr>))" by (simp add: val_a_def value_eval)
  ultimately show ?thesis using mem_storage_round_trip [OF mem_new_inv(1) _ _, of 0 _ zero_record] by force
qed

section \<open>The store on disk\<close>

text \<open>C23. The two backends are equivalent for the acceptor. Two acceptors that hold the same records and the
  same trim instance, one in memory and one in an LMDB environment that keeps the library's laws and has
  room, give the same answers to a prepare, an accept and a trim request, and hold the same records
  afterwards.\<close>

theorem storage_backends_equivalent:
  assumes "mdb_law mdb v" "mem_acc_inv i a" "acceptor_room a" "lmdb_acc_inv mdb v cfg i b" "a_id b = i"
    "lmdb_room v (handle (a_store b))" "mem_acc_abs a = lmdb_acc_abs v b" "value_wf (pvalue acc)"
  shows "(\<exists>a' b' out. acceptor_receive_prepare a req = Some (a', out) \<and> acceptor_receive_prepare b req = Some (b', out) \<and>
      mem_acc_abs a' = lmdb_acc_abs v b') \<and>
    (\<exists>a' b' out. acceptor_receive_accept a acc = Some (a', out) \<and> acceptor_receive_accept b acc = Some (b', out) \<and>
      mem_acc_abs a' = lmdb_acc_abs v b') \<and>
    (\<exists>a' b' out. acceptor_receive_trim a t = Some (a', out) \<and> acceptor_receive_trim b t = Some (b', out) \<and>
      mem_acc_abs a' = lmdb_acc_abs v b')"
  using backends_agree [OF assms(1-7)] assms(8) by simp

theorem storage_backends_equivalent_witness:
  "\<exists>a b a' b' out. acceptor_new default_config 0 = Some (Some a) \<and>
    acceptor_start (storage_init_lmdb mdb_list default_config empty_disk 0) 0 = Some (Some b) \<and>
    acceptor_receive_accept a (zero_record\<lparr>iid := 3, ballot := 10, pvalue := val_a\<rparr>) = Some (a', out) \<and>
    acceptor_receive_accept b (zero_record\<lparr>iid := 3, ballot := 10, pvalue := val_a\<rparr>) = Some (b', out)"
proof -
  obtain a where a: "acceptor_new default_config 0 = Some (Some a)" "mem_acc_inv 0 a" "mem_acc_abs a = (Map.empty, 0)" "acceptor_room a"
    by (rule fresh_acceptor)
  obtain b where b: "acceptor_start (storage_init_lmdb mdb_list default_config empty_disk 0) 0 = Some (Some b)"
    "lmdb_acc_inv mdb_list mdb_list_view default_config 0 b" "a_id b = 0" "lmdb_acc_abs mdb_list_view b = (Map.empty, 0)"
    by (rule empty_disk_start [of default_config]) (simp add: default_config_def)
  have wf: "value_wf (pvalue (zero_record\<lparr>iid := 3, ballot := 10, pvalue := val_a\<rparr>))" by (simp add: val_a_def value_eval)
  have same: "mem_acc_abs a = lmdb_acc_abs mdb_list_view b" using a(3) b(4) by simp
  show ?thesis
    using storage_backends_equivalent [OF mdb_list_law a(2,4) b(2,3) mdb_list_room same wf] a(1) b(1) by blast
qed

text \<open>C24. An acceptor on disk keeps its promises, its votes and its trim instance when it is stopped and
  started again, and the answers to any list of requests, with restarts and crashes between them, are
  those of an abstract acceptor that never stops. The conditions: the library keeps its laws, opening
  included; the option to remove old files is off; the environment has room when a request may write;
  the values in accept requests are well formed; crashes happen only if the option to write to the disk
  synchronously is on, which it is not by default.\<close>

theorem lmdb_acceptor_restart:
  assumes "mdb_law mdb v" "mdb_open_law mdb v (lmdb_mapsize cfg) (lmdb_sync cfg = 0)" "trash_files cfg = 0"
    "lmdb_acc_inv mdb v cfg (a_id a) a"
  shows "(\<exists>s b. lmdb_storage_close mdb (handle (a_store a)) = Some s \<and> acceptor_free a = Some () \<and>
      acceptor_start (storage_init_lmdb mdb cfg (ls_world s) (a_id a)) (a_id a) = Some (Some b) \<and>
      lmdb_acc_inv mdb v cfg (a_id a) b \<and> a_id b = a_id a \<and> lmdb_acc_abs v b = lmdb_acc_abs v a) \<and>
    (list_all (request_wf cfg) qs \<longrightarrow> lmdb_run_room mdb v cfg a qs \<longrightarrow>
      (\<exists>b. lmdb_run mdb (mv_crash v) cfg a qs = Some (b, snd (spec_run (a_id a) (lmdb_acc_abs v a) qs)) \<and>
        lmdb_acc_abs v b = fst (spec_run (a_id a) (lmdb_acc_abs v a) qs)))"
proof (intro conjI impI)
  show "\<exists>s b. lmdb_storage_close mdb (handle (a_store a)) = Some s \<and> acceptor_free a = Some () \<and>
      acceptor_start (storage_init_lmdb mdb cfg (ls_world s) (a_id a)) (a_id a) = Some (Some b) \<and>
      lmdb_acc_inv mdb v cfg (a_id a) b \<and> a_id b = a_id a \<and> lmdb_acc_abs v b = lmdb_acc_abs v a"
    using lmdb_restart [OF assms refl] by blast
  assume "list_all (request_wf cfg) qs" "lmdb_run_room mdb v cfg a qs"
  then have "refines (lmdb_acc_abs v) (\<lambda>b. lmdb_acc_inv mdb v cfg (a_id a) b \<and> a_id b = a_id a)
      (lmdb_run mdb (mv_crash v) cfg a qs) (spec_run (a_id a) (lmdb_acc_abs v a) qs)"
    using lmdb_run_refines [OF assms] by simp
  then show "\<exists>b. lmdb_run mdb (mv_crash v) cfg a qs = Some (b, snd (spec_run (a_id a) (lmdb_acc_abs v a) qs)) \<and>
      lmdb_acc_abs v b = fst (spec_run (a_id a) (lmdb_acc_abs v a) qs)"
    by (cases "spec_run (a_id a) (lmdb_acc_abs v a) qs") (auto simp: refines_def)
qed

theorem lmdb_acceptor_restart_witness:
  "\<exists>a b r. acceptor_start (storage_init_lmdb mdb_list (default_config\<lparr>lmdb_sync := 1\<rparr>) empty_disk 0) 0 = Some (Some a) \<and>
    lmdb_run mdb_list (mv_crash mdb_list_view) (default_config\<lparr>lmdb_sync := 1\<rparr>) a
      [Req_accept (zero_record\<lparr>iid := 3, ballot := 10, pvalue := val_a\<rparr>), Crash, Req_prepare (zero_record\<lparr>iid := 3, ballot := 20\<rparr>), Restart] =
      Some (b, [Some (PAXOS_ACCEPTED r), None, Some (PAXOS_PROMISE (r\<lparr>ballot := 20\<rparr>)), None]) \<and>
    value_ballot r = 10 \<and> pvalue r = val_a"
proof -
  let ?acc = "zero_record\<lparr>iid := 3, ballot := 10, pvalue := val_a\<rparr>" and ?pre = "zero_record\<lparr>iid := 3, ballot := 20\<rparr>"
  let ?qs = "[Req_accept ?acc, Crash, Req_prepare ?pre, Restart]"
  let ?cfg = "default_config\<lparr>lmdb_sync := 1\<rparr>"
  have trash: "trash_files ?cfg = 0" by (simp add: default_config_def)
  obtain a where a: "acceptor_start (storage_init_lmdb mdb_list ?cfg empty_disk 0) 0 = Some (Some a)"
    "lmdb_acc_inv mdb_list mdb_list_view ?cfg 0 a" "a_id a = 0" "lmdb_acc_abs mdb_list_view a = (Map.empty, 0)"
    by (rule empty_disk_start [OF trash])
  have "list_all (request_wf ?cfg) ?qs" by (simp add: val_a_def value_eval)
  moreover have "lmdb_run_room mdb_list mdb_list_view ?cfg a ?qs"
    by (simp add: mdb_list_room split: option.split)
  moreover have "snd (spec_run 0 (Map.empty, 0) ?qs) =
      [Some (PAXOS_ACCEPTED (vote 0 ?acc)), None, Some (PAXOS_PROMISE ((vote 0 ?acc)\<lparr>ballot := 20\<rparr>)), None]"
    by (simp add: spec_accept_def spec_prepare_def may_vote_def prepared_def vote_def Let_def)
  moreover have "value_ballot (vote 0 ?acc) = 10" "pvalue (vote 0 ?acc) = val_a"
    by (simp_all add: vote_def value_copy_def val_a_def value_of_bytes_def value_bytes_def)
  ultimately show ?thesis
    using lmdb_acceptor_restart [OF mdb_list_law mdb_list_open_law trash, of a ?qs] a by metis
qed

section \<open>Messages, peers and the configuration\<close>

text \<open>C25. The stream of messages does not depend on how the network cuts it. The bytes of any list of
  well-formed messages, sent one after the other and read in chunks cut at any place, have the effect
  of one read of all the bytes: every handler is called for every message in the order in which they were
  sent, and no byte is left. The MessagePack library keeps its laws.\<close>

theorem stream_chunks_equivalent:
  assumes "msgpack_law mp" "list_all message_wf ms"
  shows "\<exists>bytes. send_all mp [] ms = Some bytes \<and> (\<forall>cs. concat cs = bytes \<longrightarrow>
    read_chunks mp subs p [] cs s = on_read mp subs p bytes s \<and>
    on_read mp subs p bytes s = map_option (Pair []) (dispatch_all subs p (map arrives ms) s))"
  using send_all_bytes [OF assms(2), of mp "[]"] read_chunks_whole [OF assms] by auto

theorem stream_chunks_equivalent_witness:
  "\<exists>bytes. send_all mp_fixed [] [PAXOS_TRIM \<lparr>trim_iid = 5\<rparr>] = Some bytes \<and>
    read_chunks mp_fixed [] 0 [] (map (\<lambda>b. [b]) bytes) () = Some ([], ())"
proof -
  obtain bytes where bytes: "send_all mp_fixed [] [PAXOS_TRIM \<lparr>trim_iid = 5\<rparr>] = Some bytes"
    "\<And>cs. concat cs = bytes \<Longrightarrow> read_chunks mp_fixed [] 0 [] cs () =
      map_option (Pair []) (dispatch_all [] 0 (map arrives [PAXOS_TRIM \<lparr>trim_iid = 5\<rparr>]) ())"
    using stream_chunks_equivalent [OF mp_fixed_law, of "[PAXOS_TRIM \<lparr>trim_iid = 5\<rparr>]" "[]" 0 "()"] by auto
  have "concat (map (\<lambda>b. [b]) bytes) = bytes" by simp
  from bytes(2) [OF this] show ?thesis using bytes(1) by simp
qed

text \<open>C32. The clients of a process are numbered by their places in its array at every moment: a new client
  gets the next place, and when a client leaves, those behind it move down with their numbers and its
  memory is freed.\<close>

theorem client_numbering:
  assumes "peers_inv ps"
  shows "peers_inv (on_accept ps fd a) \<and> ps_clients (on_accept ps fd a) = ps_clients ps @ [ps_next ps] \<and>
    (\<forall>pre p post ev. ps_clients ps = pre @ p # post \<longrightarrow> ev AND BEV_EVENT_EOF \<noteq> 0 \<or> ev AND BEV_EVENT_ERROR \<noteq> 0 \<longrightarrow>
      (\<exists>ps'. on_client_event ps p ev = Some ps' \<and> peers_inv ps' \<and> ps_clients ps' = pre @ post \<and>
        ps_peers ps' = ps_peers ps \<and> ps_store ps' p = None))"
  using on_accept_inv [OF assms] on_client_event_spec [OF assms] by metis

theorem client_numbering_witness:
  "\<exists>ps. on_client_event (on_accept (on_accept (peers_new empty_config :: unit peers) 3 \<lparr>sin_port = 0, sin_addr = 0\<rparr>) 4
      \<lparr>sin_port = 0, sin_addr = 0\<rparr>) 0 BEV_EVENT_EOF = Some ps \<and> ps_clients ps = [1] \<and> peers_inv ps"
proof -
  let ?a = "\<lparr>sin_port = 0, sin_addr = 0\<rparr>" and ?p0 = "peers_new empty_config :: unit peers"
  note p1 = client_numbering [of ?p0, OF peers_new_inv, of 3 ?a]
  then have inv: "peers_inv (on_accept ?p0 3 ?a)" by simp
  note p2 = client_numbering [OF inv, of 4 ?a]
  have nxt: "ps_next ?p0 = 0" "ps_next (on_accept ?p0 3 ?a) = 1" "ps_clients ?p0 = []"
    by (simp_all add: peers_new_def on_accept_def make_peer_def ev_log_def Let_def)
  have clients: "ps_clients (on_accept (on_accept ?p0 3 ?a) 4 ?a) = [] @ 0 # [1]" using p1 p2 nxt by simp
  have inv2: "peers_inv (on_accept (on_accept ?p0 3 ?a) 4 ?a)" using p2 by simp
  have "BEV_EVENT_EOF AND BEV_EVENT_EOF \<noteq> 0" by (simp add: BEV_EVENT_EOF_def)
  then obtain ps where "on_client_event (on_accept (on_accept ?p0 3 ?a) 4 ?a) 0 BEV_EVENT_EOF = Some ps" "peers_inv ps"
    "ps_clients ps = [] @ [1]"
    using client_numbering [OF inv2, THEN conjunct2, THEN conjunct2, rule_format, OF clients, of BEV_EVENT_EOF] by blast
  then show ?thesis by simp
qed

text \<open>C33. A configuration that was read can be used: every counted acceptor has an address, and a process
  can connect to all of them.\<close>

theorem config_accepted:
  assumes "evpaxos_config_read f cfg = Some (Some c, cfg')"
  shows "config_ok c \<and> (\<forall>i. 0 \<le> i \<and> i < evpaxos_acceptor_count c \<longrightarrow> evpaxos_acceptor_address inet_addr c i \<noteq> None) \<and>
    (\<exists>ps. peers_connect_to_acceptors inet_addr (peers_new c :: 's peers) = Some ps \<and> peers_inv ps \<and>
      peers_count ps = evpaxos_acceptor_count c)"
proof -
  have ok: "config_ok c" by (rule config_read_ok [OF assms])
  show ?thesis using ok connect_to_acceptors [OF ok, of inet_addr, where 's = 's] acceptor_address_ok [OF ok] by blast
qed

theorem config_accepted_witness:
  "\<exists>c. evpaxos_config_read (text_file (print_config [(''127.0.0.1'', 8801)] [(''127.0.0.1'', 8800)])) default_config =
    Some (Some c, default_config) \<and> evpaxos_acceptor_count c = 1 \<and> evpaxos_acceptor_address (\<lambda>_. 0) c 0 \<noteq> None"
proof -
  have read: "evpaxos_config_read (text_file (print_config [(''127.0.0.1'', 8801)] [(''127.0.0.1'', 8800)])) default_config =
      Some (Some (config_of [(''127.0.0.1'', 8801)] [(''127.0.0.1'', 8800)]), default_config)"
    by (rule config_read_printed) (simp_all add: printable_local)
  have count: "evpaxos_acceptor_count (config_of [(''127.0.0.1'', 8801)] [(''127.0.0.1'', 8800)]) = 1"
    by (simp add: evpaxos_acceptor_count_def config_of_def)
  show ?thesis using read count config_accepted [OF read, of "\<lambda>_. 0", where 's = unit] by auto
qed

text \<open>C34. Reading a file with the lines of proposers and acceptors gives back their addresses and ports
  in order, and does not change the options.\<close>

theorem config_file_round_trip:
  assumes "printable ps" "printable as"
  shows "evpaxos_config_read (text_file (print_config ps as)) cfg = Some (Some (config_of ps as), cfg)"
  by (rule config_read_printed [OF assms])

theorem config_file_round_trip_witness:
  "evpaxos_config_read (text_file (print_config [(''127.0.0.1'', 8801)] [])) default_config =
    Some (Some (config_of [(''127.0.0.1'', 8801)] []), default_config)"
  by (rule config_file_round_trip) (simp_all add: printable_local, simp add: printable_def)

section \<open>The in-network library\<close>

text \<open>C29. Packing and unpacking: a message with well-formed values is written past the end of a buffer that
  is shorter than its bytes. In a longer buffer packing returns the length for the datagram, and
  unpacking the buffer gives the message with its value in a buffer that has one zero byte
  more (\<open>received\<close>). For a client value the type is not written: the two bytes of the type are those
  that the buffer had, so that in a cleared buffer it does not arrive as a client value.\<close>

theorem net_message_round_trip:
  assumes "message_fits m"
  shows "if length p < wire_len m then pack_paxos_message p m = None
    else \<exists>p'. pack_paxos_message p m = Some (p', size_of_int (dgram_len m)) \<and>
      (if is_client_value m
       then take 2 p' = take 2 p \<and> (take 2 p = [0, 0] \<longrightarrow> unpack_paxos_message p' \<noteq> Some (Some (PAXOS_CLIENT_VALUE v)))
       else unpack_paxos_message p' = Some (Some (received m)))"
proof (cases "length p < wire_len m")
  case True
  then show ?thesis using message_overflow [OF assms] by simp
next
  case len: False
  show ?thesis
  proof (cases "is_client_value m")
    case True
    then obtain u where "m = PAXOS_CLIENT_VALUE u" by blast
    then show ?thesis using client_value_keeps_type [of u p] client_value_type_lost assms len by auto
  next
    case False
    then obtain p' where "pack_paxos_message p m = Some (p', size_of_int (dgram_len m))" "take (wire_len m) p' = message_image m"
      using pack_message_image [OF assms _ False, of p] len by auto
    then show ?thesis using unpack_message_image [OF _ assms False] False len by auto
  qed
qed

theorem net_message_round_trip_witness:
  "pack_paxos_message (replicate 5 0) (PAXOS_TRIM \<lparr>trim_iid = 9\<rparr>) = None \<and>
    (\<exists>p' n. pack_paxos_message (replicate 6 0) (PAXOS_TRIM \<lparr>trim_iid = 9\<rparr>) = Some (p', n) \<and>
      unpack_paxos_message p' = Some (Some (PAXOS_TRIM \<lparr>trim_iid = 9\<rparr>)))"
  using net_message_round_trip [of "PAXOS_TRIM \<lparr>trim_iid = 9\<rparr>" "replicate 5 0"]
    net_message_round_trip [of "PAXOS_TRIM \<lparr>trim_iid = 9\<rparr>" "replicate 6 0"]
  by auto

text \<open>C26. The acceptor over datagrams, compared with the acceptor over streams. A datagram that carries a
  prepare, an accept or a repeat request changes the acceptor as the handler of evpaxos does, and the datagrams
  that it sends carry the messages of that handler, a vote once for the learners and once for the sender,
  if these messages fit a datagram. There are two differences. A refusal of an accept request is not sent.
  Requests to trim, which evpaxos handles, do nothing; neither do messages for other processes. Votes,
  which evpaxos does not handle, are for benchmarks and are left out here.\<close>

theorem net_acceptor_equivalent:
  assumes "ctx_acceptor ctx = Some a" "carries bs m" "message_fits m" "\<not> is_client_value m"
  shows "(m = PAXOS_PREPARE r \<longrightarrow> evacceptor_handle_prepare a (r\<lparr>pvalue := nul_value (pvalue r)\<rparr>) = Some (a', out) \<longrightarrow>
      all_sendable out \<longrightarrow>
      (\<exists>ctx' ds. acceptor_read ctx (Some bs) = Some (ctx', ds) \<and> ctx_acceptor ctx' = Some a' \<and> matches ds out)) \<and>
    (m = PAXOS_ACCEPT r \<longrightarrow> evacceptor_handle_accept a (r\<lparr>pvalue := nul_value (pvalue r)\<rparr>) = Some (a', out) \<longrightarrow>
      all_sendable (no_refusals out) \<longrightarrow>
      (\<exists>ctx' ds. acceptor_read ctx (Some bs) = Some (ctx', ds) \<and> ctx_acceptor ctx' = Some a' \<and> matches ds (no_refusals out))) \<and>
    (m = PAXOS_REPEAT q \<longrightarrow> evacceptor_handle_repeat a q = Some (a', out) \<longrightarrow> all_sendable out \<longrightarrow>
      (\<exists>ctx' ds. acceptor_read ctx (Some bs) = Some (ctx', ds) \<and> ctx_acceptor ctx' = Some a' \<and> matches ds out)) \<and>
    (acceptor_ignores m \<longrightarrow> (\<exists>ctx'. acceptor_read ctx (Some bs) = Some (ctx', []) \<and> ctx_acceptor ctx' = Some a))"
  using acceptor_read_ev [OF assms] by blast

theorem net_acceptor_equivalent_witness:
  "\<exists>a ctx' bs. acceptor_new default_config 0 = Some (Some a) \<and>
    acceptor_read ((init_paxos_ctx [])\<lparr>ctx_acceptor := Some a\<rparr>)
      (Some (message_image (PAXOS_PREPARE (zero_record\<lparr>iid := 1, ballot := 10\<rparr>)))) = Some (ctx', [(Remote, bs)])"
proof -
  let ?r = "zero_record\<lparr>iid := 1, ballot := 10\<rparr>"
  obtain a where a: "acceptor_new default_config 0 = Some (Some a)" "mem_acc_inv 0 a" "mem_acc_abs a = (Map.empty, 0)" "acceptor_room a"
    by (rule fresh_acceptor)
  have nul: "nul_value no_value = no_value" by (simp add: nul_value_def no_value_def)
  have "refines mem_acc_abs (mem_acc_inv 0) (acceptor_receive_prepare a ?r) (spec_prepare 0 (Map.empty, 0) ?r)"
    using mem_prepare_refines [OF a(2,4), of ?r] a(3) by simp
  then obtain a' where run: "evacceptor_handle_prepare a ?r = Some (a', [(ToPeer, PAXOS_PROMISE (prepared 0 ?r None))])"
    by (auto simp: refines_def spec_prepare_def evacceptor_handle_prepare_def Let_def zero_record_def)
  have sends: "all_sendable [(ToPeer, PAXOS_PROMISE (prepared 0 ?r None))]"
    by (simp add: all_sendable_def sendable_def fits_def sizeof_paxos_message_def) (simp add: no_value_def)
  have carry: "carries (message_image (PAXOS_PREPARE ?r)) (PAXOS_PREPARE ?r)" "message_fits (PAXOS_PREPARE ?r)"
    by (simp_all add: carries_def record_image_def value_image_def fits_def BUFSIZE_def zero_record_def)
      (simp_all add: no_value_def value_bytes_def)
  have "evacceptor_handle_prepare a (?r\<lparr>pvalue := nul_value (pvalue ?r)\<rparr>) = Some (a', [(ToPeer, PAXOS_PROMISE (prepared 0 ?r None))])"
    using run nul by (simp add: zero_record_def)
  moreover have "ctx_acceptor ((init_paxos_ctx [])\<lparr>ctx_acceptor := Some a\<rparr>) = Some a" "\<not> is_client_value (PAXOS_PREPARE ?r)"
    by simp_all
  ultimately obtain ctx' ds where "acceptor_read ((init_paxos_ctx [])\<lparr>ctx_acceptor := Some a\<rparr>)
      (Some (message_image (PAXOS_PREPARE ?r))) = Some (ctx', ds)" "matches ds [(ToPeer, PAXOS_PROMISE (prepared 0 ?r None))]"
    using net_acceptor_equivalent [OF _ carry, of "(init_paxos_ctx [])\<lparr>ctx_acceptor := Some a\<rparr>" a ?r a'] sends by blast
  then show ?thesis using a(1) by (fastforce simp: matches_def list_all2_Cons2)
qed

text \<open>C27. The coordinator over datagrams, compared with the proposer of evpaxos. A datagram that carries a
  promise, a vote or a proposal changes its proposer as the handler of evpaxos does for the same message,
  with a proposal as a client value, and the datagrams that it sends carry the messages of that handler in
  the same order, if they fit a datagram. All other messages do nothing, refusals and
  states of acceptors included, which the proposer of evpaxos handles.\<close>

theorem net_coordinator_equivalent:
  assumes "ctx_proposer ctx = Some (ep_state ep)" "carries bs m" "message_fits m" "\<not> is_client_value m"
    "ep_preexec_window ep = proposer_preexec_window cfg"
  shows "(m = PAXOS_PROMISE r \<and> evproposer_handle_promise now ep (r\<lparr>pvalue := nul_value (pvalue r)\<rparr>) = Some (ep', out) \<or>
      m = PAXOS_ACCEPTED r \<and> evproposer_handle_accepted now ep (r\<lparr>pvalue := nul_value (pvalue r)\<rparr>) = Some (ep', out) \<or>
      m = PAXOS_ACCEPT r \<and> evproposer_handle_client_value now ep \<lparr>client_value = nul_value (pvalue r)\<rparr> = Some (ep', out) \<longrightarrow>
      all_sendable out \<longrightarrow>
      (\<exists>ctx' ds. coordinator_read cfg now ctx (Some bs) = Some (ctx', ds) \<and>
        ctx_proposer ctx' = Some (ep_state ep') \<and> matches ds out)) \<and>
    (coordinator_ignores m \<longrightarrow>
      (\<exists>ctx'. coordinator_read cfg now ctx (Some bs) = Some (ctx', []) \<and> ctx_proposer ctx' = Some (ep_state ep)))"
  using coordinator_read_ev [OF assms(1-4) _ _ assms(5)] coordinator_read_ignores [OF assms(1-4)] by blast

theorem net_coordinator_equivalent_witness:
  "\<exists>ep ctx' bs. evproposer_init_internal run_cfg 0 1 = Some ep \<and>
    coordinator_read run_cfg run_clock ((init_paxos_ctx [])\<lparr>ctx_proposer := Some (ep_state ep)\<rparr>)
      (Some (message_image (PAXOS_ACCEPT (zero_record\<lparr>iid := 1, pvalue := val_a\<rparr>)))) = Some (ctx', [(Acceptors, bs)])"
proof -
  let ?r = "zero_record\<lparr>iid := 1, pvalue := val_a\<rparr>"
  let ?m = "PAXOS_ACCEPT ?r"
  let ?out = "[(ToAcceptors, PAXOS_PREPARE (zero_record\<lparr>iid := 1, ballot := 10\<rparr>))]"
  obtain ep where ep: "evproposer_init_internal run_cfg 0 1 = Some ep" "ep_preexec_window ep = proposer_preexec_window run_cfg"
    and run: "\<exists>ep'. evproposer_handle_client_value run_clock ep \<lparr>client_value = nul_value (pvalue ?r)\<rparr> = Some (ep', ?out)"
    by (simp add: nul_value_def paxos_eval cong: bind_weak)
  have carry: "carries (message_image ?m) ?m" "message_fits ?m"
    by (simp_all add: carries_def record_image_def value_image_def fits_def BUFSIZE_def paxos_eval)
  have sends: "all_sendable ?out"
    by (simp add: all_sendable_def sendable_def fits_def sizeof_paxos_message_def paxos_eval)
  let ?ctx = "(init_paxos_ctx [])\<lparr>ctx_proposer := Some (ep_state ep)\<rparr>"
  have "ctx_proposer ?ctx = Some (ep_state ep)" "\<not> is_client_value ?m" by simp_all
  then obtain ctx' ds where "coordinator_read run_cfg run_clock ?ctx (Some (message_image ?m)) = Some (ctx', ds)" "matches ds ?out"
    using net_coordinator_equivalent [of ?ctx ep, OF _ carry _ ep(2), of ?r run_clock] run sends by blast
  then show ?thesis using ep(1) by (fastforce simp: matches_def list_all2_Cons2)
qed

text \<open>C28. Values that are submitted travel to the acceptors in the order of the sequencer: the proposals of any
  values of at most 102 bytes leave it as accept requests for consecutive instances, with
  the submitted bytes.\<close>

theorem sequencer_orders_values:
  assumes "ctx_sequencer ctx = Some i" "length buffer = BUFSIZE" "length buf = BUFSIZE" "\<forall>v \<in> set vs. length v \<le> 102"
  shows "\<exists>ds out. list_all2 (\<lambda>v d. submit buffer (Some v) (int (length v)) = Some [(Coordinator, d)]) vs ds \<and>
    sequencer_run ctx (map (Pair buf) ds) = Some (ctx\<lparr>ctx_sequencer := Some (i + of_nat (length vs))\<rparr>, out) \<and>
    list_all2 (\<lambda>(dst, d) (k, v). dst = Acceptors \<and> (\<forall>b. unpack_paxos_message (fst (recvfrom b (Some d))) =
      Some (Some (PAXOS_ACCEPT \<lparr>iid = i + of_nat k, ballot = 0, value_ballot = 0, aid = 0,
        pvalue = nul_value (value_of_bytes v)\<rparr>)))) out (zip [0..<length vs] vs)"
  using assms by (rule sequencer_run_values)

theorem sequencer_orders_values_witness:
  "\<exists>d e out. submit (replicate 128 0) (Some [7]) 1 = Some [(Coordinator, d)] \<and>
    submit (replicate 128 0) (Some [9]) 1 = Some [(Coordinator, e)] \<and>
    sequencer_run (make_sequencer []) [(replicate 128 0, d), (replicate 128 0, e)] = Some ((make_sequencer [])\<lparr>ctx_sequencer := Some 3\<rparr>, out)"
  using sequencer_orders_values [of "make_sequencer []" 1 "replicate 128 0" "replicate 128 0" "[[7], [9]]"]
  by (auto simp: make_sequencer_def sequencer_new_def BUFSIZE_def list_all2_Cons1)

section \<open>The replica\<close>

text \<open>C31. A replica writes a submitted value to the stream of its first connected peer only, as one client value
  message, and does nothing when none is connected.\<close>

theorem replica_submit_first:
  assumes "peers_inv ps" "length v < 2 ^ 31"
  shows "evpaxos_replica_submit mp ps (Some v) (int (length v)) =
    Some (case find (\<lambda>p. peer_connected ps p = Some True) (ps_peers ps) of None \<Rightarrow> ps
      | Some p \<Rightarrow> ps\<lparr>ps_store := (ps_store ps)(p := map_option (\<lambda>peer. peer\<lparr>peer_bev :=
          peer_bev peer @ message_bytes mp (PAXOS_CLIENT_VALUE \<lparr>client_value = value_of_bytes v\<rparr>)\<rparr>) (ps_store ps p))\<rparr>)"
  using assms by (rule replica_submit_value)

theorem replica_submit_first_witness:
  "\<exists>ps ps' ps''. peers_connect (peers_new empty_config :: unit peers) 0 \<lparr>sin_port = 0, sin_addr = 0\<rparr> = Some ps \<and>
    on_peer_event ps 0 BEV_EVENT_CONNECTED = Some ps' \<and> evpaxos_replica_submit mp_fixed ps' (Some [7]) 1 = Some ps'' \<and>
    map_option peer_bev (ps_store ps'' 0) = Some (message_bytes mp_fixed (PAXOS_CLIENT_VALUE \<lparr>client_value = val_a\<rparr>))"
proof -
  let ?p0 = "peers_new empty_config :: unit peers"
  obtain ps where ps: "peers_connect ?p0 0 \<lparr>sin_port = 0, sin_addr = 0\<rparr> = Some ps" "peers_inv ps"
    using peers_connect_inv [OF peers_new_inv, of 0 empty_config] by (auto simp: peers_new_def)
  then have new: "ps_peers ps = [0]" "\<exists>peer. ps_store ps 0 = Some peer \<and> peer_bev peer = []"
    by (auto simp: peers_connect_def make_peer_def connect_peer_def peers_new_def Let_def)
  obtain ps' where ps': "on_peer_event ps 0 BEV_EVENT_CONNECTED = Some ps'" "peers_inv ps'" "ps_peers ps' = ps_peers ps"
    using on_peer_event_inv [OF ps(2), of 0 BEV_EVENT_CONNECTED] new(1) by auto
  then have "peer_connected ps' 0 = Some True" "map_option peer_bev (ps_store ps' 0) = Some []"
    using new(2) by (auto simp: on_peer_event_def peer_connected_def BEV_EVENT_CONNECTED_def)
  then show ?thesis
    using replica_submit_first [OF ps'(2), of "[7]" mp_fixed] ps(1) ps'(1,3) new(1) by (auto simp: val_a_def)
qed

text \<open>C30. A replica that starts has a learner, whether or not the application gave a delivery function. It hands
  every vote to its proposer and then to its learner. The values that the learner delivers for the vote go
  to the application if there is a delivery function, and the proposer follows them in any case: the next
  instance that it prepares is not below any of the delivered instances.\<close>

theorem replica_proposer_follows:
  assumes "evpaxos_replica_init inet_addr f bound cb now freed cfg i = Some (Some (ps, r0))"
  shows "pr_learner r0 \<noteq> None \<and> pr_replica r0 \<and> pr_callback r0 = cb \<and>
    dispatch_message (ps_subs ps) p (Some (PAXOS_ACCEPTED m)) r =
      do { r \<leftarrow> accepted_cb p (PAXOS_ACCEPTED m) r; learner_accepted_cb p (PAXOS_ACCEPTED m) r } \<and>
    (pr_replica r \<longrightarrow> pr_learner r = Some l \<longrightarrow> evlearner_handle_accepted (pr_freed r) l m = Some (l', ds) \<longrightarrow>
      dispatch_message (ps_subs ps) p (Some (PAXOS_ACCEPTED m)) r = Some r' \<longrightarrow>
      pr_learner r' = Some l' \<and> pr_delivered r' = pr_delivered r @ (if pr_callback r then ds else []) \<and>
      (\<exists>e. pr_proposer r' = Some e \<and> (\<forall>d \<in> set ds. fst d \<le> p_next_prepare_iid (ep_state e))))"
  using replica_delivers [of p m r r' l l' ds] replica_dispatch_accepted [of p m r] replica_init_subs [OF assms] by metis

theorem replica_proposer_follows_witness:
  "\<exists>ps r r' e. evpaxos_replica_init (\<lambda>_. 0) (text_file (print_config [(''127.0.0.1'', 8801)] [(''127.0.0.1'', 8800)])) True True run_clock
      (\<lambda>i. i) default_config 0 = Some (Some (ps, r)) \<and>
    dispatch_message (ps_subs ps) 0 (Some (PAXOS_ACCEPTED (zero_record\<lparr>iid := 1, ballot := 10, value_ballot := 10, pvalue := val_a\<rparr>))) r = Some r' \<and>
    pr_delivered r' = [(1, Some [7], 1)] \<and> pr_proposer r' = Some e \<and> 1 \<le> p_next_prepare_iid (ep_state e)"
proof -
  let ?f = "text_file (print_config [(''127.0.0.1'', 8801)] [(''127.0.0.1'', 8800)])"
  let ?c = "config_of [(''127.0.0.1'', 8801)] [(''127.0.0.1'', 8800)]"
  let ?vote = "zero_record\<lparr>iid := 1, ballot := 10, value_ballot := 10, pvalue := val_a\<rparr>"
  have read: "evpaxos_config_read ?f default_config = Some (Some ?c, default_config)"
    by (rule config_read_printed) (simp_all add: printable_local)
  have n: "evpaxos_acceptor_count ?c = 1" by (simp add: evpaxos_acceptor_count_def config_of_def)
  obtain a where a: "acceptor_new default_config 0 = Some (Some a)" by (rule fresh_acceptor)
  obtain e where e: "evproposer_init_internal default_config 0 1 = Some e" by (simp add: paxos_eval cong: bind_weak)
  let ?r = "(new_process run_clock (\<lambda>i. i) True True)\<lparr>pr_acceptor := Some a, pr_proposer := Some e,
    pr_learner := Some (learner_new default_config 1)\<rparr>"
  obtain ps where ps: "evpaxos_replica_init (\<lambda>_. 0) ?f True True run_clock (\<lambda>i. i) default_config 0 = Some (Some (ps, ?r))"
    using replica_init_starts [OF read _ _ a, of e "\<lambda>_. 0" True run_clock "\<lambda>i. i"] n e by auto
  obtain l where l: "evlearner_handle_accepted (\<lambda>i. i) (learner_new default_config 1) ?vote = Some (l, [(1, Some [7], 1)])"
    by (simp add: paxos_eval cong: bind_weak)
  have "\<exists>e'. evproposer_handle_accepted run_clock e ?vote = Some (e, []) \<and> evproposer_set_instance_id e 1 = Some e'"
    using e by (auto simp: evproposer_init_internal_def proposer_new_def evproposer_handle_accepted_def
      proposer_receive_accepted_def evproposer_set_instance_id_def proposer_set_instance_id_def proposer_trim_instances_def
      bind_eq_Some_conv kh_get_def kh_init_def kh_end_def Let_def)
  with l have "\<exists>r'. do { r \<leftarrow> accepted_cb 0 (PAXOS_ACCEPTED ?vote) ?r; learner_accepted_cb 0 (PAXOS_ACCEPTED ?vote) r } = Some r'"
    by (auto simp: on_proposer_def evpaxos_replica_deliver_def new_process_def)
  then obtain r' where r': "dispatch_message (ps_subs ps) 0 (Some (PAXOS_ACCEPTED ?vote)) ?r = Some r'"
    using replica_proposer_follows [OF ps, of 0 ?vote ?r] by metis
  have "pr_replica ?r" "pr_learner ?r = Some (learner_new default_config 1)" "pr_delivered ?r = []" "pr_callback ?r"
    "evlearner_handle_accepted (pr_freed ?r) (learner_new default_config 1) ?vote = Some (l, [(1, Some [7], 1)])"
    using l by (simp_all add: new_process_def)
  with replica_proposer_follows [OF ps, of 0 ?vote ?r] r'
  have "pr_delivered r' = [(1, Some [7], 1)]" "\<exists>e. pr_proposer r' = Some e \<and> 1 \<le> p_next_prepare_iid (ep_state e)"
    by force+
  then show ?thesis using ps r' by blast
qed

end
